(* ===== verification/Prelude.thy ===== *)
theory Prelude
  imports Main "HOL-Library.Word" "HOL-Library.Sublist"
begin

text \<open>
  What every component of the model shares: the result type of fallible Rust code, bytes and
  fixed-width integers, big-endian encodings, slices, \<open>i32\<close> window arithmetic, the poll type of
  the asynchronous readers and writers, and the generic facts about lists and options that the
  component theories use.
\<close>

section \<open>Results\<close>

text \<open>
  \<open>Result<T, E>\<close> with the third outcome a Rust function has, the panic (an index out of bounds,
  a failed \<open>unwrap\<close>, an arithmetic overflow with overflow checks). A panic is a value of the
  model, so that its absence is a theorem.
\<close>

datatype ('a, 'e) outcome = Ok 'a | Err 'e | Panic

fun obind :: "('a, 'e) outcome \<Rightarrow> ('a \<Rightarrow> ('b, 'e) outcome) \<Rightarrow> ('b, 'e) outcome" where
  "obind (Ok a) f = f a"
| "obind (Err e) f = Err e"
| "obind Panic f = Panic"

fun omap :: "('a \<Rightarrow> 'b) \<Rightarrow> ('a, 'e) outcome \<Rightarrow> ('b, 'e) outcome" where
  "omap f (Ok a) = Ok (f a)"
| "omap f (Err e) = Err e"
| "omap f Panic = Panic"

definition ok_or :: "'e \<Rightarrow> 'a option \<Rightarrow> ('a, 'e) outcome" where
  "ok_or e x = (case x of None \<Rightarrow> Err e | Some a \<Rightarrow> Ok a)"

fun is_ok :: "('a, 'e) outcome \<Rightarrow> bool" where
  "is_ok (Ok a) = True"
| "is_ok (Err e) = False"
| "is_ok Panic = False"

fun ofold :: "('s \<Rightarrow> 'a \<Rightarrow> ('s, 'e) outcome) \<Rightarrow> 's \<Rightarrow> 'a list \<Rightarrow> ('s, 'e) outcome" where
  "ofold f s [] = Ok s"
| "ofold f s (x # xs) = obind (f s x) (\<lambda>s'. ofold f s' xs)"

lemma obind_eq_Ok [simp]: "obind m f = Ok b \<longleftrightarrow> (\<exists>a. m = Ok a \<and> f a = Ok b)"
  by (cases m) auto

lemma obind_neq_Panic: "obind m f \<noteq> Panic \<longleftrightarrow> m \<noteq> Panic \<and> (\<forall>a. m = Ok a \<longrightarrow> f a \<noteq> Panic)"
  by (cases m) auto

lemma omap_eq_Ok [simp]: "omap f m = Ok b \<longleftrightarrow> (\<exists>a. m = Ok a \<and> b = f a)"
  by (cases m) auto

lemma omap_eq_Panic [simp]: "omap f m = Panic \<longleftrightarrow> m = Panic"
  by (cases m) auto

lemma omap_eq_Err [simp]: "omap f m = Err e \<longleftrightarrow> m = Err e"
  by (cases m) auto

lemma ok_or_eq_Ok [simp]: "ok_or e x = Ok a \<longleftrightarrow> x = Some a"
  by (simp add: ok_or_def split: option.splits)

lemma ok_or_neq_Panic [simp]: "ok_or e x \<noteq> Panic"
  by (simp add: ok_or_def split: option.splits)

lemma ok_or_simps [simp]: "ok_or e None = Err e" "ok_or e (Some a) = Ok a"
  by (simp_all add: ok_or_def)

lemma is_ok_iff: "is_ok m \<longleftrightarrow> (\<exists>a. m = Ok a)"
  by (cases m) auto

text \<open>
  A method with \<open>&mut self\<close> that can fail returns its result and the state it leaves: what it wrote
  before an early return stays written. \<open>sbind\<close> is \<open>?\<close> between two such calls.
\<close>

type_synonym ('s, 'a, 'e) stateful = "'s \<Rightarrow> ('a, 'e) outcome \<times> 's"

definition sbind ::
  "('s, 'a, 'e) stateful \<Rightarrow> ('a \<Rightarrow> ('s, 'b, 'e) stateful) \<Rightarrow> ('s, 'b, 'e) stateful" where
  "sbind m k s =
     (case m s of (Ok a, s') \<Rightarrow> k a s' | (Err e, s') \<Rightarrow> (Err e, s') | (Panic, s') \<Rightarrow> (Panic, s'))"

definition sret :: "'a \<Rightarrow> ('s, 'a, 'e) stateful" where "sret a s = (Ok a, s)"

definition slift :: "('a, 'e) outcome \<Rightarrow> ('s, 'a, 'e) stateful" where "slift r s = (r, s)"

lemma sbind_simps [simp]:
  "m s = (Ok a, s') \<Longrightarrow> sbind m k s = k a s'"
  "m s = (Err e, s') \<Longrightarrow> sbind m k s = (Err e, s')"
  "m s = (Panic, s') \<Longrightarrow> sbind m k s = (Panic, s')"
  by (simp_all add: sbind_def)

lemma sret_apply [simp]: "sret a s = (Ok a, s)"
  by (simp add: sret_def)

lemma slift_apply [simp]: "slift r s = (r, s)"
  by (simp add: slift_def)

text \<open>A property of the state that every step of a method or of a poll keeps, whatever its outcome.\<close>

definition keeps :: "('s \<Rightarrow> bool) \<Rightarrow> ('s \<Rightarrow> 'x \<times> 's) \<Rightarrow> bool" where
  "keeps P m \<longleftrightarrow> (\<forall>s. P s \<longrightarrow> P (snd (m s)))"

lemma keepsI: "(\<And>s. P s \<Longrightarrow> P (snd (m s))) \<Longrightarrow> keeps P m"
  by (simp add: keeps_def)

lemma keepsD: "keeps P m \<Longrightarrow> P s \<Longrightarrow> P (snd (m s))"
  by (simp add: keeps_def)

lemma keeps_sbind: "keeps P m \<Longrightarrow> (\<And>a. keeps P (k a)) \<Longrightarrow> keeps P (sbind m k)"
  by (auto simp: keeps_def sbind_def split: prod.splits outcome.splits)

lemma keeps_sret [simp]: "keeps P (sret a)"
  by (simp add: keeps_def)

lemma keeps_slift [simp]: "keeps P (slift r)"
  by (simp add: keeps_def)

text \<open>A property every step of a method keeps while it does not panic where the property holds.\<close>

definition upholds :: "('s \<Rightarrow> bool) \<Rightarrow> ('s, 'a, 'e) stateful \<Rightarrow> bool" where
  "upholds P m \<longleftrightarrow> (\<forall>s. P s \<longrightarrow> fst (m s) \<noteq> Panic \<and> P (snd (m s)))"

named_theorems upholds_intros

lemma upholdsI: "(\<And>s. P s \<Longrightarrow> fst (m s) \<noteq> Panic \<and> P (snd (m s))) \<Longrightarrow> upholds P m"
  by (simp add: upholds_def)

lemma upholdsD: "upholds P m \<Longrightarrow> P s \<Longrightarrow> fst (m s) \<noteq> Panic" "upholds P m \<Longrightarrow> P s \<Longrightarrow> P (snd (m s))"
  by (simp_all add: upholds_def)

lemma upholds_sbind [upholds_intros]:
  assumes "upholds P m" "\<And>a. upholds P (k a)"
  shows "upholds P (sbind m k)"
proof (rule upholdsI)
  fix s assume "P s"
  obtain r t where m: "m s = (r, t)" by fastforce
  with upholdsD [OF assms(1) \<open>P s\<close>] have "r \<noteq> Panic" "P t" by simp_all
  with upholdsD [OF assms(2)] m show "fst (sbind m k s) \<noteq> Panic \<and> P (snd (sbind m k s))"
    by (cases r) (simp_all add: sbind_def)
qed

lemma upholds_sret [simp, upholds_intros]: "upholds P (sret a)"
  by (simp add: upholds_def)

lemma upholds_slift [upholds_intros]: "r \<noteq> Panic \<Longrightarrow> upholds P (slift r)"
  by (simp add: upholds_def)

text \<open>\<open>std::io::Error\<close>: the kind and the message the code gives it.\<close>

datatype error_kind =
  InvalidData | InvalidInput | Other | UnexpectedEof | BrokenPipe | TimedOut | NotFound
| PermissionDenied | WriteZero | Uncategorized

datatype io_error = IoError error_kind string

fun kind :: "io_error \<Rightarrow> error_kind" where
  "kind (IoError k msg) = k"

type_synonym 'a io = "('a, io_error) outcome"

text \<open>
  Whether the crate was built with overflow checks. Only the places whose operands a client
  controls depend on it; elsewhere the absence of overflow is part of an invariant.
\<close>

datatype profile = Debug | Release

section \<open>Bytes and machine integers\<close>

type_synonym byte = "8 word"
type_synonym u16 = "16 word"
type_synonym u32 = "32 word"
type_synonym u64 = "64 word"

text \<open>The big-endian digits of a number in \<open>n\<close> bytes, and the number some bytes spell.\<close>

fun to_be :: "nat \<Rightarrow> nat \<Rightarrow> byte list" where
  "to_be 0 x = []"
| "to_be (Suc n) x = to_be n (x div 256) @ [word_of_nat x]"

definition from_be :: "byte list \<Rightarrow> nat" where
  "from_be bs = foldl (\<lambda>acc b. acc * 256 + unat b) 0 bs"

lemma length_to_be [simp]: "length (to_be n x) = n"
  by (induction n arbitrary: x) auto

lemma to_be_numeral:
  "to_be (numeral k) x = to_be (pred_numeral k) (x div 256) @ [word_of_nat x]"
  by (subst numeral_eq_Suc [of k]) (rule to_be.simps(2))

lemma from_be_Nil [simp]: "from_be [] = 0"
  by (simp add: from_be_def)

lemma from_be_snoc [simp]: "from_be (bs @ [b]) = from_be bs * 256 + unat b"
  by (simp add: from_be_def)

lemma unat_lt_256 [simp]: "unat (b :: byte) < 256"
  using unsigned_less [of b] by simp

lemma from_be_to_be: "from_be (to_be n x) = x mod 256 ^ n"
proof (induction n arbitrary: x)
  case (Suc n)
  have "x mod (256 * 256 ^ n) = 256 * (x div 256 mod 256 ^ n) + x mod 256"
    by (rule mod_mult2_eq)
  with Suc show ?case by (simp add: unat_of_nat)
qed simp

lemma from_be_bound: "from_be bs < 256 ^ length bs"
proof (induction bs rule: rev_induct)
  case (snoc b bs)
  have "from_be bs * 256 + unat b < (from_be bs + 1) * 256" by simp
  also have "\<dots> \<le> 256 ^ length bs * 256"
    using snoc by (intro mult_le_mono1) simp
  finally show ?case by (simp add: ac_simps)
qed simp

lemma byte_256 [simp]: "(256 :: byte) = 0"
  by (rule word_unat_eq_iff [THEN iffD2]) simp

lemma to_be_from_be: "to_be (length bs) (from_be bs) = bs"
  by (induction bs rule: rev_induct) simp_all

lemma unat_lt_bounds [simp]:
  "unat (x :: u16) < 65536" "unat (y :: u32) < 4294967296" "unat (z :: u64) < 18446744073709551616"
  using unsigned_less [of x] unsigned_less [of y] unsigned_less [of z] by simp_all

text \<open>\<open>to_be_bytes\<close> and \<open>from_be_bytes\<close> of \<open>u16\<close>, \<open>u32\<close> and \<open>u64\<close>.\<close>

definition u16_bytes :: "u16 \<Rightarrow> byte list" where "u16_bytes x = to_be 2 (unat x)"
definition u32_bytes :: "u32 \<Rightarrow> byte list" where "u32_bytes x = to_be 4 (unat x)"
definition u64_bytes :: "u64 \<Rightarrow> byte list" where "u64_bytes x = to_be 8 (unat x)"

definition bytes_u16 :: "byte list \<Rightarrow> u16" where "bytes_u16 bs = word_of_nat (from_be bs)"
definition bytes_u32 :: "byte list \<Rightarrow> u32" where "bytes_u32 bs = word_of_nat (from_be bs)"
definition bytes_u64 :: "byte list \<Rightarrow> u64" where "bytes_u64 bs = word_of_nat (from_be bs)"

lemma length_word_bytes [simp]:
  "length (u16_bytes x) = 2" "length (u32_bytes y) = 4" "length (u64_bytes z) = 8"
  by (simp_all add: u16_bytes_def u32_bytes_def u64_bytes_def)

lemma bytes_of_bytes [simp]:
  "bytes_u16 (u16_bytes x) = x" "bytes_u32 (u32_bytes y) = y" "bytes_u64 (u64_bytes z) = z"
  by (simp_all add: bytes_u16_def u16_bytes_def bytes_u32_def u32_bytes_def bytes_u64_def
      u64_bytes_def from_be_to_be)

lemma u32_bytes_of_bytes: "length bs = 4 \<Longrightarrow> u32_bytes (bytes_u32 bs) = bs"
  using to_be_from_be [of bs] from_be_bound [of bs]
  by (simp add: u32_bytes_def bytes_u32_def unat_of_nat)

text \<open>The bytes of a string literal, \<open>b"..."\<close>.\<close>

definition bytes_of :: "string \<Rightarrow> byte list" where
  "bytes_of s = map of_char s"

section \<open>Slices\<close>

text \<open>
  \<open>&xs[b..e]\<close>, \<open>&xs[b..]\<close> and \<open>xs[i]\<close>, which panic out of range. Where the code has just
  checked the bounds, the model writes \<open>drop\<close>, \<open>take\<close> and \<open>!\<close> directly.
\<close>

definition slice :: "nat \<Rightarrow> nat \<Rightarrow> 'a list \<Rightarrow> ('a list, 'e) outcome" where
  "slice b e xs = (if b \<le> e \<and> e \<le> length xs then Ok (take (e - b) (drop b xs)) else Panic)"

definition split_off :: "nat \<Rightarrow> 'a list \<Rightarrow> ('a list, 'e) outcome" where
  "split_off i xs = (if i \<le> length xs then Ok (drop i xs) else Panic)"

definition index :: "'a list \<Rightarrow> nat \<Rightarrow> ('a, 'e) outcome" where
  "index xs i = (if i < length xs then Ok (xs ! i) else Panic)"

text \<open>\<open>xs.try_into().unwrap()\<close> into an array of \<open>n\<close> elements.\<close>

definition array_of :: "nat \<Rightarrow> 'a list \<Rightarrow> ('a list, 'e) outcome" where
  "array_of n xs = (if length xs = n then Ok xs else Panic)"

lemma array_of_ok [simp]: "length xs = n \<Longrightarrow> array_of n xs = Ok xs"
  by (simp add: array_of_def)

lemma index_ok [simp]: "i < length xs \<Longrightarrow> index xs i = Ok (xs ! i)"
  by (simp add: index_def)

lemma slice_ok [simp]: "b \<le> e \<Longrightarrow> e \<le> length xs \<Longrightarrow> slice b e xs = Ok (take (e - b) (drop b xs))"
  by (simp add: slice_def)

lemma slice_eq_Ok: "slice b e xs = Ok ys \<longleftrightarrow> b \<le> e \<and> e \<le> length xs \<and> ys = take (e - b) (drop b xs)"
  by (auto simp: slice_def)

lemma split_off_ok [simp]: "i \<le> length xs \<Longrightarrow> split_off i xs = Ok (drop i xs)"
  by (simp add: split_off_def)

text \<open>\<open>chunks\<close> (the last one may be short) and \<open>chunks_exact\<close> (the remainder is left out).\<close>

function chunks :: "nat \<Rightarrow> 'a list \<Rightarrow> 'a list list" where
  "chunks n xs = (if n = 0 \<or> xs = [] then [] else take n xs # chunks n (drop n xs))"
  by pat_completeness auto
termination
  by (relation "measure (\<lambda>(n, xs). length xs)") auto

declare chunks.simps [simp del]

function chunks_exact :: "nat \<Rightarrow> 'a list \<Rightarrow> 'a list list" where
  "chunks_exact n xs =
     (if n = 0 \<or> length xs < n then [] else take n xs # chunks_exact n (drop n xs))"
  by pat_completeness auto
termination
  by (relation "measure (\<lambda>(n, xs). length xs)") auto

declare chunks_exact.simps [simp del]

lemma concat_chunks: "0 < n \<Longrightarrow> concat (chunks n xs) = xs"
proof (induction n xs rule: chunks.induct)
  case (1 n xs)
  then show ?case
    by (cases "xs = []") (simp_all add: chunks.simps [of n xs] chunks.simps [of n "[]"])
qed

lemma chunks_exact_Nil [simp]: "chunks_exact n [] = []"
  by (auto simp: chunks_exact.simps)

lemma chunks_exact_append:
  "length xs = n \<Longrightarrow> 0 < n \<Longrightarrow> chunks_exact n (xs @ ys) = xs # chunks_exact n ys"
  by (simp add: chunks_exact.simps [of n "xs @ ys"])

text \<open>Overwriting a stretch of a vector, \<open>xs[i..i+ys.len()].copy_from_slice(ys)\<close>.\<close>

definition overwrite :: "nat \<Rightarrow> 'a list \<Rightarrow> 'a list \<Rightarrow> 'a list" where
  "overwrite i ys xs = take i xs @ ys @ drop (i + length ys) xs"

lemma length_overwrite [simp]: "i + length ys \<le> length xs \<Longrightarrow> length (overwrite i ys xs) = length xs"
  by (simp add: overwrite_def)

lemma take_overwrite:
  "i + length ys \<le> length xs \<Longrightarrow> take (i + length ys) (overwrite i ys xs) = take i xs @ ys"
  by (simp add: overwrite_def)

section \<open>\<open>i32\<close> windows\<close>

text \<open>
  The flow-control windows are \<open>i32\<close>. They are modelled as \<open>int\<close> with the range written out:
  the checked operations return \<open>None\<close> outside it.
\<close>

definition i32_max :: int where "i32_max = 2147483647"
definition i32_min :: int where "i32_min = -2147483648"

definition i32_ok :: "int \<Rightarrow> bool" where
  "i32_ok x \<longleftrightarrow> i32_min \<le> x \<and> x \<le> i32_max"

definition checked_i32 :: "int \<Rightarrow> int option" where
  "checked_i32 x = (if i32_ok x then Some x else None)"

definition i32_checked_add :: "int \<Rightarrow> int \<Rightarrow> int option" where
  "i32_checked_add a b = checked_i32 (a + b)"

definition i32_checked_sub :: "int \<Rightarrow> int \<Rightarrow> int option" where
  "i32_checked_sub a b = checked_i32 (a - b)"

lemma checked_i32_eq_Some [simp]: "checked_i32 x = Some y \<longleftrightarrow> i32_ok x \<and> y = x"
  by (auto simp: checked_i32_def)

lemma i32_checked_add_eq_Some [simp]: "i32_checked_add a b = Some c \<longleftrightarrow> i32_ok (a + b) \<and> c = a + b"
  by (simp add: i32_checked_add_def)

lemma i32_checked_sub_eq_Some [simp]: "i32_checked_sub a b = Some c \<longleftrightarrow> i32_ok (a - b) \<and> c = a - b"
  by (simp add: i32_checked_sub_def)

lemma i32_checked_add_None: "i32_checked_add a b = None \<longleftrightarrow> \<not> i32_ok (a + b)"
  by (simp add: i32_checked_add_def checked_i32_def)

text \<open>\<open>try_into::<i32>()\<close> from a length and \<open>try_into::<u32>()\<close> from an \<open>i32\<close>.\<close>

definition usize_to_i32 :: "nat \<Rightarrow> int option" where
  "usize_to_i32 n = checked_i32 (int n)"

definition u32_to_i32 :: "u32 \<Rightarrow> int option" where
  "u32_to_i32 x = checked_i32 (uint x)"

definition i32_to_u32 :: "int \<Rightarrow> u32 option" where
  "i32_to_u32 x = (if 0 \<le> x then Some (word_of_int x) else None)"

lemma usize_to_i32_eq_Some [simp]: "usize_to_i32 n = Some k \<longleftrightarrow> i32_ok (int n) \<and> k = int n"
  by (simp add: usize_to_i32_def)

lemma u32_to_i32_eq_Some [simp]: "u32_to_i32 x = Some k \<longleftrightarrow> uint x \<le> i32_max \<and> k = uint x"
  by (auto simp: u32_to_i32_def i32_ok_def i32_min_def intro: order_trans [of _ 0])

section \<open>Polls\<close>

text \<open>\<open>std::task::Poll\<close>.\<close>

datatype 'a poll = Pending | Ready 'a

end
