(* ===== verification/H2_Settings.thy ===== *)
theory H2_Settings
  imports Prelude
begin

text \<open>
  \<open>src/src/http2/error.rs\<close> and \<open>src/src/http2/settings.rs\<close>: the HTTP/2 error codes, the settings of
  an endpoint, the record a SETTINGS frame is decoded into (\<open>SettingsFrame\<close> of \<open>frame.rs\<close>) and how
  such a frame is applied.
\<close>

section \<open>Errors\<close>

datatype error_code =
  NoError | ProtocolError | InternalError | FlowControlError | SettingsTimeout | StreamClosed
| FrameSizeError | RefusedStream | Cancel | CompresssionError | ConnectError | EnhanceYourCalm
| InadequateSecurity | Http11Required

datatype h2_error = StreamErr error_code | ConnErr error_code

type_synonym 'a h2 = "('a, h2_error) outcome"

fun into_inner :: "h2_error \<Rightarrow> error_code" where
  "into_inner (StreamErr code) = code"
| "into_inner (ConnErr code) = code"

text \<open>\<open>code as u32\<close>, and \<open>ErrorCode::from_u32\<close> that \<open>FromPrimitive\<close> derives from it.\<close>

fun error_code_num :: "error_code \<Rightarrow> nat" where
  "error_code_num NoError = 0"
| "error_code_num ProtocolError = 1"
| "error_code_num InternalError = 2"
| "error_code_num FlowControlError = 3"
| "error_code_num SettingsTimeout = 4"
| "error_code_num StreamClosed = 5"
| "error_code_num FrameSizeError = 6"
| "error_code_num RefusedStream = 7"
| "error_code_num Cancel = 8"
| "error_code_num CompresssionError = 9"
| "error_code_num ConnectError = 10"
| "error_code_num EnhanceYourCalm = 11"
| "error_code_num InadequateSecurity = 12"
| "error_code_num Http11Required = 13"

definition error_codes :: "error_code list" where
  "error_codes = [NoError, ProtocolError, InternalError, FlowControlError, SettingsTimeout,
     StreamClosed, FrameSizeError, RefusedStream, Cancel, CompresssionError, ConnectError,
     EnhanceYourCalm, InadequateSecurity, Http11Required]"

definition error_code_from_u32 :: "u32 \<Rightarrow> error_code option" where
  "error_code_from_u32 x = List.find (\<lambda>c. error_code_num c = unat x) error_codes"

lemma error_codes_nth: "error_codes ! error_code_num c = c"
  by (cases c) (simp_all add: error_codes_def)

lemma error_code_num_inject [simp]: "error_code_num c = error_code_num d \<longleftrightarrow> c = d"
  by (metis error_codes_nth)

text \<open>The codes are ordered by their numbers, as \<open>#[repr(u32)]\<close> gives them.\<close>

instantiation error_code :: linorder
begin

definition less_eq_error_code :: "error_code \<Rightarrow> error_code \<Rightarrow> bool" where
  "c \<le> d \<longleftrightarrow> error_code_num c \<le> error_code_num d"

definition less_error_code :: "error_code \<Rightarrow> error_code \<Rightarrow> bool" where
  "c < d \<longleftrightarrow> error_code_num c < error_code_num d"

instance
proof
  fix c d e :: error_code
  show "c < d \<longleftrightarrow> c \<le> d \<and> \<not> d \<le> c" "c \<le> c" "c \<le> d \<or> d \<le> c"
    unfolding less_eq_error_code_def less_error_code_def by linarith+
  show "c \<le> d \<Longrightarrow> d \<le> e \<Longrightarrow> c \<le> e"
    unfolding less_eq_error_code_def by linarith
  show "c \<le> d \<Longrightarrow> d \<le> c \<Longrightarrow> c = d"
    unfolding less_eq_error_code_def by (metis antisym error_code_num_inject)
qed

end

lemma error_code_num_le: "error_code_num c \<le> 13"
  by (cases c) simp_all

lemma error_code_roundtrip [simp]: "error_code_from_u32 (word_of_nat (error_code_num c)) = Some c"
  by (cases c) (simp_all add: error_code_from_u32_def error_codes_def)

lemma error_code_unknown: "13 < unat x \<Longrightarrow> error_code_from_u32 x = None"
  by (simp add: error_code_from_u32_def error_codes_def)

section \<open>Settings\<close>

definition MAX_FRAME_SIZE_MIN :: u32 where "MAX_FRAME_SIZE_MIN = 16384"
definition MAX_FRAME_SIZE_MAX :: u32 where "MAX_FRAME_SIZE_MAX = 16777215"
definition WINDOW_SIZE_MAX :: u32 where "WINDOW_SIZE_MAX = 2147483647"

record settings =
  header_table_size :: u32
  enable_push :: bool
  max_concurrent_streams :: "u32 option"
  initial_window_size :: u32
  max_frame_size :: u32
  max_header_list_size :: "u32 option"

definition settings_default :: settings where
  "settings_default = \<lparr>header_table_size = 4096, enable_push = True, max_concurrent_streams = None,
     initial_window_size = 65535, max_frame_size = 16384, max_header_list_size = None\<rparr>"

record settings_frame =
  sf_ack :: bool
  sf_header_table_size :: "u32 option"
  sf_enable_push :: "bool option"
  sf_max_concurrent_streams :: "u32 option"
  sf_initial_window_size :: "u32 option"
  sf_max_frame_size :: "u32 option"
  sf_max_header_list_size :: "u32 option"

definition settings_frame_default :: settings_frame where
  "settings_frame_default = \<lparr>sf_ack = False, sf_header_table_size = None, sf_enable_push = None,
     sf_max_concurrent_streams = None, sf_initial_window_size = None, sf_max_frame_size = None,
     sf_max_header_list_size = None\<rparr>"

text \<open>The frame that carries all settings of an endpoint, \<open>From<Settings>\<close>.\<close>

definition settings_to_frame :: "settings \<Rightarrow> settings_frame" where
  "settings_to_frame s = \<lparr>sf_ack = False, sf_header_table_size = Some (header_table_size s),
     sf_enable_push = Some (enable_push s), sf_max_concurrent_streams = max_concurrent_streams s,
     sf_initial_window_size = Some (initial_window_size s),
     sf_max_frame_size = Some (max_frame_size s), sf_max_header_list_size = max_header_list_size s\<rparr>"

text \<open>The setters.\<close>

definition set_header_table_size :: "u32 \<Rightarrow> (settings, unit, h2_error) stateful" where
  "set_header_table_size v s = (Ok (), s\<lparr>header_table_size := v\<rparr>)"

definition set_enable_push :: "bool \<Rightarrow> (settings, unit, h2_error) stateful" where
  "set_enable_push v s = (Ok (), s\<lparr>enable_push := v\<rparr>)"

definition set_max_concurrent_streams :: "u32 \<Rightarrow> (settings, unit, h2_error) stateful" where
  "set_max_concurrent_streams v s = (Ok (), s\<lparr>max_concurrent_streams := Some v\<rparr>)"

definition set_initial_window_size :: "u32 \<Rightarrow> (settings, unit, h2_error) stateful" where
  "set_initial_window_size v s =
     (if v > WINDOW_SIZE_MAX then (Err (ConnErr FlowControlError), s)
      else (Ok (), s\<lparr>initial_window_size := v\<rparr>))"

definition set_max_frame_size :: "u32 \<Rightarrow> (settings, unit, h2_error) stateful" where
  "set_max_frame_size v s =
     (if MAX_FRAME_SIZE_MIN > v \<or> v > MAX_FRAME_SIZE_MAX then (Err (ConnErr ProtocolError), s)
      else (Ok (), s\<lparr>max_frame_size := v\<rparr>))"

definition set_max_header_list_size :: "u32 \<Rightarrow> (settings, unit, h2_error) stateful" where
  "set_max_header_list_size v s = (Ok (), s\<lparr>max_header_list_size := Some v\<rparr>)"

text \<open>\<open>if let Some(value) = field { self.set(value)?; }\<close>.\<close>

definition when_some :: "('v \<Rightarrow> (settings, unit, h2_error) stateful) \<Rightarrow> 'v option
    \<Rightarrow> (settings, unit, h2_error) stateful" where
  "when_some set_to v = (case v of None \<Rightarrow> sret () | Some x \<Rightarrow> set_to x)"

definition window_as_i32 :: "(settings, int, h2_error) stateful" where
  "window_as_i32 s = (ok_or (ConnErr InternalError) (u32_to_i32 (initial_window_size s)), s)"

text \<open>
  \<open>apply_settings_frame\<close> returns the difference of the initial window size. A setting that is
  refused ends it; the settings before it in the code's order stay applied.
\<close>

definition apply_settings_frame :: "settings_frame \<Rightarrow> (settings, int, h2_error) stateful" where
  "apply_settings_frame frame =
     sbind (when_some set_header_table_size (sf_header_table_size frame)) (\<lambda>_.
     sbind (when_some set_enable_push (sf_enable_push frame)) (\<lambda>_.
     sbind (when_some set_max_concurrent_streams (sf_max_concurrent_streams frame)) (\<lambda>_.
     sbind (when_some set_max_frame_size (sf_max_frame_size frame)) (\<lambda>_.
     sbind (when_some set_max_header_list_size (sf_max_header_list_size frame)) (\<lambda>_.
     sbind window_as_i32 (\<lambda>old.
     sbind (when_some set_initial_window_size (sf_initial_window_size frame)) (\<lambda>_.
     sbind window_as_i32 (\<lambda>new.
     slift (ok_or (ConnErr ProtocolError) (i32_checked_sub new old))))))))))"

lemmas setter_defs =
  set_header_table_size_def set_enable_push_def set_max_concurrent_streams_def
  set_initial_window_size_def set_max_frame_size_def set_max_header_list_size_def

section \<open>The bounds every endpoint's settings keep\<close>

definition settings_inv :: "settings \<Rightarrow> bool" where
  "settings_inv s \<longleftrightarrow> initial_window_size s \<le> WINDOW_SIZE_MAX \<and>
     MAX_FRAME_SIZE_MIN \<le> max_frame_size s \<and> max_frame_size s \<le> MAX_FRAME_SIZE_MAX"

lemma settings_default_inv: "settings_inv settings_default"
  by (simp add: settings_inv_def settings_default_def MAX_FRAME_SIZE_MIN_def MAX_FRAME_SIZE_MAX_def
      WINDOW_SIZE_MAX_def)

lemma setters_keep_inv:
  "keeps settings_inv (set_header_table_size v)" "keeps settings_inv (set_enable_push b)"
  "keeps settings_inv (set_max_concurrent_streams v)" "keeps settings_inv (set_initial_window_size v)"
  "keeps settings_inv (set_max_frame_size v)" "keeps settings_inv (set_max_header_list_size v)"
  by (auto simp: keeps_def settings_inv_def setter_defs)

lemma when_some_keeps: "(\<And>x. keeps P (set_to x)) \<Longrightarrow> keeps P (when_some set_to v)"
  by (cases v) (simp_all add: when_some_def)

lemma window_as_i32_keeps [simp]: "keeps P window_as_i32"
  by (simp add: keeps_def window_as_i32_def)

lemma apply_keeps_inv: "keeps settings_inv (apply_settings_frame frame)"
  unfolding apply_settings_frame_def
  by (intro keeps_sbind when_some_keeps setters_keep_inv) simp_all

lemma uint_window: "(x :: u32) \<le> WINDOW_SIZE_MAX \<longleftrightarrow> uint x \<le> i32_max"
  by (simp add: word_le_def WINDOW_SIZE_MAX_def i32_max_def)

lemma window_as_i32_ok: "settings_inv s \<Longrightarrow> window_as_i32 s = (Ok (uint (initial_window_size s)), s)"
  using u32_to_i32_eq_Some [of "initial_window_size s" "uint (initial_window_size s)"]
  by (simp add: window_as_i32_def settings_inv_def uint_window)

lemma window_difference_fits:
  "settings_inv s \<Longrightarrow> settings_inv s' \<Longrightarrow>
   i32_ok (uint (initial_window_size s) - uint (initial_window_size s'))"
  by (simp add: settings_inv_def uint_window i32_ok_def i32_min_def i32_max_def)
    (smt (verit) unsigned_greater_eq)

section \<open>What applying a frame does\<close>

text \<open>
  The specification: a frame whose values are in range overwrites the settings it names and
  leaves the others.
\<close>

definition frame_in_range :: "settings_frame \<Rightarrow> bool" where
  "frame_in_range f \<longleftrightarrow>
     (\<forall>v\<in>set_option (sf_max_frame_size f). MAX_FRAME_SIZE_MIN \<le> v \<and> v \<le> MAX_FRAME_SIZE_MAX) \<and>
     (\<forall>v\<in>set_option (sf_initial_window_size f). v \<le> WINDOW_SIZE_MAX)"

definition given :: "'a option \<Rightarrow> 'a \<Rightarrow> 'a" where
  "given new old = (case new of None \<Rightarrow> old | Some v \<Rightarrow> v)"

definition merged :: "settings_frame \<Rightarrow> settings \<Rightarrow> settings" where
  "merged f s = \<lparr>header_table_size = given (sf_header_table_size f) (header_table_size s),
     enable_push = given (sf_enable_push f) (enable_push s),
     max_concurrent_streams = given (map_option Some (sf_max_concurrent_streams f)) (max_concurrent_streams s),
     initial_window_size = given (sf_initial_window_size f) (initial_window_size s),
     max_frame_size = given (sf_max_frame_size f) (max_frame_size s),
     max_header_list_size = given (map_option Some (sf_max_header_list_size f)) (max_header_list_size s)\<rparr>"

lemma merged_inv: "settings_inv s \<Longrightarrow> frame_in_range f \<Longrightarrow> settings_inv (merged f s)"
  by (auto simp: settings_inv_def frame_in_range_def merged_def given_def split: option.splits)

lemma when_some_total:
  "when_some set_header_table_size x s = (Ok (), s\<lparr>header_table_size := given x (header_table_size s)\<rparr>)"
  "when_some set_enable_push b s = (Ok (), s\<lparr>enable_push := given b (enable_push s)\<rparr>)"
  "when_some set_max_concurrent_streams x s =
     (Ok (), s\<lparr>max_concurrent_streams := given (map_option Some x) (max_concurrent_streams s)\<rparr>)"
  "when_some set_max_header_list_size x s =
     (Ok (), s\<lparr>max_header_list_size := given (map_option Some x) (max_header_list_size s)\<rparr>)"
  by (cases x; cases b; simp add: when_some_def given_def setter_defs)+

lemma when_some_frame_size: "when_some set_max_frame_size x s =
    (if \<forall>v\<in>set_option x. MAX_FRAME_SIZE_MIN \<le> v \<and> v \<le> MAX_FRAME_SIZE_MAX
     then (Ok (), s\<lparr>max_frame_size := given x (max_frame_size s)\<rparr>)
     else (Err (ConnErr ProtocolError), s))"
  by (cases x) (auto simp: when_some_def given_def setter_defs not_le)

lemma when_some_window: "when_some set_initial_window_size x s =
    (if \<forall>v\<in>set_option x. v \<le> WINDOW_SIZE_MAX
     then (Ok (), s\<lparr>initial_window_size := given x (initial_window_size s)\<rparr>)
     else (Err (ConnErr FlowControlError), s))"
  by (cases x) (auto simp: when_some_def given_def setter_defs not_le)

text \<open>Everything before the windows, in one step.\<close>

lemma apply_prefix:
  assumes "\<forall>v\<in>set_option (sf_max_frame_size f). MAX_FRAME_SIZE_MIN \<le> v \<and> v \<le> MAX_FRAME_SIZE_MAX"
  shows "apply_settings_frame f s =
      sbind window_as_i32 (\<lambda>old.
      sbind (when_some set_initial_window_size (sf_initial_window_size f)) (\<lambda>_.
      sbind window_as_i32 (\<lambda>new.
      slift (ok_or (ConnErr ProtocolError) (i32_checked_sub new old)))))
      (merged f s\<lparr>initial_window_size := initial_window_size s\<rparr>)"
  using assms unfolding apply_settings_frame_def
  by (cases s) (simp add: sbind_def [where m = "when_some set_to x" for set_to x] when_some_total
      when_some_frame_size merged_def)

lemma apply_in_range:
  assumes "settings_inv s" "frame_in_range f"
  shows "apply_settings_frame f s =
    (Ok (uint (initial_window_size (merged f s)) - uint (initial_window_size s)), merged f s)"
proof -
  let ?s1 = "merged f s\<lparr>initial_window_size := initial_window_size s\<rparr>"
  have inv: "settings_inv ?s1" "settings_inv (merged f s)"
    using merged_inv [OF assms] assms(1) by (simp_all add: settings_inv_def)
  have "apply_settings_frame f s =
      sbind window_as_i32 (\<lambda>old.
      sbind (when_some set_initial_window_size (sf_initial_window_size f)) (\<lambda>_.
      sbind window_as_i32 (\<lambda>new.
      slift (ok_or (ConnErr ProtocolError) (i32_checked_sub new old))))) ?s1"
    using assms(2) by (intro apply_prefix) (simp add: frame_in_range_def)
  also have "\<dots> = (ok_or (ConnErr ProtocolError) (i32_checked_sub
      (uint (initial_window_size (merged f s))) (uint (initial_window_size s))), merged f s)"
    using assms(2) window_as_i32_ok [OF inv(1)] window_as_i32_ok [OF inv(2)]
    by (simp add: sbind_def when_some_window frame_in_range_def merged_def)
  finally show ?thesis
    using window_difference_fits [OF inv(2) assms(1)] by (simp add: i32_checked_sub_def checked_i32_def)
qed

lemma apply_out_of_range:
  assumes "settings_inv s" "\<not> frame_in_range f"
  shows "fst (apply_settings_frame f s) =
    Err (ConnErr (if \<forall>v\<in>set_option (sf_max_frame_size f).
      MAX_FRAME_SIZE_MIN \<le> v \<and> v \<le> MAX_FRAME_SIZE_MAX then FlowControlError else ProtocolError))"
proof (cases "\<forall>v\<in>set_option (sf_max_frame_size f). MAX_FRAME_SIZE_MIN \<le> v \<and> v \<le> MAX_FRAME_SIZE_MAX")
  case False
  then have "when_some set_max_frame_size (sf_max_frame_size f) s' = (Err (ConnErr ProtocolError), s')"
    for s' unfolding when_some_frame_size by (rule if_not_P)
  then have "fst (apply_settings_frame f s) = Err (ConnErr ProtocolError)"
    by (simp add: apply_settings_frame_def when_some_total)
  then show ?thesis by (simp only: if_not_P [OF False])
next
  case True
  let ?s1 = "merged f s\<lparr>initial_window_size := initial_window_size s\<rparr>"
  have "settings_inv ?s1"
    using assms(1) True by (auto simp: settings_inv_def merged_def given_def split: option.splits)
  note w = window_as_i32_ok [OF this]
  have "apply_settings_frame f s =
      sbind window_as_i32 (\<lambda>old.
      sbind (when_some set_initial_window_size (sf_initial_window_size f)) (\<lambda>_.
      sbind window_as_i32 (\<lambda>new.
      slift (ok_or (ConnErr ProtocolError) (i32_checked_sub new old))))) ?s1"
    using True by (rule apply_prefix)
  moreover have "\<not> (\<forall>v\<in>set_option (sf_initial_window_size f). v \<le> WINDOW_SIZE_MAX)"
    using assms(2) True unfolding frame_in_range_def by blast
  then have "when_some set_initial_window_size (sf_initial_window_size f) ?s1 =
      (Err (ConnErr FlowControlError), ?s1)"
    unfolding when_some_window by (rule if_not_P)
  ultimately have "apply_settings_frame f s = (Err (ConnErr FlowControlError), ?s1)"
    using w by simp
  then show ?thesis by (simp only: if_P [OF True] fst_conv)
qed

section \<open>Properties\<close>

text \<open>
  C33. Applying a SETTINGS frame to settings within their bounds overwrites exactly the settings
  the frame names and returns the exact change of the initial window, without overflow, when
  every value is in range. Otherwise it is a connection error, FLOW_CONTROL_ERROR for the window
  and PROTOCOL_ERROR for the frame size. Whatever the frame, the bounds hold afterwards.
\<close>

theorem apply_settings_frame_spec:
  assumes "settings_inv s"
  shows "(if frame_in_range f
      then apply_settings_frame f s =
        (Ok (uint (initial_window_size (merged f s)) - uint (initial_window_size s)), merged f s)
      else fst (apply_settings_frame f s) = Err (ConnErr
        (if (case sf_max_frame_size f of None \<Rightarrow> True
             | Some v \<Rightarrow> MAX_FRAME_SIZE_MIN \<le> v \<and> v \<le> MAX_FRAME_SIZE_MAX)
         then FlowControlError else ProtocolError))) \<and>
    settings_inv (snd (apply_settings_frame f s))"
  using apply_in_range [OF assms] apply_out_of_range [OF assms] keepsD [OF apply_keeps_inv assms]
    merged_inv [OF assms]
  by (cases "frame_in_range f"; cases "sf_max_frame_size f") simp_all

theorem apply_settings_frame_spec_witness:
  "apply_settings_frame (settings_frame_default\<lparr>sf_initial_window_size := Some 100\<rparr>) settings_default
    = (Ok (-65435), settings_default\<lparr>initial_window_size := 100\<rparr>)"
  using apply_settings_frame_spec [OF settings_default_inv,
      of "settings_frame_default\<lparr>sf_initial_window_size := Some 100\<rparr>"]
  by (simp add: frame_in_range_def settings_frame_default_def settings_default_def merged_def
      given_def WINDOW_SIZE_MAX_def)

end
