(* ===== verification/H2_Frame.thy ===== *)
theory H2_Frame
  imports H2_Settings
begin

unbundle bit_operations_syntax

text \<open>
  \<open>src/src/http2/frame.rs\<close>: the frame header and its checks, the removal of the padding, and for
  each kind of frame the record it is decoded into, its decoder (\<open>TryFrom<Frame>\<close>) and its encoder
  (\<open>From<...> for Frame\<close>). The decoders index the payload without a check of their own; where a
  payload is too short they panic, and the header checks are what should rule that out.
\<close>

section \<open>Frame types and flags\<close>

datatype frame_type =
  FT_Data | FT_Headers | FT_Priority | FT_RstStream | FT_Settings | FT_PushPromise | FT_Ping
| FT_GoAway | FT_WindowUpdate | FT_Continuation

text \<open>\<open>r#type as u8\<close> and \<open>FrameType::from_u8\<close>.\<close>

fun frame_type_num :: "frame_type \<Rightarrow> byte" where
  "frame_type_num FT_Data = 0"
| "frame_type_num FT_Headers = 1"
| "frame_type_num FT_Priority = 2"
| "frame_type_num FT_RstStream = 3"
| "frame_type_num FT_Settings = 4"
| "frame_type_num FT_PushPromise = 5"
| "frame_type_num FT_Ping = 6"
| "frame_type_num FT_GoAway = 7"
| "frame_type_num FT_WindowUpdate = 8"
| "frame_type_num FT_Continuation = 9"

definition frame_types :: "frame_type list" where
  "frame_types = [FT_Data, FT_Headers, FT_Priority, FT_RstStream, FT_Settings, FT_PushPromise,
     FT_Ping, FT_GoAway, FT_WindowUpdate, FT_Continuation]"

definition frame_type_from_u8 :: "byte \<Rightarrow> frame_type option" where
  "frame_type_from_u8 b = List.find (\<lambda>t. frame_type_num t = b) frame_types"

lemma frame_type_roundtrip [simp]: "frame_type_from_u8 (frame_type_num t) = Some t"
  by (cases t) (simp_all add: frame_type_from_u8_def frame_types_def)

definition END_STREAM :: byte where "END_STREAM = 1"
definition ACK :: byte where "ACK = 1"
definition END_HEADERS :: byte where "END_HEADERS = 4"
definition PADDED :: byte where "PADDED = 8"
definition PRIORITY :: byte where "PRIORITY = 32"

lemmas flag_defs = END_STREAM_def ACK_def END_HEADERS_def PADDED_def PRIORITY_def

text \<open>\<open>bitflags\<close>: \<open>contains\<close>, and \<open>from_bits_truncate\<close>, which drops the unknown bits.\<close>

definition contains :: "byte \<Rightarrow> byte \<Rightarrow> bool" where
  "contains flags flag \<longleftrightarrow> flags AND flag = flag"

definition from_bits_truncate :: "byte \<Rightarrow> byte" where
  "from_bits_truncate b = b AND (END_STREAM OR ACK OR END_HEADERS OR PADDED OR PRIORITY)"

definition flag_if :: "bool \<Rightarrow> byte \<Rightarrow> byte \<Rightarrow> byte" where
  "flag_if c flag flags = (if c then flags OR flag else flags)"

section \<open>Headers\<close>

record frame_header_raw =
  raw_length :: u32
  raw_type :: byte
  raw_flags :: byte
  raw_stream :: u32

record frame_header =
  ftype :: frame_type
  fflags :: byte
  fstream :: u32

record frame =
  header :: frame_header
  payload :: "byte list"

definition STREAM_ID_LIMIT :: u32 where "STREAM_ID_LIMIT = 2147483648"

text \<open>A 31-bit field whose first bit is reserved: the bit is ignored.\<close>

definition strip_reserved :: "u32 \<Rightarrow> u32" where
  "strip_reserved x = (if x \<ge> STREAM_ID_LIMIT then x - STREAM_ID_LIMIT else x)"

definition raw_from_slice :: "byte list \<Rightarrow> frame_header_raw h2" where
  "raw_from_slice buf =
     (if 9 > length buf then Err (ConnErr ProtocolError)
      else Ok \<lparr>raw_length = bytes_u32 [0, buf ! 0, buf ! 1, buf ! 2], raw_type = buf ! 3,
              raw_flags = buf ! 4,
              raw_stream = strip_reserved (bytes_u32 (take 4 (drop 5 buf)))\<rparr>)"

text \<open>\<open>TryFrom<FrameHeaderRaw>\<close>: every check that needs no look at the payload.\<close>

definition require :: "bool \<Rightarrow> h2_error \<Rightarrow> 'a h2 \<Rightarrow> 'a h2" where
  "require c e k = (if c then k else Err e)"

definition header_from_raw :: "frame_header_raw \<Rightarrow> frame_header h2" where
  "header_from_raw raw =
     obind (ok_or (ConnErr InternalError) (frame_type_from_u8 (raw_type raw))) (\<lambda>type.
     let flags = from_bits_truncate (raw_flags raw);
         stream = raw_stream raw;
         done = Ok \<lparr>ftype = type, fflags = flags, fstream = stream\<rparr>
     in case type of
       FT_Data \<Rightarrow>
         require (stream \<noteq> 0) (ConnErr ProtocolError)
         (require (contains flags PADDED \<longrightarrow> \<not> 1 > raw_length raw) (ConnErr ProtocolError) done)
     | FT_Headers \<Rightarrow>
         require (stream \<noteq> 0) (ConnErr ProtocolError)
         (require (contains flags PADDED \<longrightarrow> \<not> 1 > raw_length raw) (ConnErr ProtocolError)
         (let min = (if contains flags PADDED then 1 else 0) +
            (if contains flags PRIORITY then 5 else 0)
          in require (\<not> min > raw_length raw) (ConnErr ProtocolError) done))
     | FT_Priority \<Rightarrow>
         require (stream \<noteq> 0) (ConnErr ProtocolError)
         (require (raw_length raw = 5) (StreamErr FrameSizeError) done)
     | FT_RstStream \<Rightarrow>
         require (stream \<noteq> 0) (ConnErr ProtocolError)
         (require (raw_length raw = 4) (ConnErr FrameSizeError) done)
     | FT_Settings \<Rightarrow>
         require (stream = 0) (ConnErr ProtocolError)
         (require (raw_length raw mod 6 = 0) (ConnErr FrameSizeError) done)
     | FT_PushPromise \<Rightarrow> Err (ConnErr ProtocolError)
     | FT_Ping \<Rightarrow>
         require (stream = 0) (ConnErr ProtocolError)
         (require (raw_length raw = 8) (ConnErr FrameSizeError) done)
     | FT_GoAway \<Rightarrow>
         require (stream = 0) (ConnErr ProtocolError)
         (require (\<not> 8 > raw_length raw) (ConnErr FrameSizeError) done)
     | FT_WindowUpdate \<Rightarrow>
         require (raw_length raw = 4) (ConnErr FrameSizeError) done
     | FT_Continuation \<Rightarrow>
         require (stream = 0) (ConnErr ProtocolError) done)"

text \<open>\<open>Frame::from_header_and_payload\<close>: the padding of DATA and HEADERS is cut off.\<close>

definition frame_from_header_and_payload :: "frame_header_raw \<Rightarrow> byte list \<Rightarrow> frame h2" where
  "frame_from_header_and_payload raw pl =
     obind (header_from_raw raw) (\<lambda>hd.
     let finish = (\<lambda>begin end.
       if begin > end then Err (ConnErr ProtocolError)
       else obind (slice begin end pl) (\<lambda>p. Ok \<lparr>header = hd, payload = p\<rparr>))
     in case ftype hd of
       FT_PushPromise \<Rightarrow> Err (ConnErr ProtocolError)
     | _ \<Rightarrow>
         if (ftype hd = FT_Data \<or> ftype hd = FT_Headers) \<and> contains (fflags hd) PADDED
         then (case pl of
             [] \<Rightarrow> Err (ConnErr InternalError)
           | b # _ \<Rightarrow>
               let padding = unat b in
               if padding \<ge> length pl then Err (ConnErr ProtocolError)
               else finish 1 (length pl - padding))
         else finish 0 (length pl))"

text \<open>The guard of every decoder: a frame of another type is an internal error.\<close>

definition expect :: "frame_type \<Rightarrow> frame \<Rightarrow> 'a h2 \<Rightarrow> 'a h2" where
  "expect t f k = (if ftype (header f) \<noteq> t then Err (ConnErr InternalError) else k)"

definition mk_frame :: "frame_type \<Rightarrow> byte \<Rightarrow> u32 \<Rightarrow> byte list \<Rightarrow> frame" where
  "mk_frame t flags stream p =
     \<lparr>header = \<lparr>ftype = t, fflags = flags, fstream = stream\<rparr>, payload = p\<rparr>"

section \<open>Priorities\<close>

record priority =
  stream_dependency :: u32
  exclusive :: bool
  weight :: byte

definition priority_from_slice :: "byte list \<Rightarrow> priority h2" where
  "priority_from_slice s =
     obind (slice 0 4 s) (\<lambda>d.
     let dep = bytes_u32 d;
         (dep', ex) = (if dep \<ge> STREAM_ID_LIMIT then (dep - STREAM_ID_LIMIT, True) else (dep, False))
     in obind (index s 4) (\<lambda>w.
        Ok \<lparr>stream_dependency = dep', exclusive = ex, weight = w\<rparr>))"

definition priority_bytes :: "priority \<Rightarrow> byte list" where
  "priority_bytes p =
     u32_bytes (if exclusive p then stream_dependency p OR STREAM_ID_LIMIT
                else stream_dependency p AND NOT STREAM_ID_LIMIT) @ [weight p]"

section \<open>DATA, HEADERS and CONTINUATION\<close>

record data_frame =
  d_stream :: u32
  d_end_stream :: bool
  d_data :: "byte list"

definition data_dec :: "frame \<Rightarrow> data_frame h2" where
  "data_dec f = expect FT_Data f
     (if fstream (header f) = 0 then Err (ConnErr ProtocolError)
      else Ok \<lparr>d_stream = fstream (header f),
              d_end_stream = contains (fflags (header f)) END_STREAM, d_data = payload f\<rparr>)"

definition data_enc :: "data_frame \<Rightarrow> frame" where
  "data_enc d = mk_frame FT_Data (flag_if (d_end_stream d) END_STREAM 0) (d_stream d) (d_data d)"

record headers_frame =
  h_stream :: u32
  h_end_stream :: bool
  h_end_headers :: bool
  h_priority :: "priority option"
  h_data :: "byte list"

definition headers_dec :: "frame \<Rightarrow> headers_frame h2" where
  "headers_dec f = expect FT_Headers f
     (if fstream (header f) = 0 then Err (ConnErr ProtocolError)
      else
        let flags = fflags (header f); padded = contains flags PADDED;
            result = (\<lambda>prio data.
              \<lparr>h_stream = fstream (header f), h_end_stream = contains flags END_STREAM,
               h_end_headers = contains flags END_HEADERS, h_priority = prio, h_data = data\<rparr>)
        in if contains flags PRIORITY
           then
             if padded
             then obind (slice 8 13 (payload f)) (\<lambda>s.
                  obind (priority_from_slice s) (\<lambda>prio.
                  obind (split_off 13 (payload f)) (\<lambda>rest. Ok (result (Some prio) rest))))
             else obind (slice 0 5 (payload f)) (\<lambda>s.
                  obind (priority_from_slice s) (\<lambda>prio.
                  obind (split_off 5 (payload f)) (\<lambda>rest. Ok (result (Some prio) rest))))
           else Ok (result None (payload f)))"

definition headers_enc :: "headers_frame \<Rightarrow> frame" where
  "headers_enc h = mk_frame FT_Headers
     (flag_if (h_end_headers h) END_HEADERS (flag_if (h_end_stream h) END_STREAM 0)) (h_stream h)
     (case h_priority h of Some p \<Rightarrow> priority_bytes p @ h_data h | None \<Rightarrow> h_data h)"

record continuation_frame =
  c_stream :: u32
  c_end_headers :: bool
  c_data :: "byte list"

definition continuation_dec :: "frame \<Rightarrow> continuation_frame h2" where
  "continuation_dec f = expect FT_Continuation f
     (Ok \<lparr>c_stream = fstream (header f), c_end_headers = contains (fflags (header f)) END_HEADERS,
         c_data = payload f\<rparr>)"

definition continuation_enc :: "continuation_frame \<Rightarrow> frame" where
  "continuation_enc c =
     mk_frame FT_Continuation (flag_if (c_end_headers c) END_HEADERS 0) (c_stream c) (c_data c)"

section \<open>PRIORITY, RST_STREAM, PING, GOAWAY and WINDOW_UPDATE\<close>

record priority_frame =
  p_stream :: u32
  p_priority :: priority

definition priority_dec :: "frame \<Rightarrow> priority_frame h2" where
  "priority_dec f = expect FT_Priority f
     (obind (priority_from_slice (payload f)) (\<lambda>p.
      Ok \<lparr>p_stream = fstream (header f), p_priority = p\<rparr>))"

definition priority_enc :: "priority_frame \<Rightarrow> frame" where
  "priority_enc p = mk_frame FT_Priority 0 (p_stream p) (priority_bytes (p_priority p))"

text \<open>\<open>error_code\<close> as a number; a missing one is sent as INTERNAL_ERROR.\<close>

definition code_bytes :: "error_code option \<Rightarrow> byte list" where
  "code_bytes c = u32_bytes (word_of_nat (error_code_num
     (case c of Some code \<Rightarrow> code | None \<Rightarrow> InternalError)))"

record rst_stream_frame =
  r_stream :: u32
  r_error_code :: "error_code option"

definition rst_stream_dec :: "frame \<Rightarrow> rst_stream_frame h2" where
  "rst_stream_dec f = expect FT_RstStream f
     (obind (array_of 4 (payload f)) (\<lambda>code.
      Ok \<lparr>r_stream = fstream (header f), r_error_code = error_code_from_u32 (bytes_u32 code)\<rparr>))"

definition rst_stream_enc :: "rst_stream_frame \<Rightarrow> frame" where
  "rst_stream_enc r = mk_frame FT_RstStream 0 (r_stream r) (code_bytes (r_error_code r))"

record ping_frame =
  ping_ack :: bool
  ping_data :: u64

definition ping_dec :: "frame \<Rightarrow> ping_frame h2" where
  "ping_dec f = expect FT_Ping f
     (obind (array_of 8 (payload f)) (\<lambda>data.
      Ok \<lparr>ping_ack = contains (fflags (header f)) ACK, ping_data = bytes_u64 data\<rparr>))"

definition ping_enc :: "ping_frame \<Rightarrow> frame" where
  "ping_enc p = mk_frame FT_Ping (flag_if (ping_ack p) ACK 0) 0 (u64_bytes (ping_data p))"

record go_away_frame =
  last_stream_id :: u32
  go_error_code :: "error_code option"
  debug_data :: "byte list"

definition go_away_dec :: "frame \<Rightarrow> go_away_frame h2" where
  "go_away_dec f = expect FT_GoAway f
     (obind (slice 0 4 (payload f)) (\<lambda>last.
      obind (slice 4 8 (payload f)) (\<lambda>code.
      obind (split_off 8 (payload f)) (\<lambda>rest.
      Ok \<lparr>last_stream_id = strip_reserved (bytes_u32 last),
          go_error_code = error_code_from_u32 (bytes_u32 code), debug_data = rest\<rparr>))))"

definition go_away_enc :: "go_away_frame \<Rightarrow> frame" where
  "go_away_enc g = mk_frame FT_GoAway 0 0
     (u32_bytes (last_stream_id g) @ code_bytes (go_error_code g) @ debug_data g)"

record window_update_frame =
  w_stream :: u32
  window_size_increment :: u32

definition window_update_dec :: "frame \<Rightarrow> window_update_frame h2" where
  "window_update_dec f = expect FT_WindowUpdate f
     (obind (slice 0 4 (payload f)) (\<lambda>inc.
      Ok \<lparr>w_stream = fstream (header f),
          window_size_increment = strip_reserved (bytes_u32 inc)\<rparr>))"

definition window_update_enc :: "window_update_frame \<Rightarrow> frame" where
  "window_update_enc w =
     mk_frame FT_WindowUpdate 0 (w_stream w) (u32_bytes (window_size_increment w))"

section \<open>SETTINGS\<close>

datatype settings_ident =
  HeaderTableSize | EnablePush | MaxConcurrentStreams | InitialWindowSize | MaxFrameSize
| MaxHeaderListSize

fun settings_ident_num :: "settings_ident \<Rightarrow> u16" where
  "settings_ident_num HeaderTableSize = 1"
| "settings_ident_num EnablePush = 2"
| "settings_ident_num MaxConcurrentStreams = 3"
| "settings_ident_num InitialWindowSize = 4"
| "settings_ident_num MaxFrameSize = 5"
| "settings_ident_num MaxHeaderListSize = 6"

definition settings_ident_from_u16 :: "u16 \<Rightarrow> settings_ident option" where
  "settings_ident_from_u16 x = List.find (\<lambda>i. settings_ident_num i = x)
     [HeaderTableSize, EnablePush, MaxConcurrentStreams, InitialWindowSize, MaxFrameSize,
      MaxHeaderListSize]"

lemma settings_ident_roundtrip [simp]: "settings_ident_from_u16 (settings_ident_num i) = Some i"
  by (cases i) (simp_all add: settings_ident_from_u16_def)

text \<open>A setting may be given once: \<open>once\<close> is the test and the assignment.\<close>

definition once :: "'v option \<Rightarrow> settings_frame \<Rightarrow> settings_frame h2" where
  "once old new = (if old \<noteq> None then Err (ConnErr ProtocolError) else Ok new)"

definition settings_entry :: "settings_frame \<Rightarrow> byte list \<Rightarrow> settings_frame h2" where
  "settings_entry sf chunk =
     obind (ok_or (ConnErr ProtocolError) (settings_ident_from_u16 (bytes_u16 (take 2 chunk)))) (\<lambda>ident.
     let v = bytes_u32 (take 4 (drop 2 chunk)) in
     case ident of
       HeaderTableSize \<Rightarrow> once (sf_header_table_size sf) (sf\<lparr>sf_header_table_size := Some v\<rparr>)
     | EnablePush \<Rightarrow>
         if sf_enable_push sf \<noteq> None then Err (ConnErr ProtocolError)
         else if v = 1 then Ok (sf\<lparr>sf_enable_push := Some True\<rparr>)
         else if v = 0 then Ok (sf\<lparr>sf_enable_push := Some False\<rparr>)
         else Err (ConnErr ProtocolError)
     | MaxConcurrentStreams \<Rightarrow>
         once (sf_max_concurrent_streams sf) (sf\<lparr>sf_max_concurrent_streams := Some v\<rparr>)
     | InitialWindowSize \<Rightarrow>
         once (sf_initial_window_size sf) (sf\<lparr>sf_initial_window_size := Some v\<rparr>)
     | MaxFrameSize \<Rightarrow> once (sf_max_frame_size sf) (sf\<lparr>sf_max_frame_size := Some v\<rparr>)
     | MaxHeaderListSize \<Rightarrow>
         once (sf_max_header_list_size sf) (sf\<lparr>sf_max_header_list_size := Some v\<rparr>))"

definition settings_dec :: "frame \<Rightarrow> settings_frame h2" where
  "settings_dec f = expect FT_Settings f
     (let sf = settings_frame_default\<lparr>sf_ack := contains (fflags (header f)) ACK\<rparr> in
      if sf_ack sf
      then if payload f \<noteq> [] then Err (ConnErr FrameSizeError) else Ok sf
      else ofold settings_entry sf (chunks_exact 6 (payload f)))"

definition entry_bytes :: "settings_ident \<Rightarrow> u32 \<Rightarrow> byte list" where
  "entry_bytes ident v = u16_bytes (settings_ident_num ident) @ u32_bytes v"

definition opt_bytes :: "settings_ident \<Rightarrow> u32 option \<Rightarrow> byte list" where
  "opt_bytes ident v = (case v of Some x \<Rightarrow> entry_bytes ident x | None \<Rightarrow> [])"

definition settings_enc :: "settings_frame \<Rightarrow> frame" where
  "settings_enc sf = mk_frame FT_Settings (flag_if (sf_ack sf) ACK 0) 0
     (opt_bytes HeaderTableSize (sf_header_table_size sf) @
      opt_bytes EnablePush (map_option (\<lambda>b. if b then 1 else 0) (sf_enable_push sf)) @
      opt_bytes MaxConcurrentStreams (sf_max_concurrent_streams sf) @
      opt_bytes InitialWindowSize (sf_initial_window_size sf) @
      opt_bytes MaxFrameSize (sf_max_frame_size sf) @
      opt_bytes MaxHeaderListSize (sf_max_header_list_size sf))"

section \<open>Facts the codecs share\<close>

lemma expect_mk [simp]:
  "expect t (mk_frame t fl st p) k = k" "header (mk_frame t fl st p) = \<lparr>ftype = t, fflags = fl, fstream = st\<rparr>"
  "payload (mk_frame t fl st p) = p"
  by (simp_all add: expect_def mk_frame_def)

lemma contains_flag_if [simp]:
  "contains (flag_if b END_STREAM 0) END_STREAM = b"
  "contains (flag_if a END_HEADERS (flag_if b END_STREAM 0)) END_STREAM = b"
  "contains (flag_if a END_HEADERS (flag_if b END_STREAM 0)) END_HEADERS = a"
  "\<not> contains (flag_if a END_HEADERS (flag_if b END_STREAM 0)) PRIORITY"
  "\<not> contains (flag_if a END_HEADERS (flag_if b END_STREAM 0)) PADDED"
  "contains (flag_if a END_HEADERS 0) END_HEADERS = a"
  "contains (flag_if b ACK 0) ACK = b"
  "\<not> contains (flag_if b END_STREAM 0) PADDED"
  by (cases a; cases b; simp add: contains_def flag_if_def flag_defs)+

lemma truncate_flag_if [simp]:
  "from_bits_truncate 0 = 0"
  "from_bits_truncate (flag_if b END_STREAM 0) = flag_if b END_STREAM 0"
  "from_bits_truncate (flag_if b ACK 0) = flag_if b ACK 0"
  "from_bits_truncate (flag_if a END_HEADERS (flag_if b END_STREAM 0)) =
     flag_if a END_HEADERS (flag_if b END_STREAM 0)"
  by (cases a; cases b; simp add: from_bits_truncate_def flag_if_def flag_defs)+

lemma strip_reserved_id: "x < STREAM_ID_LIMIT \<Longrightarrow> strip_reserved x = x"
  by (auto simp: strip_reserved_def dest: leD)

lemma strip_reserved_less: "strip_reserved x < STREAM_ID_LIMIT"
proof (cases "x \<ge> STREAM_ID_LIMIT")
  case True
  have "unat x < 4294967296" by (rule unat_lt_bounds)
  then have "unat x - 2147483648 < 2147483648" by linarith
  with True show ?thesis
    by (simp add: strip_reserved_def STREAM_ID_LIMIT_def word_less_nat_alt word_le_nat_alt unat_sub)
qed (simp add: strip_reserved_def)

lemma reserved_bit:
  assumes "(x :: u32) < STREAM_ID_LIMIT"
  shows "x OR STREAM_ID_LIMIT = x + STREAM_ID_LIMIT" "x AND NOT STREAM_ID_LIMIT = x"
    "STREAM_ID_LIMIT \<le> x + STREAM_ID_LIMIT"
proof -
  have x: "unat x < 2 ^ 31" using assms by (simp add: STREAM_ID_LIMIT_def word_less_nat_alt)
  have lim: "STREAM_ID_LIMIT = push_bit 31 1" by (simp add: STREAM_ID_LIMIT_def)
  have bit_lim: "bit STREAM_ID_LIMIT n \<longleftrightarrow> n = 31" for n
    unfolding lim bit_push_bit_iff bit_1_iff by auto
  have "take_bit 31 x = x"
    using x by (simp add: word_unat_eq_iff unsigned_take_bit_eq take_bit_nat_eq_self)
  then have "\<not> bit x 31" by (metis bit_take_bit_iff less_irrefl)
  then have "x AND STREAM_ID_LIMIT = 0"
    by (auto intro!: bit_word_eqI simp: bit_and_iff bit_lim)
  then show "x OR STREAM_ID_LIMIT = x + STREAM_ID_LIMIT"
    using word_plus_and_or [of x STREAM_ID_LIMIT] by simp
  show "x AND NOT STREAM_ID_LIMIT = x"
    using \<open>\<not> bit x 31\<close>
    by (intro bit_word_eqI) (auto simp: bit_and_iff bit_not_iff bit_lim)
  show "STREAM_ID_LIMIT \<le> x + STREAM_ID_LIMIT"
    using x by (simp add: STREAM_ID_LIMIT_def word_le_nat_alt unat_word_ariths)
qed

lemma priority_roundtrip:
  assumes "stream_dependency p < STREAM_ID_LIMIT"
  shows "priority_from_slice (priority_bytes p) = Ok p"
  using reserved_bit [OF assms] assms
  by (cases p) (auto simp: priority_from_slice_def priority_bytes_def nth_append)

lemma length_priority_bytes [simp]: "length (priority_bytes p) = 5"
  by (simp add: priority_bytes_def)

lemma length_code_bytes [simp]: "length (code_bytes c) = 4"
  by (simp add: code_bytes_def)

lemma code_bytes_roundtrip [simp]:
  "error_code_from_u32 (bytes_u32 (code_bytes c)) = Some (case c of Some d \<Rightarrow> d | None \<Rightarrow> InternalError)"
  by (simp only: code_bytes_def bytes_of_bytes error_code_roundtrip)

section \<open>The codecs as an interface\<close>

text \<open>The header that goes on the wire for a frame.\<close>

definition raw_of :: "frame \<Rightarrow> frame_header_raw" where
  "raw_of f = \<lparr>raw_length = word_of_nat (length (payload f)), raw_type = frame_type_num (ftype (header f)),
     raw_flags = fflags (header f), raw_stream = fstream (header f)\<rparr>"

text \<open>
  What the connection relies on for every kind of frame it both sends and receives: an encoded
  frame passes the receiver's header checks unchanged, and is decoded back. \<open>canon\<close> says which
  records have an encoding of their own (a stream identifier has 31 bits, for one).
\<close>

locale frame_codec =
  fixes enc :: "'f \<Rightarrow> frame"
    and dec :: "frame \<Rightarrow> 'f h2"
    and canon :: "'f \<Rightarrow> bool"
  assumes dec_enc: "canon x \<Longrightarrow> dec (enc x) = Ok x"
    and enc_accepted: "canon x \<Longrightarrow> frame_from_header_and_payload (raw_of (enc x)) (payload (enc x)) = Ok (enc x)"
    and enc_stream: "canon x \<Longrightarrow> fstream (header (enc x)) < STREAM_ID_LIMIT"
begin

lemma enc_inject: "canon x \<Longrightarrow> canon y \<Longrightarrow> enc x = enc y \<longleftrightarrow> x = y"
  using dec_enc by (metis outcome.inject(1))

lemma received:
  "canon x \<Longrightarrow> obind (frame_from_header_and_payload (raw_of (enc x)) (payload (enc x))) dec = Ok x"
  by (simp add: dec_enc enc_accepted)

end

lemma accepted_mk:
  "from_bits_truncate fl = fl \<Longrightarrow> t \<noteq> FT_PushPromise \<Longrightarrow> \<not> contains fl PADDED \<Longrightarrow>
   header_from_raw (raw_of (mk_frame t fl st p)) = Ok (header (mk_frame t fl st p)) \<Longrightarrow>
   frame_from_header_and_payload (raw_of (mk_frame t fl st p)) p = Ok (mk_frame t fl st p)"
  by (cases t) (simp_all add: frame_from_header_and_payload_def mk_frame_def)

lemma raw_of_mk [simp]: "raw_of (mk_frame t fl st p) =
    \<lparr>raw_length = word_of_nat (length p), raw_type = frame_type_num t, raw_flags = fl, raw_stream = st\<rparr>"
  by (simp add: raw_of_def)

lemmas header_checks = header_from_raw_def require_def

lemma frame_type_from_u8_num [simp]:
  "frame_type_from_u8 0 = Some FT_Data" "frame_type_from_u8 1 = Some FT_Headers"
  "frame_type_from_u8 2 = Some FT_Priority" "frame_type_from_u8 3 = Some FT_RstStream"
  "frame_type_from_u8 4 = Some FT_Settings" "frame_type_from_u8 5 = Some FT_PushPromise"
  "frame_type_from_u8 6 = Some FT_Ping" "frame_type_from_u8 7 = Some FT_GoAway"
  "frame_type_from_u8 8 = Some FT_WindowUpdate" "frame_type_from_u8 9 = Some FT_Continuation"
  by (simp_all add: frame_type_from_u8_def frame_types_def)

lemma not_padded_0 [simp]: "\<not> contains 0 PADDED"
  by (simp add: contains_def PADDED_def)

lemma not_padded_ack [simp]: "\<not> contains (flag_if b ACK 0) PADDED"
  by (cases b) (simp_all add: contains_def flag_if_def flag_defs)

lemma stream_limit_pos [simp]: "0 < STREAM_ID_LIMIT"
  by (simp add: STREAM_ID_LIMIT_def)

interpretation data_codec: frame_codec data_enc data_dec
  "\<lambda>d. d_stream d \<noteq> 0 \<and> d_stream d < STREAM_ID_LIMIT"
proof
  fix d :: data_frame
  assume d: "d_stream d \<noteq> 0 \<and> d_stream d < STREAM_ID_LIMIT"
  then show "data_dec (data_enc d) = Ok d" "fstream (header (data_enc d)) < STREAM_ID_LIMIT"
    by (simp_all add: data_dec_def data_enc_def)
  show "frame_from_header_and_payload (raw_of (data_enc d)) (payload (data_enc d)) = Ok (data_enc d)"
    using d unfolding data_enc_def expect_mk(3)
    by (intro accepted_mk) (simp_all add: header_checks)
qed

interpretation priority_codec: frame_codec priority_enc priority_dec
  "\<lambda>p. p_stream p \<noteq> 0 \<and> p_stream p < STREAM_ID_LIMIT \<and>
     stream_dependency (p_priority p) < STREAM_ID_LIMIT"
proof
  fix p :: priority_frame
  assume p: "p_stream p \<noteq> 0 \<and> p_stream p < STREAM_ID_LIMIT \<and>
     stream_dependency (p_priority p) < STREAM_ID_LIMIT"
  then show "priority_dec (priority_enc p) = Ok p" "fstream (header (priority_enc p)) < STREAM_ID_LIMIT"
    by (simp_all add: priority_dec_def priority_enc_def priority_roundtrip)
  show "frame_from_header_and_payload (raw_of (priority_enc p)) (payload (priority_enc p)) =
      Ok (priority_enc p)"
    using p unfolding priority_enc_def expect_mk(3)
    by (intro accepted_mk) (simp_all add: header_checks)
qed

interpretation rst_stream_codec: frame_codec rst_stream_enc rst_stream_dec
  "\<lambda>r. r_stream r \<noteq> 0 \<and> r_stream r < STREAM_ID_LIMIT \<and> r_error_code r \<noteq> None"
proof
  fix r :: rst_stream_frame
  assume r: "r_stream r \<noteq> 0 \<and> r_stream r < STREAM_ID_LIMIT \<and> r_error_code r \<noteq> None"
  then show "rst_stream_dec (rst_stream_enc r) = Ok r"
      "fstream (header (rst_stream_enc r)) < STREAM_ID_LIMIT"
    by (auto simp: rst_stream_dec_def rst_stream_enc_def)
  show "frame_from_header_and_payload (raw_of (rst_stream_enc r)) (payload (rst_stream_enc r)) =
      Ok (rst_stream_enc r)"
    using r unfolding rst_stream_enc_def expect_mk(3)
    by (intro accepted_mk) (simp_all add: header_checks)
qed

interpretation ping_codec: frame_codec ping_enc ping_dec "\<lambda>_. True"
proof
  fix p :: ping_frame
  show "ping_dec (ping_enc p) = Ok p" "fstream (header (ping_enc p)) < STREAM_ID_LIMIT"
    by (simp_all add: ping_dec_def ping_enc_def)
  show "frame_from_header_and_payload (raw_of (ping_enc p)) (payload (ping_enc p)) = Ok (ping_enc p)"
    unfolding ping_enc_def expect_mk(3)
    by (intro accepted_mk) (simp_all add: header_checks)
qed

interpretation go_away_codec: frame_codec go_away_enc go_away_dec
  "\<lambda>g. last_stream_id g < STREAM_ID_LIMIT \<and> go_error_code g \<noteq> None \<and> length (debug_data g) < 2 ^ 24 - 8"
proof
  fix g :: go_away_frame
  assume g: "last_stream_id g < STREAM_ID_LIMIT \<and> go_error_code g \<noteq> None \<and>
    length (debug_data g) < 2 ^ 24 - 8"
  then show "go_away_dec (go_away_enc g) = Ok g" "fstream (header (go_away_enc g)) < STREAM_ID_LIMIT"
    by (auto simp: go_away_dec_def go_away_enc_def strip_reserved_id)
  have "\<not> (word_of_nat (8 + length (debug_data g)) :: u32) < 8"
    using g by (simp add: word_less_nat_alt unat_of_nat del: of_nat_add)
  then show "frame_from_header_and_payload (raw_of (go_away_enc g)) (payload (go_away_enc g)) =
      Ok (go_away_enc g)"
    unfolding go_away_enc_def expect_mk(3)
    by (intro accepted_mk) (simp_all add: header_checks)
qed

interpretation window_update_codec: frame_codec window_update_enc window_update_dec
  "\<lambda>w. w_stream w < STREAM_ID_LIMIT \<and> window_size_increment w < STREAM_ID_LIMIT"
proof
  fix w :: window_update_frame
  assume w: "w_stream w < STREAM_ID_LIMIT \<and> window_size_increment w < STREAM_ID_LIMIT"
  then show "window_update_dec (window_update_enc w) = Ok w"
      "fstream (header (window_update_enc w)) < STREAM_ID_LIMIT"
    by (simp_all add: window_update_dec_def window_update_enc_def strip_reserved_id)
  show "frame_from_header_and_payload (raw_of (window_update_enc w)) (payload (window_update_enc w)) =
      Ok (window_update_enc w)"
    unfolding window_update_enc_def expect_mk(3)
    by (intro accepted_mk) (simp_all add: header_checks)
qed

section \<open>The SETTINGS codec\<close>

lemma length_entry_bytes [simp]: "length (entry_bytes i v) = 6"
  by (simp add: entry_bytes_def)

lemma length_opt_bytes [simp]: "length (opt_bytes i v) = (if v = None then 0 else 6)"
  by (simp add: opt_bytes_def split: option.splits)

lemma settings_entry_bytes:
  "settings_entry sf (entry_bytes HeaderTableSize v) =
     once (sf_header_table_size sf) (sf\<lparr>sf_header_table_size := Some v\<rparr>)"
  "sf_enable_push sf = None \<Longrightarrow> settings_entry sf (entry_bytes EnablePush (if b then 1 else 0)) =
     Ok (sf\<lparr>sf_enable_push := Some b\<rparr>)"
  "settings_entry sf (entry_bytes MaxConcurrentStreams v) =
     once (sf_max_concurrent_streams sf) (sf\<lparr>sf_max_concurrent_streams := Some v\<rparr>)"
  "settings_entry sf (entry_bytes InitialWindowSize v) =
     once (sf_initial_window_size sf) (sf\<lparr>sf_initial_window_size := Some v\<rparr>)"
  "settings_entry sf (entry_bytes MaxFrameSize v) =
     once (sf_max_frame_size sf) (sf\<lparr>sf_max_frame_size := Some v\<rparr>)"
  "settings_entry sf (entry_bytes MaxHeaderListSize v) =
     once (sf_max_header_list_size sf) (sf\<lparr>sf_max_header_list_size := Some v\<rparr>)"
  by (simp_all add: settings_entry_def entry_bytes_def Let_def
      del: settings_ident_num.simps)

text \<open>Decoding one optional entry, when the frame did not give the setting before.\<close>

lemma entry_roundtrip:
  assumes "sf_header_table_size sf = None"
  shows "ofold settings_entry sf (chunks_exact 6 (opt_bytes HeaderTableSize v @ rest)) =
    ofold settings_entry (sf\<lparr>sf_header_table_size := v\<rparr>) (chunks_exact 6 rest)"
  using assms by (cases v; cases sf)
    (simp_all add: opt_bytes_def chunks_exact_append settings_entry_bytes once_def)

lemma entry_roundtrip_push:
  assumes "sf_enable_push sf = None"
  shows "ofold settings_entry sf
      (chunks_exact 6 (opt_bytes EnablePush (map_option (\<lambda>b. if b then 1 else 0) v) @ rest)) =
    ofold settings_entry (sf\<lparr>sf_enable_push := v\<rparr>) (chunks_exact 6 rest)"
  using assms settings_entry_bytes(2) [OF assms] by (cases v; cases sf)
    (simp_all add: opt_bytes_def chunks_exact_append)

lemma entry_roundtrip_streams:
  assumes "sf_max_concurrent_streams sf = None"
  shows "ofold settings_entry sf (chunks_exact 6 (opt_bytes MaxConcurrentStreams v @ rest)) =
    ofold settings_entry (sf\<lparr>sf_max_concurrent_streams := v\<rparr>) (chunks_exact 6 rest)"
  using assms by (cases v; cases sf)
    (simp_all add: opt_bytes_def chunks_exact_append settings_entry_bytes once_def)

lemma entry_roundtrip_window:
  assumes "sf_initial_window_size sf = None"
  shows "ofold settings_entry sf (chunks_exact 6 (opt_bytes InitialWindowSize v @ rest)) =
    ofold settings_entry (sf\<lparr>sf_initial_window_size := v\<rparr>) (chunks_exact 6 rest)"
  using assms by (cases v; cases sf)
    (simp_all add: opt_bytes_def chunks_exact_append settings_entry_bytes once_def)

lemma entry_roundtrip_frame_size:
  assumes "sf_max_frame_size sf = None"
  shows "ofold settings_entry sf (chunks_exact 6 (opt_bytes MaxFrameSize v @ rest)) =
    ofold settings_entry (sf\<lparr>sf_max_frame_size := v\<rparr>) (chunks_exact 6 rest)"
  using assms by (cases v; cases sf)
    (simp_all add: opt_bytes_def chunks_exact_append settings_entry_bytes once_def)

lemma entry_roundtrip_header_list:
  assumes "sf_max_header_list_size sf = None"
  shows "ofold settings_entry sf (chunks_exact 6 (opt_bytes MaxHeaderListSize v)) =
    Ok (sf\<lparr>sf_max_header_list_size := v\<rparr>)"
  using assms chunks_exact_append [of "entry_bytes MaxHeaderListSize _" 6 "[]"] by (cases v; cases sf)
    (simp_all add: opt_bytes_def settings_entry_bytes once_def)

lemmas entry_roundtrips =
  entry_roundtrip entry_roundtrip_push entry_roundtrip_streams entry_roundtrip_window
  entry_roundtrip_frame_size entry_roundtrip_header_list

text \<open>An acknowledgement carries no settings.\<close>

definition settings_canon :: "settings_frame \<Rightarrow> bool" where
  "settings_canon sf \<longleftrightarrow> sf_ack sf \<longrightarrow> sf = settings_frame_default\<lparr>sf_ack := True\<rparr>"

interpretation settings_codec: frame_codec settings_enc settings_dec settings_canon
proof
  fix sf :: settings_frame
  assume canon: "settings_canon sf"
  show "settings_dec (settings_enc sf) = Ok sf"
  proof (cases "sf_ack sf")
    case True
    with canon have "sf = settings_frame_default\<lparr>sf_ack := True\<rparr>" by (simp add: settings_canon_def)
    then show ?thesis
      by (simp add: settings_dec_def settings_enc_def opt_bytes_def settings_frame_default_def)
  next
    case False
    then show ?thesis
      by (cases sf) (simp add: settings_dec_def settings_enc_def entry_roundtrips
          settings_frame_default_def)
  qed
  show "fstream (header (settings_enc sf)) < STREAM_ID_LIMIT" by (simp add: settings_enc_def)
  show "frame_from_header_and_payload (raw_of (settings_enc sf)) (payload (settings_enc sf)) =
      Ok (settings_enc sf)"
    unfolding settings_enc_def expect_mk(3)
    by (intro accepted_mk) (simp_all add: header_checks)
qed

section \<open>Dispatch\<close>

text \<open>
  The match of \<open>main_loop\<close> on the type of a received frame, up to the conversion it makes first.
\<close>

datatype received =
  R_Data data_frame | R_Headers headers_frame | R_Priority priority_frame
| R_RstStream rst_stream_frame | R_Settings settings_frame | R_Ping ping_frame
| R_GoAway go_away_frame | R_WindowUpdate window_update_frame

definition dispatch :: "frame \<Rightarrow> received h2" where
  "dispatch f = (case ftype (header f) of
     FT_Data \<Rightarrow> omap R_Data (data_dec f)
   | FT_Headers \<Rightarrow> omap R_Headers (headers_dec f)
   | FT_Priority \<Rightarrow> omap R_Priority (priority_dec f)
   | FT_RstStream \<Rightarrow> omap R_RstStream (rst_stream_dec f)
   | FT_Settings \<Rightarrow> omap R_Settings (settings_dec f)
   | FT_PushPromise \<Rightarrow> Err (ConnErr ProtocolError)
   | FT_Ping \<Rightarrow> omap R_Ping (ping_dec f)
   | FT_GoAway \<Rightarrow> omap R_GoAway (go_away_dec f)
   | FT_WindowUpdate \<Rightarrow> omap R_WindowUpdate (window_update_dec f)
   | FT_Continuation \<Rightarrow> Err (ConnErr ProtocolError))"

text \<open>A payload that was read whole, under the header that announced it.\<close>

definition announced :: "frame_header_raw \<Rightarrow> byte list \<Rightarrow> bool" where
  "announced raw pl \<longleftrightarrow> raw_length raw = word_of_nat (length pl) \<and> length pl < 2 ^ 24"

lemma accepted_cases:
  assumes "frame_from_header_and_payload raw pl = Ok f"
  shows "header_from_raw raw = Ok (header f)"
    and "\<not> ((ftype (header f) = FT_Data \<or> ftype (header f) = FT_Headers) \<and> contains (fflags (header f)) PADDED)
      \<Longrightarrow> payload f = pl"
    and "length (payload f) \<le> length pl"
  using assms unfolding frame_from_header_and_payload_def Let_def
  by (auto split: if_splits frame_type.splits list.splits simp: slice_eq_Ok)

lemma header_from_raw_type:
  assumes "header_from_raw raw = Ok h"
  shows "frame_type_from_u8 (raw_type raw) = Some (ftype h)"
proof -
  obtain t where "frame_type_from_u8 (raw_type raw) = Some t"
    using assms by (auto simp: header_from_raw_def)
  with assms show ?thesis
    by (cases t) (auto simp: header_checks Let_def split: if_splits)
qed

lemma checked_lengths:
  assumes "header_from_raw raw = Ok h" "announced raw pl"
  shows "ftype h = FT_Priority \<Longrightarrow> length pl = 5" "ftype h = FT_RstStream \<Longrightarrow> length pl = 4"
    "ftype h = FT_Ping \<Longrightarrow> length pl = 8" "ftype h = FT_WindowUpdate \<Longrightarrow> length pl = 4"
    "ftype h = FT_GoAway \<Longrightarrow> 8 \<le> length pl"
    "ftype h = FT_Headers \<Longrightarrow> contains (fflags h) PRIORITY \<Longrightarrow> 5 \<le> length pl"
proof -
  have len: "unat (raw_length raw) = length pl"
    using assms(2) by (simp add: announced_def unat_of_nat)
  have "frame_type_from_u8 (raw_type raw) = Some (ftype h)"
    using assms(1) by (rule header_from_raw_type)
  note checks = assms(1) [unfolded header_checks, simplified this]
  show "ftype h = FT_Priority \<Longrightarrow> length pl = 5" "ftype h = FT_RstStream \<Longrightarrow> length pl = 4"
    "ftype h = FT_Ping \<Longrightarrow> length pl = 8" "ftype h = FT_WindowUpdate \<Longrightarrow> length pl = 4"
    using checks len by (auto simp: Let_def split: if_splits)
  show "ftype h = FT_GoAway \<Longrightarrow> 8 \<le> length pl"
    using checks len by (auto simp: Let_def word_less_nat_alt not_less split: if_splits)
  show "ftype h = FT_Headers \<Longrightarrow> contains (fflags h) PRIORITY \<Longrightarrow> 5 \<le> length pl"
    using checks len by (auto simp: Let_def word_less_nat_alt not_less split: if_splits)
qed

lemma continuation_checked:
  assumes "header_from_raw raw = Ok h" "ftype h = FT_Continuation"
  shows "fstream h = 0"
  using assms(1) header_from_raw_type [OF assms(1)] assms(2)
  by (auto simp: header_checks Let_def split: if_splits)

lemma priority_from_slice_total: "5 \<le> length s \<Longrightarrow> priority_from_slice s \<noteq> Panic"
  by (simp add: priority_from_slice_def Let_def split: if_splits)

lemma priority_from_slice_Ok: "5 \<le> length s \<Longrightarrow> \<exists>p. priority_from_slice s = Ok p"
  by (simp add: priority_from_slice_def Let_def)

lemma settings_dec_total: "settings_dec f \<noteq> Panic"
proof -
  have "settings_entry sf chunk \<noteq> Panic" for sf chunk
  proof (cases "settings_ident_from_u16 (bytes_u16 (take 2 chunk))")
    case (Some i)
    then show ?thesis by (cases i) (simp_all add: settings_entry_def once_def Let_def)
  qed (simp add: settings_entry_def)
  then have "ofold settings_entry sf chunks \<noteq> Panic" for sf chunks
    by (induction chunks arbitrary: sf) (simp_all add: obind_neq_Panic)
  then show ?thesis by (simp add: settings_dec_def expect_def Let_def)
qed

lemma dispatch_total:
  assumes "frame_from_header_and_payload raw pl = Ok f" "announced raw pl"
    and "\<not> (ftype (header f) = FT_Headers \<and> contains (fflags (header f)) PADDED \<and>
      contains (fflags (header f)) PRIORITY)"
  shows "dispatch f \<noteq> Panic"
proof -
  note acc = accepted_cases [OF assms(1)]
  note len = checked_lengths [OF acc(1) assms(2)]
  show ?thesis
  proof (cases "ftype (header f)")
    case FT_Headers
    show ?thesis
    proof (cases "contains (fflags (header f)) PRIORITY")
      case True
      with assms(3) FT_Headers acc(2) len(6) have "5 \<le> length (payload f)" by auto
      with True assms(3) FT_Headers show ?thesis
        by (simp add: dispatch_def headers_dec_def expect_def obind_neq_Panic
            priority_from_slice_total Let_def)
    next
      case False
      with FT_Headers show ?thesis by (simp add: dispatch_def headers_dec_def expect_def Let_def)
    qed
  qed (use len acc(2) in \<open>simp_all add: dispatch_def expect_def data_dec_def priority_dec_def
      rst_stream_dec_def ping_dec_def go_away_dec_def window_update_dec_def obind_neq_Panic
      priority_from_slice_total settings_dec_total\<close>)
qed

section \<open>Properties\<close>



text \<open>
  C30. A HEADERS frame with padding and a priority is read at the wrong place: the padding is
  already gone, and the decoder skips eight bytes more. A frame with less than eight bytes of
  header block panics; any other gets a priority made of header bytes and loses eight of them.
\<close>

theorem padded_priority_headers:
  assumes "contains fl PADDED" "contains fl PRIORITY" "st \<noteq> 0"
  shows "if length block < 8
    then dispatch (mk_frame FT_Headers fl st (priority_bytes prio @ block)) = Panic
    else \<exists>wrong. priority_from_slice (take 5 (drop 3 block)) = Ok wrong \<and>
      dispatch (mk_frame FT_Headers fl st (priority_bytes prio @ block)) =
        Ok (R_Headers \<lparr>h_stream = st, h_end_stream = contains fl END_STREAM,
          h_end_headers = contains fl END_HEADERS, h_priority = Some wrong, h_data = drop 8 block\<rparr>)"
proof (cases "length block < 8")
  case True
  with assms show ?thesis by (simp add: dispatch_def headers_dec_def slice_def)
next
  case False
  then obtain wrong where "priority_from_slice (take 5 (drop 3 block)) = Ok wrong"
    using priority_from_slice_Ok [of "take 5 (drop 3 block)"] by auto
  with False assms show ?thesis by (simp add: dispatch_def headers_dec_def)
qed

theorem padded_priority_headers_witness:
  "dispatch (mk_frame FT_Headers 40 1
     (priority_bytes \<lparr>stream_dependency = 0, exclusive = False, weight = 1\<rparr> @ [130, 132])) = Panic"
  using padded_priority_headers [of 40 1 "[130, 132]"]
  by (simp add: contains_def flag_defs)

text \<open>
  A HEADERS frame that carries a priority is encoded without the PRIORITY flag: decoding it
  gives the five bytes of the priority back as the start of the header block. Without a priority
  the frame is decoded as it was.
\<close>

lemma headers_enc_dec:
  assumes "h_stream h \<noteq> 0"
  shows "headers_dec (headers_enc h) = Ok (case h_priority h of
      None \<Rightarrow> h
    | Some p \<Rightarrow> h\<lparr>h_priority := None, h_data := priority_bytes p @ h_data h\<rparr>)"
  using assms by (cases h) (simp add: headers_dec_def headers_enc_def split: option.split)



end
