(* ===== verification/Byte_Buffer.thy ===== *)
theory Byte_Buffer
  imports Prelude
begin

text \<open>
  \<open>src/src/buffer.rs\<close>, the linear \<open>Buffer\<close>: the vector with a read and a write pointer through
  which every byte of a connection passes (the frame buffer and the header-block buffer of
  HTTP/2, the request buffer of HTTP/1, the chunk-header buffer, the body buffers). Its contract,
  a bounded first-in first-out byte queue, is the locale \<open>byte_fifo\<close>.

  The field \<open>inner\<close> is an \<open>Option<Vec<u8>>\<close> in the code only so that \<open>into_inner\<close> can move the
  vector out of a type with a destructor; it is \<open>Some\<close> for the whole life of the value and is
  modelled as the vector. Lengths and pointers are \<open>usize\<close> values that never exceed a vector's
  length and are \<open>nat\<close> here.
\<close>

section \<open>The interface: a bounded byte queue\<close>

datatype fifo_op = Put "byte list" | Get nat

text \<open>
  A run of queue operations: the bytes accepted by the puts, the bytes delivered by the gets and
  the final queue.
\<close>

fun fifo_run ::
  "(byte list \<Rightarrow> 'q \<Rightarrow> (nat \<times> 'q) io) \<Rightarrow> (nat \<Rightarrow> 'q \<Rightarrow> (byte list \<times> 'q) io)
    \<Rightarrow> fifo_op list \<Rightarrow> 'q \<Rightarrow> (byte list \<times> byte list \<times> 'q) io" where
  "fifo_run put get [] q = Ok ([], [], q)"
| "fifo_run put get (Put bs # ops) q =
     obind (put bs q) (\<lambda>(n, q1).
     obind (fifo_run put get ops q1) (\<lambda>(acc, del, q2). Ok (take n bs @ acc, del, q2)))"
| "fifo_run put get (Get n # ops) q =
     obind (get n q) (\<lambda>(bs, q1).
     obind (fifo_run put get ops q1) (\<lambda>(acc, del, q2). Ok (acc, bs @ del, q2)))"

text \<open>Feeding fragments one after the other, all of which must fit.\<close>

fun put_all ::
  "(byte list \<Rightarrow> 'q \<Rightarrow> (nat \<times> 'q) io) \<Rightarrow> byte list list \<Rightarrow> 'q \<Rightarrow> 'q option" where
  "put_all put [] q = Some q"
| "put_all put (bs # bss) q =
     (case put bs q of
        Ok (n, q1) \<Rightarrow> if n = length bs then put_all put bss q1 else None
      | _ \<Rightarrow> None)"

locale byte_fifo =
  fixes wf :: "'q \<Rightarrow> bool"
    and contents :: "'q \<Rightarrow> byte list"
    and capacity :: "'q \<Rightarrow> nat"
    and put :: "byte list \<Rightarrow> 'q \<Rightarrow> (nat \<times> 'q) io"
    and get :: "nat \<Rightarrow> 'q \<Rightarrow> (byte list \<times> 'q) io"
  assumes contents_fit: "wf q \<Longrightarrow> length (contents q) \<le> capacity q"
    and put_spec: "wf q \<Longrightarrow> \<exists>q'.
      put bs q = Ok (min (length bs) (capacity q - length (contents q)), q') \<and> wf q' \<and>
      capacity q' = capacity q \<and>
      contents q' = contents q @ take (capacity q - length (contents q)) bs"
    and get_spec: "wf q \<Longrightarrow> \<exists>q'.
      get n q = Ok (take n (contents q), q') \<and> wf q' \<and> capacity q' = capacity q \<and>
      contents q' = drop n (contents q)"
begin

lemma put_fits:
  assumes "wf q" and "length (contents q) + length bs \<le> capacity q"
  obtains q' where "put bs q = Ok (length bs, q')" "wf q'" "capacity q' = capacity q"
    "contents q' = contents q @ bs"
  using put_spec [OF assms(1), of bs] assms(2) by auto

lemma run_conserves:
  "wf q \<Longrightarrow> \<exists>acc del q'. fifo_run put get ops q = Ok (acc, del, q') \<and> wf q' \<and>
     capacity q' = capacity q \<and> contents q @ acc = del @ contents q'"
proof (induction ops arbitrary: q)
  case Nil
  then show ?case by simp
next
  case (Cons op ops)
  show ?case
  proof (cases op)
    case (Put bs)
    obtain q1 where q1: "put bs q = Ok (min (length bs) (capacity q - length (contents q)), q1)"
      "wf q1" "capacity q1 = capacity q"
      "contents q1 = contents q @ take (capacity q - length (contents q)) bs"
      using put_spec [OF Cons.prems, of bs] by blast
    with Cons.IH [of q1] Put show ?thesis by (auto simp: min_def)
  next
    case (Get n)
    obtain q1 where q1: "get n q = Ok (take n (contents q), q1)" "wf q1"
      "capacity q1 = capacity q" "contents q1 = drop n (contents q)"
      using get_spec [OF Cons.prems, of n] by blast
    from Cons.IH [OF q1(2)] obtain acc del q' where
      "fifo_run put get ops q1 = Ok (acc, del, q')" "wf q'" "capacity q' = capacity q1"
      "contents q1 @ acc = del @ contents q'" by blast
    moreover have "contents q @ acc = take n (contents q) @ contents q1 @ acc"
      using q1(4) by simp
    ultimately show ?thesis using Get q1(1,3) by simp
  qed
qed

lemma put_all_iff_fits:
  "wf q \<Longrightarrow>
     (case put_all put bss q of
        None \<Rightarrow> capacity q < length (contents q) + length (concat bss)
      | Some q' \<Rightarrow> length (contents q) + length (concat bss) \<le> capacity q \<and> wf q' \<and>
          capacity q' = capacity q \<and> contents q' = contents q @ concat bss)"
proof (induction bss arbitrary: q)
  case Nil
  then show ?case using contents_fit by simp
next
  case (Cons bs bss)
  obtain q1 where q1: "put bs q = Ok (min (length bs) (capacity q - length (contents q)), q1)"
    "wf q1" "capacity q1 = capacity q"
    "contents q1 = contents q @ take (capacity q - length (contents q)) bs"
    using put_spec [OF Cons.prems, of bs] by blast
  show ?case
  proof (cases "length (contents q) + length bs \<le> capacity q")
    case True
    with Cons.IH [OF q1(2)] q1 show ?thesis
      by (simp add: min_absorb1 ac_simps split: option.splits)
  next
    case False
    with contents_fit [OF Cons.prems]
    have "min (length bs) (capacity q - length (contents q)) \<noteq> length bs" by simp
    with False q1(1) show ?thesis by simp
  qed
qed

end

section \<open>\<open>Buffer\<close>\<close>

record buffer =
  inner :: "byte list"
  write_pointer :: nat
  read_pointer :: nat

definition DEFAULT_CAPACITY :: nat where "DEFAULT_CAPACITY = 4096"

definition with_capacity :: "nat \<Rightarrow> buffer" where
  "with_capacity n = \<lparr>inner = replicate n 0, write_pointer = 0, read_pointer = 0\<rparr>"

definition buffer_default :: buffer where
  "buffer_default = with_capacity DEFAULT_CAPACITY"

text \<open>\<open>From<T: Into<Vec<u8>>>\<close>: the whole vector counts as written and unread.\<close>

definition buffer_from :: "byte list \<Rightarrow> buffer" where
  "buffer_from buf = \<lparr>inner = buf, write_pointer = length buf, read_pointer = 0\<rparr>"

definition buffer_reset :: "buffer \<Rightarrow> buffer" where
  "buffer_reset b = b\<lparr>write_pointer := 0, read_pointer := 0\<rparr>"

definition set_capacity :: "nat \<Rightarrow> buffer \<Rightarrow> buffer" where
  "set_capacity n b =
     buffer_reset (if n \<noteq> length (inner b) then b\<lparr>inner := replicate n 0\<rparr> else b)"

text \<open>\<open>copy_within(begin..end, 0)\<close>.\<close>

definition copy_to_front :: "nat \<Rightarrow> nat \<Rightarrow> 'a list \<Rightarrow> 'a list" where
  "copy_to_front b e xs = overwrite 0 (take (e - b) (drop b xs)) xs"

definition rotate_buffer :: "buffer \<Rightarrow> buffer" where
  "rotate_buffer b =
     (if read_pointer b = 0 then b
      else if read_pointer b \<ge> write_pointer b then b\<lparr>read_pointer := 0, write_pointer := 0\<rparr>
      else b\<lparr>inner := copy_to_front (read_pointer b) (write_pointer b) (inner b),
             write_pointer := write_pointer b - read_pointer b, read_pointer := 0\<rparr>)"

definition as_ref :: "buffer \<Rightarrow> (byte list, 'e) outcome" where
  "as_ref b = slice (read_pointer b) (write_pointer b) (inner b)"

text \<open>\<open>as_mut\<close> rotates and hands out the free tail; \<open>as_mut_len\<close> is its length.\<close>

definition as_mut_len :: "buffer \<Rightarrow> nat" where
  "as_mut_len b = (let b' = rotate_buffer b in length (inner b') - write_pointer b')"

definition progress :: "nat \<Rightarrow> buffer \<Rightarrow> buffer" where
  "progress amount b =
     (let new_read_pointer = read_pointer b + amount in
      if new_read_pointer > write_pointer b then b\<lparr>read_pointer := write_pointer b\<rparr>
      else b\<lparr>read_pointer := new_read_pointer\<rparr>)"

definition progress_write :: "nat \<Rightarrow> buffer \<Rightarrow> buffer" where
  "progress_write amount b =
     (let new_write_pointer = write_pointer b + amount in
      if new_write_pointer > length (inner b) then b\<lparr>write_pointer := length (inner b)\<rparr>
      else b\<lparr>write_pointer := new_write_pointer\<rparr>)"

definition available_for_read :: "buffer \<Rightarrow> nat" where
  "available_for_read b = write_pointer b - read_pointer b"

definition available_for_write :: "buffer \<Rightarrow> nat" where
  "available_for_write b = length (inner b) - write_pointer b + read_pointer b"

text \<open>\<open>Read::read\<close> into a slice of \<open>n\<close> bytes: the bytes copied out, whose number is the result.\<close>

definition buffer_read :: "nat \<Rightarrow> buffer \<Rightarrow> (byte list \<times> buffer) io" where
  "buffer_read n b =
     (let available = available_for_read b in
      if available = 0 then Ok ([], b)
      else
        let amount = (if available > n then n else available);
            begin = read_pointer b; end = begin + amount
        in obind (slice begin end (inner b)) (\<lambda>bs.
           Ok (bs, b\<lparr>read_pointer := read_pointer b + amount\<rparr>)))"

text \<open>\<open>Write::write\<close>: how many bytes of \<open>buf\<close> were taken.\<close>

definition buffer_write :: "byte list \<Rightarrow> buffer \<Rightarrow> (nat \<times> buffer) io" where
  "buffer_write buf b0 =
     (let b = rotate_buffer b0; available = available_for_write b in
      if available = 0 then Ok (0, b)
      else
        let amount = (if available > length buf then length buf else available);
            begin = write_pointer b; end = begin + amount
        in obind (slice begin end (inner b)) (\<lambda>_.
           Ok (amount, b\<lparr>inner := overwrite begin (take amount buf) (inner b),
                         write_pointer := write_pointer b + amount\<rparr>)))"

text \<open>
  \<open>read_from_reader\<close>: one read of the given reader into the free tail. A reader is a parameter,
  a state with a read operation that gets the length of the slice and returns the bytes it wrote
  there, as \<open>AsyncReadExt::read\<close> does. Writing past the slice panics.
\<close>

type_synonym 'r reader = "nat \<Rightarrow> 'r \<Rightarrow> byte list io \<times> 'r"

definition read_from_reader :: "'r reader \<Rightarrow> buffer \<Rightarrow> 'r \<Rightarrow> nat io \<times> buffer \<times> 'r" where
  "read_from_reader rd b0 r =
     (let b = rotate_buffer b0 in
      case rd (as_mut_len b) r of
        (Ok bs, r') \<Rightarrow>
          if length bs > as_mut_len b then (Panic, b, r')
          else (Ok (length bs),
            b\<lparr>inner := overwrite (write_pointer b) bs (inner b),
              write_pointer := write_pointer b + length bs\<rparr>, r')
      | (Err e, r') \<Rightarrow> (Err e, b, r')
      | (Panic, r') \<Rightarrow> (Panic, b, r'))"

text \<open>\<open>write_to_writer\<close>: the writer gets the unread bytes and says how many it took.\<close>

definition write_to_writer ::
  "(byte list \<Rightarrow> 'w \<Rightarrow> nat io \<times> 'w) \<Rightarrow> buffer \<Rightarrow> 'w \<Rightarrow> nat io \<times> buffer \<times> 'w" where
  "write_to_writer wr b w =
     (case (as_ref b :: byte list io) of
        Ok bs \<Rightarrow>
          (case wr bs w of
             (Ok amount, w') \<Rightarrow> (Ok amount, b\<lparr>read_pointer := read_pointer b + amount\<rparr>, w')
           | (Err e, w') \<Rightarrow> (Err e, b, w')
           | (Panic, w') \<Rightarrow> (Panic, b, w'))
      | _ \<Rightarrow> (Panic, b, w))"

text \<open>The destructor zeroes the vector, chunk by chunk when it is longer than the zero page.\<close>

definition ZERO_LEN :: nat where "ZERO_LEN = 1048576"

definition buffer_drop :: "buffer \<Rightarrow> byte list" where
  "buffer_drop b =
     (if length (inner b) > ZERO_LEN
      then concat (map (\<lambda>chunk. replicate (length chunk) 0) (chunks ZERO_LEN (inner b)))
      else replicate (length (inner b)) 0)"

section \<open>The invariant and the unread bytes\<close>

definition buffer_inv :: "buffer \<Rightarrow> bool" where
  "buffer_inv b \<longleftrightarrow> read_pointer b \<le> write_pointer b \<and> write_pointer b \<le> length (inner b)"

definition view :: "buffer \<Rightarrow> byte list" where
  "view b = take (write_pointer b - read_pointer b) (drop (read_pointer b) (inner b))"

definition buffer_capacity :: "buffer \<Rightarrow> nat" where
  "buffer_capacity b = length (inner b)"

named_theorems buffer_ops

lemmas buffer_raw_defs =
  buffer_inv_def view_def buffer_capacity_def rotate_buffer_def copy_to_front_def
  available_for_read_def available_for_write_def

lemma as_ref_view [buffer_ops]: "buffer_inv b \<Longrightarrow> as_ref b = Ok (view b)"
  by (simp add: as_ref_def buffer_inv_def view_def)

lemma length_view: "buffer_inv b \<Longrightarrow> length (view b) = available_for_read b"
  by (auto simp: buffer_raw_defs)

lemma length_view_le: "buffer_inv b \<Longrightarrow> length (view b) \<le> buffer_capacity b"
  by (simp add: buffer_raw_defs)

lemma with_capacity_ops [buffer_ops]:
  "buffer_inv (with_capacity n)" "view (with_capacity n) = []"
  "buffer_capacity (with_capacity n) = n"
  by (simp_all add: buffer_raw_defs with_capacity_def)

lemma buffer_from_ops [buffer_ops]:
  "buffer_inv (buffer_from bs)" "view (buffer_from bs) = bs"
  "buffer_capacity (buffer_from bs) = length bs"
  by (simp_all add: buffer_raw_defs buffer_from_def)

lemma buffer_reset_ops [buffer_ops]:
  "buffer_inv (buffer_reset b)" "view (buffer_reset b) = []"
  "buffer_capacity (buffer_reset b) = buffer_capacity b"
  by (simp_all add: buffer_raw_defs buffer_reset_def)

lemma set_capacity_ops [buffer_ops]:
  "buffer_inv (set_capacity n b)" "view (set_capacity n b) = []"
  "buffer_capacity (set_capacity n b) = n"
  by (simp_all add: set_capacity_def buffer_ops) (simp_all add: buffer_raw_defs buffer_reset_def)

lemma rotate_buffer_ops [buffer_ops]:
  assumes "buffer_inv b"
  shows "buffer_inv (rotate_buffer b)" "view (rotate_buffer b) = view b"
    "buffer_capacity (rotate_buffer b) = buffer_capacity b" "read_pointer (rotate_buffer b) = 0"
    "write_pointer (rotate_buffer b) = length (view b)"
  using assms by (auto simp: buffer_raw_defs overwrite_def)

lemma progress_ops [buffer_ops]:
  assumes "buffer_inv b"
  shows "buffer_inv (progress n b)" "view (progress n b) = drop n (view b)"
    "buffer_capacity (progress n b) = buffer_capacity b"
  using assms by (auto simp: buffer_raw_defs progress_def Let_def drop_take add.commute)

lemma as_mut_len_eq [buffer_ops]:
  "buffer_inv b \<Longrightarrow> as_mut_len b = buffer_capacity b - length (view b)"
  using rotate_buffer_ops [of b] by (simp add: as_mut_len_def Let_def buffer_capacity_def)

lemma rotated_free: "buffer_inv b \<Longrightarrow>
    available_for_write (rotate_buffer b) = buffer_capacity b - length (view b)"
  using rotate_buffer_ops [of b]
  by (simp add: available_for_write_def buffer_capacity_def)

lemma available_for_write_eq [buffer_ops]:
  "buffer_inv b \<Longrightarrow> available_for_write b = buffer_capacity b - length (view b)"
  by (auto simp: buffer_raw_defs)

text \<open>Appending at the write pointer of a rotated buffer.\<close>

lemma view_append:
  assumes "buffer_inv b" "read_pointer b = 0" "write_pointer b + length bs \<le> length (inner b)"
  defines "b' \<equiv> b\<lparr>inner := overwrite (write_pointer b) bs (inner b),
                  write_pointer := write_pointer b + length bs\<rparr>"
  shows "buffer_inv b'" "view b' = view b @ bs" "buffer_capacity b' = buffer_capacity b"
  using assms by (simp_all add: buffer_raw_defs overwrite_def)

lemma buffer_read_ops [buffer_ops]:
  assumes "buffer_inv b"
  shows "\<exists>b'. buffer_read n b = Ok (take n (view b), b') \<and> buffer_inv b' \<and>
    buffer_capacity b' = buffer_capacity b \<and> view b' = drop n (view b)"
  using assms
  by (auto simp: buffer_read_def Let_def buffer_raw_defs drop_take add.commute min_def)

lemma buffer_write_ops [buffer_ops]:
  assumes inv: "buffer_inv b"
  shows "\<exists>b'. buffer_write bs b = Ok (min (length bs) (buffer_capacity b - length (view b)), b') \<and>
    buffer_inv b' \<and> buffer_capacity b' = buffer_capacity b \<and>
    view b' = view b @ take (buffer_capacity b - length (view b)) bs"
proof -
  let ?r = "rotate_buffer b" and ?free = "buffer_capacity b - length (view b)"
  let ?n = "min (length bs) ?free"
  note rot = rotate_buffer_ops [OF inv]
  have fits: "write_pointer ?r + ?n \<le> length (inner ?r)"
    using rot length_view_le [OF inv] by (simp add: buffer_capacity_def)
  have take_n: "take ?n bs = take ?free bs"
    by (simp add: min_def)
  have len_n: "length (take ?n bs) = ?n" by simp
  have "buffer_write bs b = Ok (?n, ?r\<lparr>inner := overwrite (write_pointer ?r) (take ?n bs) (inner ?r),
          write_pointer := write_pointer ?r + ?n\<rparr>)"
  proof (cases "?free = 0")
    case True
    then show ?thesis
      using rotated_free [OF inv] by (simp add: buffer_write_def overwrite_def)
  next
    case False
    then show ?thesis
      using rotated_free [OF inv] fits
      by (auto simp: buffer_write_def Let_def min_def slice_eq_Ok split: if_splits)
  qed
  then show ?thesis
    using view_append [OF rot(1,4), of "take ?n bs"] fits rot(2,3) take_n len_n by auto
qed

lemma progress_write_ops [buffer_ops]:
  assumes "buffer_inv b"
  shows "buffer_inv (progress_write n b)"
    "buffer_capacity (progress_write n b) = buffer_capacity b"
    "view (progress_write n b) =
       view b @ take n (drop (write_pointer b) (inner b))"
proof -
  have split_drop: "take (k + m) (drop r xs) = take k (drop r xs) @ take m (drop (r + k) xs)"
    for k m r and xs :: "byte list"
    by (simp add: take_add add.commute)
  let ?r = "read_pointer b" and ?w = "write_pointer b" and ?l = "length (inner b)"
  have eq: "?w - ?r + n = ?w + n - ?r" "?w - ?r + (?l - ?w) = ?l - ?r" "?r + (?w - ?r) = ?w"
    using assms by (auto simp: buffer_inv_def)
  show "view (progress_write n b) = view b @ take n (drop ?w (inner b))"
    using split_drop [of "?w - ?r" n ?r "inner b"] split_drop [of "?w - ?r" "?l - ?w" ?r "inner b"] eq
    by (auto simp: view_def progress_write_def Let_def)
qed (use assms in \<open>auto simp: buffer_raw_defs progress_write_def Let_def\<close>)

text \<open>What the code relies on in a reader: it never reports more bytes than the slice holds.\<close>

definition reader_bounded :: "'r reader \<Rightarrow> bool" where
  "reader_bounded rd \<longleftrightarrow> (\<forall>n r bs r'. rd n r = (Ok bs, r') \<longrightarrow> length bs \<le> n)"

text \<open>A reader over a list of bytes that hands out as much as fits.\<close>

fun list_reader :: "byte list reader" where
  "list_reader n bs = (Ok (take n bs), drop n bs)"

lemma list_reader_bounded [simp]: "reader_bounded list_reader"
  by (simp add: reader_bounded_def)

lemma read_from_reader_Ok:
  assumes "buffer_inv b" "reader_bounded rd"
    and "rd (buffer_capacity b - length (view b)) r = (Ok bs, r')"
  obtains b' where "read_from_reader rd b r = (Ok (length bs), b', r')" "buffer_inv b'"
    "view b' = view b @ bs" "buffer_capacity b' = buffer_capacity b"
proof -
  note rot = rotate_buffer_ops [OF assms(1)]
  have len: "as_mut_len (rotate_buffer b) = buffer_capacity b - length (view b)"
    using as_mut_len_eq [OF rot(1)] rot(2,3) by simp
  have "length bs \<le> buffer_capacity b - length (view b)"
    using assms(2,3) by (auto simp: reader_bounded_def)
  then have fits: "write_pointer (rotate_buffer b) + length bs \<le> length (inner (rotate_buffer b))"
    using rot(3,5) length_view_le [OF assms(1)] by (simp add: buffer_capacity_def)
  show ?thesis
    using that view_append [OF rot(1,4) fits] rot(2,3) assms(3) len
      \<open>length bs \<le> buffer_capacity b - length (view b)\<close>
    by (simp add: read_from_reader_def Let_def)
qed

lemma write_to_writer_Ok:
  assumes "buffer_inv b" "wr (view b) w = (Ok n, w')" "n \<le> length (view b)"
  obtains b' where "write_to_writer wr b w = (Ok n, b', w')" "buffer_inv b'"
    "view b' = drop n (view b)" "buffer_capacity b' = buffer_capacity b"
proof -
  have "b\<lparr>read_pointer := read_pointer b + n\<rparr> = progress n b"
    using assms(1,3) by (auto simp: progress_def Let_def buffer_raw_defs)
  with that progress_ops [OF assms(1), of n] assms(2)
  show ?thesis by (simp add: write_to_writer_def as_ref_view [OF assms(1)])
qed

lemma read_from_reader_grows:
  "read_from_reader rd b r = (Ok n, b', r') \<Longrightarrow> available_for_read b' = available_for_read b + n"
  by (auto simp: read_from_reader_def Let_def rotate_buffer_def available_for_read_def
      split: prod.splits outcome.splits if_splits)

lemma rotate_buffer_zero:
  "read_pointer (rotate_buffer b) = 0" "read_pointer b = 0 \<Longrightarrow> rotate_buffer b = b"
  by (simp_all add: rotate_buffer_def)

lemma read_from_reader_room:
  assumes "read_from_reader rd b r = (Ok n, b', r')" "0 < n"
  shows "as_mut_len b' < as_mut_len b"
proof -
  define c where "c = rotate_buffer b"
  have c: "read_pointer c = 0" "as_mut_len c = as_mut_len b"
    by (simp_all add: c_def rotate_buffer_zero as_mut_len_def)
  obtain bs where "length bs = n" "n \<le> as_mut_len c"
    "b' = c\<lparr>inner := overwrite (write_pointer c) bs (inner c), write_pointer := write_pointer c + n\<rparr>"
    using assms(1) unfolding read_from_reader_def Let_def c_def [symmetric]
    by (auto split: prod.splits outcome.splits if_splits)
  with assms(2) c show ?thesis
    by (auto simp: as_mut_len_def rotate_buffer_zero)
qed

text \<open>
  The interface of a peer that sends bytes and does not fail: a read hands out the next bytes of
  the stream, at least one when there is room and the stream has not ended.
\<close>

locale byte_source =
  fixes rd :: "'r reader" and pending :: "'r \<Rightarrow> byte list"
  assumes read_spec: "\<exists>bs r'. rd n r = (Ok bs, r') \<and> length bs \<le> n \<and> pending r = bs @ pending r' \<and>
    (0 < n \<longrightarrow> pending r \<noteq> [] \<longrightarrow> bs \<noteq> [])"
begin

lemma bounded: "reader_bounded rd"
proof -
  have "length bs \<le> n" if "rd n r = (Ok bs, r')" for n r bs r'
    using read_spec [of n r] that by (metis outcome.inject(1) prod.inject)
  then show ?thesis by (simp add: reader_bounded_def)
qed

lemma read_some:
  assumes "buffer_inv b"
  obtains bs b' r' where "read_from_reader rd b r = (Ok (length bs), b', r')" "buffer_inv b'"
    "view b' = view b @ bs" "buffer_capacity b' = buffer_capacity b" "pending r = bs @ pending r'"
    "length (view b) < buffer_capacity b \<Longrightarrow> pending r \<noteq> [] \<Longrightarrow> bs \<noteq> []"
proof -
  obtain bs r' where rd: "rd (buffer_capacity b - length (view b)) r = (Ok bs, r')"
    "pending r = bs @ pending r'"
    "0 < buffer_capacity b - length (view b) \<longrightarrow> pending r \<noteq> [] \<longrightarrow> bs \<noteq> []"
    using read_spec by blast
  obtain b' where b': "read_from_reader rd b r = (Ok (length bs), b', r')" "buffer_inv b'"
    "view b' = view b @ bs" "buffer_capacity b' = buffer_capacity b"
    by (rule read_from_reader_Ok [OF assms bounded rd(1)])
  show ?thesis by (rule that [OF b' rd(2)]) (use rd(3) in auto)
qed

end

text \<open>A peer whose bytes arrive in arbitrary pieces.\<close>

fun chunk_reader :: "byte list list reader" where
  "chunk_reader n [] = (Ok [], [])"
| "chunk_reader n (c # cs) =
     (if c = [] then chunk_reader n cs
      else (Ok (take n c), if length c \<le> n then cs else drop n c # cs))"

interpretation chunk_source: byte_source chunk_reader concat
proof
  fix n cs
  show "\<exists>bs cs'. chunk_reader n cs = (Ok bs, cs') \<and> length bs \<le> n \<and> concat cs = bs @ concat cs' \<and>
      (0 < n \<longrightarrow> concat cs \<noteq> [] \<longrightarrow> bs \<noteq> [])"
  proof (induction n cs rule: chunk_reader.induct)
    case (2 n c cs)
    show ?case
    proof (cases "c = []")
      case True
      with 2 show ?thesis by simp
    next
      case False
      then show ?thesis by (cases "length c \<le> n") simp_all
    qed
  qed simp
qed

interpretation list_source: byte_source list_reader "\<lambda>bs. bs"
  by unfold_locales simp

interpretation bq: byte_fifo buffer_inv view buffer_capacity buffer_write buffer_read
  by unfold_locales (auto simp: length_view_le intro: buffer_write_ops buffer_read_ops)

section \<open>Properties\<close>

text \<open>
  C32. A \<open>Buffer\<close> is a lossless byte queue. Any sequence of writes and reads on a fresh buffer
  runs without panic and without error; the bytes its writes accepted are exactly the bytes its
  reads delivered, in order, followed by the unread bytes, and no more than the capacity is ever
  held.
\<close>

theorem buffer_is_lossless_queue:
  "\<exists>acc del b. fifo_run buffer_write buffer_read ops (with_capacity n) = Ok (acc, del, b) \<and>
     acc = del @ view b \<and> length (view b) \<le> n"
proof -
  obtain acc del b where "fifo_run buffer_write buffer_read ops (with_capacity n) = Ok (acc, del, b)"
    "buffer_inv b" "buffer_capacity b = n" "acc = del @ view b"
    using bq.run_conserves [of "with_capacity n" ops] by (auto simp: buffer_ops)
  with length_view_le show ?thesis by blast
qed

text \<open>
  A read from the peer appends exactly the bytes the reader reported to the unread bytes,
  whatever rotation it needs first, and keeps the buffer's invariant and its capacity.
\<close>

lemma read_from_reader_appends:
  assumes "buffer_inv b" "reader_bounded rd"
    and "rd (buffer_capacity b - length (view b)) r = (Ok bs, r')"
  shows "\<exists>b'. read_from_reader rd b r = (Ok (length bs), b', r') \<and> buffer_inv b' \<and>
    view b' = view b @ bs \<and> buffer_capacity b' = buffer_capacity b"
  using assms by (blast elim: read_from_reader_Ok)

text \<open>
  Dropping a buffer leaves only zero bytes behind, on the short path and on the path that
  wipes page by page: no byte of a request survives in freed memory.
\<close>

lemma buffer_drop_wipes:
  "buffer_drop b = replicate (length (inner b)) 0"
proof -
  have zeros: "concat (map (\<lambda>c. replicate (length c) (0::byte)) css) =
      replicate (length (concat css)) 0" for css :: "byte list list"
    by (induction css) (simp_all add: replicate_add)
  show ?thesis
    by (simp add: buffer_drop_def zeros concat_chunks ZERO_LEN_def)
qed

end
