(* ===== verification/H2_Wire.thy ===== *)
theory H2_Wire
  imports H2_Frame Byte_Buffer
begin

text \<open>
  How frames travel: \<open>write_frame\<close>, \<open>read_preface\<close> and \<open>read_next_frame\<close> of
  \<open>src/src/http2/mod.rs\<close>. The peer is a reader with a state; \<open>read_next_frame\<close> is given with the
  points where the connection can abandon it.
\<close>

section \<open>Writing\<close>

text \<open>The bytes \<open>write_frame\<close> gives to the writer, in order.\<close>

definition write_frame :: "frame \<Rightarrow> byte list" where
  "write_frame f =
     take 3 (drop 5 (u64_bytes (word_of_nat (length (payload f))))) @
     [frame_type_num (ftype (header f))] @ [fflags (header f)] @
     u32_bytes (fstream (header f)) @ payload f"

section \<open>Reading\<close>

text \<open>
  The loop of \<open>read_preface\<close> and the two loops of \<open>read_next_frame\<close>: read from the peer until
  \<open>need\<close> bytes are there. Only the payload loop checks for a full buffer first.
\<close>

function fill :: "'r reader \<Rightarrow> nat \<Rightarrow> bool \<Rightarrow> 'e \<Rightarrow> (io_error \<Rightarrow> 'e) \<Rightarrow> (buffer \<times> 'r, unit, 'e) stateful" where
  "fill rd need check_full eof map_err (b, r) =
     (if available_for_read b \<ge> need then (Ok (), (b, r))
      else if check_full \<and> available_for_write b = 0 then (Err eof, (b, r))
      else case read_from_reader rd b r of
          (Ok n, b', r') \<Rightarrow>
            if n = 0 then (Err eof, (b', r')) else fill rd need check_full eof map_err (b', r')
        | (Err e, b', r') \<Rightarrow> (Err (map_err e), (b', r'))
        | (Panic, b', r') \<Rightarrow> (Panic, (b', r')))"
  by pat_completeness auto
termination
  by (relation "measure (\<lambda>(rd, need, check_full, eof, map_err, (b, r)). need - available_for_read b)")
    (auto dest!: read_from_reader_grows sym [of "(_, _)" "read_from_reader _ _ _"])

declare fill.simps [simp del]

text \<open>\<open>buffer.progress(n)\<close> and, for a frame, the \<open>rotate_buffer\<close> after it.\<close>

definition skip :: "nat \<Rightarrow> (buffer \<times> 'r, unit, 'e) stateful" where
  "skip n = (\<lambda>(b, r). (Ok (), (progress n b, r)))"

definition consume :: "nat \<Rightarrow> (buffer \<times> 'r, unit, 'e) stateful" where
  "consume n = (\<lambda>(b, r). (Ok (), (rotate_buffer (progress n b), r)))"

definition peek :: "(byte list \<Rightarrow> ('a, 'e) outcome) \<Rightarrow> (buffer \<times> 'r, 'a, 'e) stateful" where
  "peek f = (\<lambda>(b, r). (obind (as_ref b) f, (b, r)))"

definition HTTP2_CLIENT_PREFACE :: "byte list" where
  "HTTP2_CLIENT_PREFACE =
     bytes_of ''PRI * HTTP/2.0'' @ [13, 10, 13, 10] @ bytes_of ''SM'' @ [13, 10, 13, 10]"

definition read_preface :: "'r reader \<Rightarrow> (buffer \<times> 'r, unit, io_error) stateful" where
  "read_preface rd =
     (let preface_len = length HTTP2_CLIENT_PREFACE in
      sbind (fill rd preface_len False
        (IoError UnexpectedEof ''Incomplete H2 preface was send.'') (\<lambda>e. e)) (\<lambda>_.
      sbind (peek (slice 0 preface_len)) (\<lambda>bs.
      if HTTP2_CLIENT_PREFACE \<noteq> bs
      then slift (Err (IoError InvalidData ''Invalid H2 preface was send.''))
      else skip preface_len)))"

text \<open>\<open>read_next_frame\<close>: the header, then the payload the header announces.\<close>

definition read_header :: "'r reader \<Rightarrow> (buffer \<times> 'r, frame_header_raw, h2_error) stateful" where
  "read_header rd =
     sbind (fill rd 9 False (ConnErr ProtocolError) (\<lambda>_. ConnErr ProtocolError)) (\<lambda>_.
     sbind (peek raw_from_slice) (\<lambda>raw.
     sbind (consume 9) (\<lambda>_. sret raw)))"

definition read_payload ::
  "'r reader \<Rightarrow> frame_header_raw \<Rightarrow> (buffer \<times> 'r, frame, h2_error) stateful" where
  "read_payload rd raw =
     (let payload_size = unat (raw_length raw) in
      sbind (fill rd payload_size True (ConnErr ProtocolError) (\<lambda>_. ConnErr ProtocolError)) (\<lambda>_.
      sbind (peek (\<lambda>bs. obind (slice 0 payload_size bs) (frame_from_header_and_payload raw))) (\<lambda>f.
      sbind (consume payload_size) (\<lambda>_. sret f))))"

definition read_next_frame :: "'r reader \<Rightarrow> (buffer \<times> 'r, frame, h2_error) stateful" where
  "read_next_frame rd = sbind (read_header rd) (read_payload rd)"

text \<open>
  \<open>main_loop\<close> runs \<open>read_next_frame\<close> as one branch of a \<open>select!\<close>: when a timer, a stream or the
  shutdown is ready first, the future is dropped at the \<open>await\<close> it stands at, a read from the
  peer. What it has done to the buffer stays. \<open>abandoned rd s s'\<close>: a call begun in \<open>s\<close> can be
  dropped with \<open>s'\<close> as the state. \<open>partial_fill\<close> is a fill loop that stands at a read.
\<close>

inductive partial_fill :: "'r reader \<Rightarrow> nat \<Rightarrow> bool \<Rightarrow> buffer \<times> 'r \<Rightarrow> buffer \<times> 'r \<Rightarrow> bool"
  for rd need check_full where
  waiting: "available_for_read b < need \<Longrightarrow> \<not> (check_full \<and> available_for_write b = 0) \<Longrightarrow>
    partial_fill rd need check_full (b, r) (b, r)"
| more: "available_for_read b < need \<Longrightarrow> \<not> (check_full \<and> available_for_write b = 0) \<Longrightarrow>
    read_from_reader rd b r = (Ok n, b', r') \<Longrightarrow> 0 < n \<Longrightarrow>
    partial_fill rd need check_full (b', r') s' \<Longrightarrow> partial_fill rd need check_full (b, r) s'"

inductive abandoned :: "'r reader \<Rightarrow> buffer \<times> 'r \<Rightarrow> buffer \<times> 'r \<Rightarrow> bool" for rd where
  in_header: "partial_fill rd 9 False s s' \<Longrightarrow> abandoned rd s s'"
| in_payload: "read_header rd s = (Ok raw, s1) \<Longrightarrow>
    partial_fill rd (unat (raw_length raw)) True s1 s' \<Longrightarrow> abandoned rd s s'"

inductive_cases abandonedE: "abandoned rd s s'"

text \<open>A run of calls that all come to their end.\<close>

fun read_frames :: "'r reader \<Rightarrow> nat \<Rightarrow> (buffer \<times> 'r, frame list, h2_error) stateful" where
  "read_frames rd 0 = sret []"
| "read_frames rd (Suc k) =
     sbind (read_next_frame rd) (\<lambda>f. sbind (read_frames rd k) (\<lambda>fs. sret (f # fs)))"

section \<open>Facts about the wire format\<close>

lemma to_be_append: "to_be (m + n) x = to_be m (x div 256 ^ n) @ to_be n x"
  by (induction n arbitrary: x) (simp_all add: div_mult2_eq [symmetric] mult.commute)

lemma from_be_append: "from_be (xs @ ys) = from_be xs * 256 ^ length ys + from_be ys"
proof (induction ys rule: rev_induct)
  case (snoc y ys)
  then show ?case by (simp add: append_assoc [symmetric] algebra_simps del: append_assoc)
qed simp

lemma from_be_Cons_0 [simp]: "from_be (0 # bs) = from_be bs"
  using from_be_append [of "[0]" bs] by (simp add: from_be_def)

text \<open>The length travels as the last three of eight bytes.\<close>

definition len24 :: "nat \<Rightarrow> byte list" where "len24 n = to_be 3 n"

lemma length_field: "n < 2 ^ 24 \<Longrightarrow> take 3 (drop 5 (u64_bytes (word_of_nat n))) = len24 n"
  using to_be_append [of 5 3 n] by (simp add: u64_bytes_def unat_of_nat len24_def)

lemma write_frame_eq:
  "length (payload f) < 2 ^ 24 \<Longrightarrow> write_frame f = len24 (length (payload f)) @
     frame_type_num (ftype (header f)) # fflags (header f) # u32_bytes (fstream (header f)) @ payload f"
  by (simp only: write_frame_def length_field append.assoc append_Cons append_Nil)

lemma length_len24 [simp]: "length (len24 n) = 3"
  by (simp add: len24_def)

lemma raw_from_slice_write_frame:
  assumes "length (payload f) < 2 ^ 24" "fstream (header f) < STREAM_ID_LIMIT"
  shows "raw_from_slice (write_frame f @ rest) = Ok (raw_of f)"
proof -
  have "length (len24 (length (payload f))) = Suc (Suc (Suc 0))" by simp
  then obtain a b c where len: "len24 (length (payload f)) = [a, b, c]"
    by (auto simp only: length_Suc_conv length_0_conv)
  have "from_be (len24 (length (payload f))) = length (payload f)"
    using assms(1) by (simp add: len24_def from_be_to_be)
  then have abc: "bytes_u32 [0, a, b, c] = word_of_nat (length (payload f))"
    by (simp only: len bytes_u32_def from_be_Cons_0)
  have wf: "write_frame f @ rest = a # b # c # frame_type_num (ftype (header f)) # fflags (header f) #
      u32_bytes (fstream (header f)) @ payload f @ rest"
    using write_frame_eq [OF assms(1)] len by simp
  have stream: "strip_reserved (bytes_u32 (u32_bytes (fstream (header f)))) = fstream (header f)"
    using assms(2) by (simp add: strip_reserved_id)
  show ?thesis
    unfolding wf using abc stream by (simp add: raw_from_slice_def raw_of_def)
qed

lemma length_write_frame: "length (payload f) < 2 ^ 24 \<Longrightarrow> length (write_frame f) = 9 + length (payload f)"
  by (simp add: write_frame_eq)

lemma drop_write_frame:
  assumes "length (payload f) < 2 ^ 24"
  shows "drop 9 (write_frame f @ rest) = payload f @ rest"
  using write_frame_eq [OF assms] by simp

section \<open>Filling the buffer from a peer\<close>

text \<open>The state of a reading connection: the invariant, and the bytes not yet consumed.\<close>

definition conn_inv :: "nat \<Rightarrow> buffer \<times> 'r \<Rightarrow> bool" where
  "conn_inv cap s \<longleftrightarrow> buffer_inv (fst s) \<and> buffer_capacity (fst s) = cap"

text \<open>A frame of the codecs that fits a buffer of the given capacity.\<close>

definition sendable :: "nat \<Rightarrow> frame \<Rightarrow> bool" where
  "sendable cap f \<longleftrightarrow> length (payload f) \<le> cap \<and> length (payload f) < 2 ^ 24 \<and>
     fstream (header f) < STREAM_ID_LIMIT \<and> frame_from_header_and_payload (raw_of f) (payload f) = Ok f"

lemma raw_from_slice_prefix: "9 \<le> length xs \<Longrightarrow> raw_from_slice (xs @ ys) = raw_from_slice xs"
  by (auto simp: raw_from_slice_def nth_append)

lemma fill_step:
  assumes "available_for_read b < need" "\<not> (cf \<and> available_for_write b = 0)"
    "read_from_reader rd b r = (Ok n, b', r')" "n \<noteq> 0"
  shows "fill rd need cf eof me (b, r) = fill rd need cf eof me (b', r')"
  using assms by (subst fill.simps) auto

context byte_source
begin

definition unread :: "buffer \<times> 'r \<Rightarrow> byte list" where
  "unread s = view (fst s) @ pending (snd s)"

lemma fill_enough:
  assumes "conn_inv cap s" "need \<le> cap" "need \<le> length (unread s)"
  shows "\<exists>s'. fill rd need cf eof me s = (Ok (), s') \<and> conn_inv cap s' \<and> unread s' = unread s \<and>
    need \<le> length (view (fst s'))"
  using assms
proof (induction "need - length (view (fst s))" arbitrary: s rule: less_induct)
  case less
  obtain b r where s: "s = (b, r)" by (cases s)
  then have inv: "buffer_inv b" "buffer_capacity b = cap" using less.prems by (simp_all add: conn_inv_def)
  show ?case
  proof (cases "need \<le> length (view b)")
    case True
    with less.prems s show ?thesis
      by (simp add: fill.simps [of rd need cf eof me b r] conn_inv_def length_view [symmetric])
  next
    case False
    obtain bs b' r' where step: "read_from_reader rd b r = (Ok (length bs), b', r')" "buffer_inv b'"
      "view b' = view b @ bs" "buffer_capacity b' = buffer_capacity b" "pending r = bs @ pending r'"
      and some: "length (view b) < buffer_capacity b \<Longrightarrow> pending r \<noteq> [] \<Longrightarrow> bs \<noteq> []"
      using read_some [OF inv(1), of r] by blast
    have "pending r \<noteq> []"
      using False less.prems(3) s by (auto simp: unread_def)
    then have "bs \<noteq> []"
      using some False less.prems(2) inv by simp
    have room: "\<not> (cf \<and> available_for_write b = 0)"
      using False less.prems(2) inv by (simp add: available_for_write_eq)
    have "available_for_read b < need" using False length_view [OF inv(1)] by simp
    from fill_step [OF this room step(1)] \<open>bs \<noteq> []\<close>
    have run: "fill rd need cf eof me s = fill rd need cf eof me (b', r')" unfolding s by simp
    have same: "unread (b', r') = unread s" using step s by (simp add: unread_def)
    have "need - length (view (fst (b', r'))) < need - length (view (fst s))"
      using False step(3) \<open>bs \<noteq> []\<close> s by (cases bs) auto
    moreover have "conn_inv cap (b', r')" using step inv by (simp add: conn_inv_def)
    ultimately show ?thesis
      using less.hyps [of "(b', r')"] less.prems(2,3) unfolding run same by blast
  qed
qed

text \<open>When the peer has too little, or the buffer is too small, the loop ends with the error.\<close>

lemma fill_short:
  assumes "conn_inv cap s" "cap < need \<and> cf \<or> length (unread s) < need"
    and "\<not> cf \<Longrightarrow> need \<le> cap"
  shows "\<exists>s'. fill rd need cf eof me s = (Err eof, s')"
  using assms
proof (induction "need - length (view (fst s))" arbitrary: s rule: less_induct)
  case less
  obtain b r where s: "s = (b, r)" by (cases s)
  then have inv: "buffer_inv b" "buffer_capacity b = cap" using less.prems by (simp_all add: conn_inv_def)
  have "length (view b) \<le> cap" using length_view_le [OF inv(1)] inv(2) by simp
  then have short: "length (view b) < need"
    using less.prems(2) s by (auto simp: unread_def)
  obtain bs b' r' where step: "read_from_reader rd b r = (Ok (length bs), b', r')" "buffer_inv b'"
    "view b' = view b @ bs" "buffer_capacity b' = buffer_capacity b" "pending r = bs @ pending r'"
    using read_some [OF inv(1), of r] by blast
  show ?case
  proof (cases "cf \<and> available_for_write b = 0 \<or> bs = []")
    case True
    with short inv step s show ?thesis
      by (auto simp: fill.simps [of rd need cf eof me b r] length_view [symmetric])
  next
    case False
    then have room: "\<not> (cf \<and> available_for_write b = 0)" and "bs \<noteq> []" by auto
    have "available_for_read b < need" using short length_view [OF inv(1)] by simp
    from fill_step [OF this room step(1)] \<open>bs \<noteq> []\<close>
    have run: "fill rd need cf eof me s = fill rd need cf eof me (b', r')" unfolding s by simp
    have same: "unread (b', r') = unread s" using step s by (simp add: unread_def)
    have "need - length (view (fst (b', r'))) < need - length (view (fst s))"
      using short step(3) \<open>bs \<noteq> []\<close> s by (cases bs) auto
    moreover have "conn_inv cap (b', r')" using step inv by (simp add: conn_inv_def)
    ultimately show ?thesis
      using less.hyps [of "(b', r')"] less.prems(2,3) unfolding run same by blast
  qed
qed

lemma peek_view: "conn_inv cap s \<Longrightarrow> peek f s = (f (view (fst s)), s)"
  by (cases s) (simp add: peek_def conn_inv_def as_ref_view)

lemma consume_unread:
  assumes "conn_inv cap s" "n \<le> length (view (fst s))"
  shows "\<exists>s'. consume n s = (Ok (), s') \<and> conn_inv cap s' \<and> unread s' = drop n (unread s)"
proof -
  obtain b r where s: "s = (b, r)" by (cases s)
  with assms show ?thesis
    using progress_ops [of b n] rotate_buffer_ops [of "progress n b"]
    by (simp add: consume_def conn_inv_def unread_def)
qed

lemma read_header_ok:
  assumes "conn_inv cap s" "9 \<le> cap" "unread s = write_frame f @ rest"
    and f: "length (payload f) < 2 ^ 24" "fstream (header f) < STREAM_ID_LIMIT"
  shows "\<exists>s'. read_header rd s = (Ok (raw_of f), s') \<and> conn_inv cap s' \<and>
    unread s' = payload f @ rest"
proof -
  have "9 \<le> length (unread s)" using assms(3) length_write_frame [OF f(1)] by simp
  then obtain s1 where s1:
    "fill rd 9 False (ConnErr ProtocolError) (\<lambda>_. ConnErr ProtocolError) s = (Ok (), s1)"
    "conn_inv cap s1" "unread s1 = unread s" "9 \<le> length (view (fst s1))"
    using fill_enough [OF assms(1,2), of False "ConnErr ProtocolError" "\<lambda>_. ConnErr ProtocolError"]
    by auto
  have whole: "view (fst s1) @ pending (snd s1) = write_frame f @ rest"
    using s1(3) assms(3) by (simp only: unread_def)
  have "raw_from_slice (view (fst s1)) = raw_from_slice (view (fst s1) @ pending (snd s1))"
    using s1(4) by (simp add: raw_from_slice_prefix)
  also have "\<dots> = Ok (raw_of f)"
    unfolding whole by (rule raw_from_slice_write_frame [OF f])
  finally have raw: "peek raw_from_slice s1 = (Ok (raw_of f), s1)"
    using peek_view [OF s1(2), of raw_from_slice] by simp
  obtain s2 where s2: "consume 9 s1 = (Ok () :: unit h2, s2)" "conn_inv cap s2"
    "unread s2 = drop 9 (unread s1)"
    using consume_unread [OF s1(2,4)] by blast
  have "unread s2 = payload f @ rest"
    using s2(3) s1(3) assms(3) drop_write_frame [OF f(1), of rest] by simp
  with s1(1) raw s2(1,2) show ?thesis by (simp add: read_header_def)
qed

lemma read_payload_ok:
  assumes "conn_inv cap s" "length (payload f) \<le> cap" "unread s = payload f @ rest"
    and f: "length (payload f) < 2 ^ 24"
      "frame_from_header_and_payload (raw_of f) (payload f) = Ok f"
  shows "\<exists>s'. read_payload rd (raw_of f) s = (Ok f, s') \<and> conn_inv cap s' \<and> unread s' = rest"
proof -
  let ?n = "length (payload f)"
  have size: "unat (raw_length (raw_of f)) = ?n"
    using f(1) by (simp add: raw_of_def unat_of_nat)
  obtain s1 where s1:
    "fill rd ?n True (ConnErr ProtocolError) (\<lambda>_. ConnErr ProtocolError) s = (Ok (), s1)"
    "conn_inv cap s1" "unread s1 = unread s" "?n \<le> length (view (fst s1))"
    using fill_enough [OF assms(1,2), of True "ConnErr ProtocolError" "\<lambda>_. ConnErr ProtocolError"]
      assms(3) by auto
  have "take ?n (view (fst s1)) = take ?n (view (fst s1) @ pending (snd s1))"
    using s1(4) by simp
  also have "view (fst s1) @ pending (snd s1) = payload f @ rest"
    using s1(3) assms(3) by (simp only: unread_def)
  finally have take_n: "take ?n (view (fst s1)) = payload f" by simp
  obtain s2 where s2: "consume ?n s1 = (Ok () :: unit h2, s2)" "conn_inv cap s2"
    "unread s2 = drop ?n (unread s1)"
    using consume_unread [OF s1(2,4)] by blast
  have "peek (\<lambda>bs. obind (slice 0 ?n bs) (frame_from_header_and_payload (raw_of f))) s1 = (Ok f, s1)"
    using peek_view [OF s1(2), of "\<lambda>bs. obind (slice 0 ?n bs) (frame_from_header_and_payload (raw_of f))"]
      s1(4) take_n f(2) by simp
  with s1(1) s2(1) have "read_payload rd (raw_of f) s = (Ok f, s2)"
    by (simp add: read_payload_def size Let_def)
  moreover have "unread s2 = rest" using s2(3) s1(3) assms(3) by simp
  ultimately show ?thesis using s2(2) by blast
qed

text \<open>A frame the codecs write, at the head of the stream, is what \<open>read_next_frame\<close> returns.\<close>

lemma read_next_frame_ok:
  assumes "conn_inv cap s" "9 \<le> cap" "unread s = write_frame f @ rest" "sendable cap f"
  shows "\<exists>s'. read_next_frame rd s = (Ok f, s') \<and> conn_inv cap s' \<and> unread s' = rest"
proof -
  from assms(4) have f: "length (payload f) \<le> cap" "length (payload f) < 2 ^ 24"
    "fstream (header f) < STREAM_ID_LIMIT" "frame_from_header_and_payload (raw_of f) (payload f) = Ok f"
    by (simp_all only: sendable_def)
  obtain s1 where "read_header rd s = (Ok (raw_of f), s1)" "conn_inv cap s1" "unread s1 = payload f @ rest"
    using read_header_ok [OF assms(1-3) f(2,3)] by blast
  with read_payload_ok [OF _ f(1) _ f(2,4)] show ?thesis
    by (fastforce simp: read_next_frame_def)
qed

lemma read_frames_ok:
  "conn_inv cap s \<Longrightarrow> 9 \<le> cap \<Longrightarrow> \<forall>f\<in>set fs. sendable cap f \<Longrightarrow>
   unread s = concat (map write_frame fs) @ rest \<Longrightarrow>
   \<exists>s'. read_frames rd (length fs) s = (Ok fs, s') \<and> conn_inv cap s' \<and> unread s' = rest"
proof (induction fs arbitrary: s)
  case (Cons f fs)
  obtain s1 where s1: "read_next_frame rd s = (Ok f, s1)" "conn_inv cap s1"
    "unread s1 = concat (map write_frame fs) @ rest"
    using read_next_frame_ok [OF Cons.prems(1,2), of f "concat (map write_frame fs) @ rest"]
      Cons.prems(3,4) by auto
  with Cons.IH [OF s1(2)] Cons.prems(2,3) obtain s2 where
    "read_frames rd (length fs) s1 = (Ok fs, s2)" "conn_inv cap s2" "unread s2 = rest" by auto
  with s1(1) show ?case by simp
qed simp

lemma read_next_frame_too_large:
  assumes "conn_inv cap s" "9 \<le> cap" "unread s = write_frame f @ rest" "cap < length (payload f)"
    and f: "length (payload f) < 2 ^ 24" "fstream (header f) < STREAM_ID_LIMIT"
  shows "fst (read_next_frame rd s) = Err (ConnErr ProtocolError)"
proof -
  obtain s1 where s1: "read_header rd s = (Ok (raw_of f), s1)" "conn_inv cap s1"
    using read_header_ok [OF assms(1-3) f] by blast
  have "unat (raw_length (raw_of f)) = length (payload f)"
    using f(1) by (simp add: raw_of_def unat_of_nat)
  moreover obtain s2 where "fill rd (length (payload f)) True (ConnErr ProtocolError)
      (\<lambda>_. ConnErr ProtocolError) s1 = (Err (ConnErr ProtocolError), s2)"
    using fill_short [OF s1(2), of "length (payload f)" True "ConnErr ProtocolError"
        "\<lambda>_. ConnErr ProtocolError"] assms(4) by auto
  ultimately show ?thesis
    using s1(1) by (simp add: read_next_frame_def read_payload_def Let_def)
qed

text \<open>What an abandoned call leaves unread.\<close>

lemma partial_fill_unread:
  "partial_fill rd need cf s s' \<Longrightarrow> conn_inv cap s \<Longrightarrow> conn_inv cap s' \<and> unread s' = unread s"
proof (induction rule: partial_fill.induct)
  case (more b r n b' r' s')
  then have inv: "buffer_inv b" "buffer_capacity b = cap" by (simp_all add: conn_inv_def)
  obtain bs c r2 where step: "read_from_reader rd b r = (Ok (length bs), c, r2)" "buffer_inv c"
    "view c = view b @ bs" "buffer_capacity c = buffer_capacity b" "pending r = bs @ pending r2"
    using read_some [OF inv(1), of r] by blast
  with more.hyps(3) have "c = b'" "r2 = r'" by simp_all
  with step inv have "conn_inv cap (b', r')" "unread (b', r') = unread (b, r)"
    by (simp_all add: conn_inv_def unread_def)
  with more.IH show ?case by simp
qed simp

lemma read_header_unread:
  assumes "conn_inv cap s" "9 \<le> cap" "read_header rd s = (Ok raw, s1)"
  shows "conn_inv cap s1 \<and> unread s1 = drop 9 (unread s)"
proof (cases "9 \<le> length (unread s)")
  case True
  then obtain s0 where s0:
    "fill rd 9 False (ConnErr ProtocolError) (\<lambda>_. ConnErr ProtocolError) s = (Ok (), s0)"
    "conn_inv cap s0" "unread s0 = unread s" "9 \<le> length (view (fst s0))"
    using fill_enough [OF assms(1,2), of False "ConnErr ProtocolError" "\<lambda>_. ConnErr ProtocolError"]
    by auto
  obtain s2 where "consume 9 s0 = (Ok () :: unit h2, s2)" "conn_inv cap s2" "unread s2 = drop 9 (unread s0)"
    using consume_unread [OF s0(2,4)] by blast
  with s0 assms(3) show ?thesis
    by (auto simp: read_header_def peek_view sbind_def [of "peek raw_from_slice"]
        split: outcome.splits)
next
  case False
  then obtain s0 where
    "fill rd 9 False (ConnErr ProtocolError) (\<lambda>_. ConnErr ProtocolError) s = (Err (ConnErr ProtocolError), s0)"
    using fill_short [OF assms(1), of 9 False "ConnErr ProtocolError" "\<lambda>_. ConnErr ProtocolError"] assms(2)
    by auto
  with assms(3) show ?thesis by (simp add: read_header_def)
qed

lemma abandoned_unread:
  assumes "abandoned rd s s'" "conn_inv cap s" "9 \<le> cap"
  shows "conn_inv cap s' \<and> (unread s' = unread s \<or> unread s' = drop 9 (unread s))"
  using assms(1)
proof (cases rule: abandoned.cases)
  case in_header
  with partial_fill_unread [OF _ assms(2)] show ?thesis by blast
next
  case (in_payload raw s1)
  with read_header_unread [OF assms(2,3)] partial_fill_unread show ?thesis by metis
qed

lemma read_preface_result:
  assumes "conn_inv cap s" "24 \<le> cap" "24 \<le> length (unread s)"
  shows "\<exists>s'. conn_inv cap s' \<and> read_preface rd s =
    (if take 24 (unread s) = HTTP2_CLIENT_PREFACE then Ok ()
     else Err (IoError InvalidData ''Invalid H2 preface was send.''), s') \<and>
    (take 24 (unread s) = HTTP2_CLIENT_PREFACE \<longrightarrow> unread s' = drop 24 (unread s))"
proof -
  let ?eof = "IoError UnexpectedEof ''Incomplete H2 preface was send.''"
  have len: "length HTTP2_CLIENT_PREFACE = 24"
    by (simp add: HTTP2_CLIENT_PREFACE_def bytes_of_def)
  obtain s1 where s1: "fill rd 24 False ?eof (\<lambda>e. e) s = (Ok (), s1)"
    "conn_inv cap s1" "unread s1 = unread s" "24 \<le> length (view (fst s1))"
    using fill_enough [OF assms, of False ?eof "\<lambda>e. e"] by auto
  have "take 24 (unread s1) = take 24 (view (fst s1))"
    using s1(4) by (simp add: unread_def)
  then have take_24: "take 24 (unread s) = take 24 (view (fst s1))"
    using s1(3) by simp
  have peek: "peek (slice 0 24) s1 = (Ok (take 24 (unread s)) :: byte list io, s1)"
    using peek_view [OF s1(2), of "slice 0 24"] s1(4) take_24 by simp
  have skip: "skip 24 s1 = (Ok () :: unit io, (progress 24 (fst s1), snd s1))" by (cases s1) (simp add: skip_def)
  have "conn_inv cap (progress 24 (fst s1), snd s1)"
    "unread (progress 24 (fst s1), snd s1) = drop 24 (unread s)"
    using progress_ops [of "fst s1" 24] s1(2,4) s1(3) [symmetric]
    by (simp_all add: conn_inv_def unread_def)
  with s1(1,2) peek skip show ?thesis
    by (cases "take 24 (unread s) = HTTP2_CLIENT_PREFACE"; cases s1) (auto simp: read_preface_def len Let_def)
qed

end

context frame_codec
begin

lemma enc_sendable:
  "canon x \<Longrightarrow> length (payload (enc x)) \<le> cap \<Longrightarrow> length (payload (enc x)) < 2 ^ 24 \<Longrightarrow>
   sendable cap (enc x)"
  by (simp add: sendable_def enc_accepted enc_stream)

end

section \<open>Properties\<close>

text \<open>What is unread of a peer that sends its bytes in arbitrary pieces, from a fresh buffer.\<close>

abbreviation wire_state :: "nat \<Rightarrow> byte list list \<Rightarrow> buffer \<times> byte list list" where
  "wire_state cap pieces \<equiv> (with_capacity cap, pieces)"

lemma wire_state_inv: "conn_inv cap (wire_state cap pieces)"
  by (simp add: conn_inv_def buffer_ops)

lemma wire_state_unread: "chunk_source.unread (wire_state cap pieces) = concat pieces"
  by (simp add: chunk_source.unread_def buffer_ops)

text \<open>
  C1. Frames written one after the other are read back, all of them and in order, however the
  connection cuts the bytes into pieces, as long as each fits the receive buffer; the bytes after
  the last one stay unread.
\<close>

theorem frames_read_back:
  assumes "9 \<le> cap" "\<forall>f\<in>set fs. sendable cap f"
    and "concat pieces = concat (map write_frame fs) @ rest"
  shows "\<exists>b pieces'. read_frames chunk_reader (length fs) (with_capacity cap, pieces) =
      (Ok fs, (b, pieces')) \<and> view b @ concat pieces' = rest"
proof -
  obtain s' where "read_frames chunk_reader (length fs) (wire_state cap pieces) = (Ok fs, s')"
    "chunk_source.unread s' = rest"
    using chunk_source.read_frames_ok [OF wire_state_inv assms(1,2), of pieces rest] assms(3)
    by (auto simp: wire_state_unread)
  then show ?thesis by (cases s') (simp add: chunk_source.unread_def)
qed

lemma example_frames_sendable:
  "sendable 16 (mk_frame FT_Ping 0 0 [1, 2, 3, 4, 5, 6, 7, 8])"
  "sendable 16 (mk_frame FT_WindowUpdate 0 3 [0, 0, 0, 9])"
  by (simp_all add: sendable_def mk_frame_def raw_of_def frame_from_header_and_payload_def header_checks
      from_bits_truncate_def STREAM_ID_LIMIT_def)

lemma example_frames_bytes:
  "write_frame (mk_frame FT_Ping 0 0 [1, 2, 3, 4, 5, 6, 7, 8]) =
     [0, 0, 8, 6, 0, 0, 0, 0, 0, 1, 2, 3, 4, 5, 6, 7, 8]"
  "write_frame (mk_frame FT_WindowUpdate 0 3 [0, 0, 0, 9]) = [0, 0, 4, 8, 0, 0, 0, 0, 3, 0, 0, 0, 9]"
  by (simp_all add: write_frame_eq len24_def u32_bytes_def to_be_numeral mk_frame_def)

theorem frames_read_back_witness:
  "\<exists>b pieces'. read_frames chunk_reader (length
      [mk_frame FT_Ping 0 0 [1, 2, 3, 4, 5, 6, 7, 8], mk_frame FT_WindowUpdate 0 3 [0, 0, 0, 9]])
      (with_capacity 16, [[0, 0, 8, 6], [0, 0, 0, 0, 0, 1, 2, 3, 4, 5, 6, 7], [8, 0, 0, 4, 8, 0, 0, 0, 0, 3],
        [0, 0, 0, 9, 42]]) =
    (Ok [mk_frame FT_Ping 0 0 [1, 2, 3, 4, 5, 6, 7, 8], mk_frame FT_WindowUpdate 0 3 [0, 0, 0, 9]],
     (b, pieces')) \<and> view b @ concat pieces' = [42]"
  by (rule frames_read_back) (simp_all add: example_frames_sendable example_frames_bytes)

text \<open>
  A frame larger than the receive buffer is refused with a connection error, whatever the
  pieces it arrives in: the reader neither waits for ever nor writes past the buffer.
\<close>

lemma oversized_frame_refused:
  assumes "9 \<le> cap" "cap < length (payload f)" "length (payload f) < 2 ^ 24"
    and "fstream (header f) < STREAM_ID_LIMIT" "concat pieces = write_frame f @ rest"
  shows "fst (read_next_frame chunk_reader (with_capacity cap, pieces)) = Err (ConnErr ProtocolError)"
  using chunk_source.read_next_frame_too_large [OF wire_state_inv assms(1) _ assms(2-4), of pieces rest]
    assms(5) by (simp add: wire_state_unread)

text \<open>
  The connection preface is accepted exactly when the first 24 bytes of the peer are the
  preface, in whatever pieces they come, and exactly these bytes are consumed.
\<close>

lemma preface_accepted_iff:
  assumes "24 \<le> cap" "24 \<le> length (concat pieces)"
  shows "\<exists>b pieces'. read_preface chunk_reader (with_capacity cap, pieces) =
      (if take 24 (concat pieces) = HTTP2_CLIENT_PREFACE then Ok ()
       else Err (IoError InvalidData ''Invalid H2 preface was send.''), (b, pieces')) \<and>
    (take 24 (concat pieces) = HTTP2_CLIENT_PREFACE \<longrightarrow>
       view b @ concat pieces' = drop 24 (concat pieces))"
proof -
  let ?ok = "take 24 (concat pieces) = HTTP2_CLIENT_PREFACE"
  obtain s' where s': "read_preface chunk_reader (wire_state cap pieces) =
      (if ?ok then Ok () else Err (IoError InvalidData ''Invalid H2 preface was send.''), s')"
    "?ok \<longrightarrow> chunk_source.unread s' = drop 24 (concat pieces)"
    using chunk_source.read_preface_result [OF wire_state_inv assms(1), of pieces] assms(2)
    unfolding wire_state_unread by blast
  then show ?thesis
    by (intro exI [of _ "fst s'"] exI [of _ "snd s'"]) (simp add: chunk_source.unread_def)
qed

text \<open>
  C2. Abandoning \<open>read_next_frame\<close> loses the frame header: when the header of a frame has arrived
  and its payload has not, and another branch of the \<open>select!\<close> is ready (the flush timer ticks
  every ten milliseconds), the header is gone and the payload is read as the next frame. Whoever
  chooses the bytes of the payload chooses that frame.
\<close>

theorem abandoned_read_injects_frame:
  assumes cap: "9 \<le> cap" and f: "length (payload f) < 2 ^ 24" "fstream (header f) < STREAM_ID_LIMIT"
    and g: "payload f = write_frame g" "sendable cap g"
  shows "\<exists>s'. abandoned chunk_reader (with_capacity cap, [take 9 (write_frame f), payload f]) s' \<and>
    fst (read_next_frame chunk_reader s') = Ok g"
proof -
  let ?h = "take 9 (write_frame f)"
  have h: "length ?h = 9" "write_frame f = ?h @ payload f"
    using length_write_frame [OF f(1)] drop_write_frame [OF f(1), of "[]"]
      append_take_drop_id [of 9 "write_frame f"] by auto
  have inv: "buffer_inv (with_capacity cap)" "view (with_capacity cap) = []"
    "buffer_capacity (with_capacity cap) = cap" by (simp_all add: buffer_ops)
  have "chunk_reader (buffer_capacity (with_capacity cap) - length (view (with_capacity cap)))
      [?h, payload f] = (Ok ?h, [payload f])"
    using h(1) cap inv by auto
  from read_from_reader_Ok [OF inv(1) chunk_source.bounded this] obtain b where
    b: "read_from_reader chunk_reader (with_capacity cap) [?h, payload f] = (Ok 9, b, [payload f])"
    "buffer_inv b" "view b = ?h" "buffer_capacity b = cap"
    using inv h(1) by auto
  let ?b = "rotate_buffer (progress 9 b)"
  have b': "buffer_inv ?b" "view ?b = []" "buffer_capacity ?b = cap"
    using progress_ops [OF b(2), of 9] rotate_buffer_ops [of "progress 9 b"] b(3,4) h(1) by simp_all
  have "fill chunk_reader 9 False (ConnErr ProtocolError) (\<lambda>_. ConnErr ProtocolError)
      (with_capacity cap, [?h, payload f]) = (Ok (), (b, [payload f]))"
    using b h(1) inv length_view [OF inv(1)] length_view [OF b(2)]
    by (simp add: fill.simps)
  moreover have "raw_from_slice ?h = Ok (raw_of f)"
    using raw_from_slice_write_frame [OF f, of "[]"] raw_from_slice_prefix [of ?h "payload f"] h
    by simp
  then have "peek raw_from_slice (b, [payload f]) = (Ok (raw_of f), (b, [payload f]))"
    using b(3) by (simp add: peek_def as_ref_view [OF b(2)])
  ultimately have rh: "read_header chunk_reader (with_capacity cap, [?h, payload f]) =
      (Ok (raw_of f), (?b, [payload f]))"
    by (simp add: read_header_def consume_def)
  have "unat (raw_length (raw_of f)) = length (payload f)"
    using f(1) by (simp add: raw_of_def unat_of_nat)
  then have "0 < unat (raw_length (raw_of f))"
    using f(1) g by (simp add: length_write_frame sendable_def)
  then have "partial_fill chunk_reader (unat (raw_length (raw_of f))) True (?b, [payload f]) (?b, [payload f])"
    using b' cap length_view [OF b'(1)] available_for_write_eq [OF b'(1)]
    by (intro partial_fill.waiting) auto
  with rh have "abandoned chunk_reader (with_capacity cap, [?h, payload f]) (?b, [payload f])"
    by (rule abandoned.in_payload)
  moreover have "conn_inv cap (?b, [payload f])" "chunk_source.unread (?b, [payload f]) = write_frame g @ []"
    using b' g(1) by (simp_all add: conn_inv_def chunk_source.unread_def)
  ultimately show ?thesis
    using chunk_source.read_next_frame_ok [OF _ cap _ g(2)] by (metis fst_conv)
qed

theorem abandoned_read_injects_frame_witness:
  "\<exists>s'. abandoned chunk_reader (with_capacity 32,
      [take 9 (write_frame (mk_frame FT_Data 0 1 (write_frame (mk_frame FT_WindowUpdate 0 0 [0, 0, 0, 1])))),
       write_frame (mk_frame FT_WindowUpdate 0 0 [0, 0, 0, 1])]) s' \<and>
    fst (read_next_frame chunk_reader s') = Ok (mk_frame FT_WindowUpdate 0 0 [0, 0, 0, 1])"
  using abandoned_read_injects_frame [of 32
      "mk_frame FT_Data 0 1 (write_frame (mk_frame FT_WindowUpdate 0 0 [0, 0, 0, 1]))"
      "mk_frame FT_WindowUpdate 0 0 [0, 0, 0, 1]"]
  by (simp add: sendable_def frame_from_header_and_payload_def header_checks from_bits_truncate_def
      STREAM_ID_LIMIT_def length_write_frame mk_frame_def raw_of_def)

end
