(* ===== verification/Http_Parse.thy ===== *)
theory Http_Parse
  imports Prelude
begin

text \<open>
  \<open>src/src/parse.rs\<close>: the byte classes, the functions that look for the end of a syntactic
  element in a partly filled buffer, and the parsers of the start line, of a header line and of
  a chunk header. A search answers \<open>Ok(Some(idx))\<close>, \<open>Ok(None)\<close> when more bytes are needed, or an
  error. What the parsers ask of the \<open>http\<close> crate (\<open>Method::from_bytes\<close>, \<open>Uri::try_from\<close>,
  \<open>HeaderName::from_bytes\<close>, \<open>HeaderValue::from_bytes\<close>) is a parameter of the definitions.
\<close>

section \<open>Byte classes\<close>

abbreviation CR :: byte where "CR \<equiv> 13"
abbreviation NL :: byte where "NL \<equiv> 10"
abbreviation SP :: byte where "SP \<equiv> 32"
abbreviation HTAB :: byte where "HTAB \<equiv> 9"
abbreviation DQ :: byte where "DQ \<equiv> 34"
abbreviation COLON :: byte where "COLON \<equiv> 58"
abbreviation SEMICOLON :: byte where "SEMICOLON \<equiv> 59"
abbreviation EQUALS :: byte where "EQUALS \<equiv> 61"

definition CRNL :: "byte list" where "CRNL = [CR, NL]"
definition HTTP1 :: "byte list" where "HTTP1 = bytes_of ''HTTP/1.0''"
definition HTTP1_1 :: "byte list" where "HTTP1_1 = bytes_of ''HTTP/1.1''"
definition HTTP2 :: "byte list" where "HTTP2 = bytes_of ''HTTP/2.0''"

definition is_char :: "byte \<Rightarrow> bool" where "is_char b \<longleftrightarrow> 128 > b"

definition is_ctl :: "byte \<Rightarrow> bool" where "is_ctl b \<longleftrightarrow> 32 \<ge> b \<or> b = 127"

definition is_hex :: "byte \<Rightarrow> bool" where
  "is_hex b \<longleftrightarrow> b \<ge> 97 \<and> 102 \<ge> b \<or> b \<ge> 65 \<and> 70 \<ge> b \<or> b \<ge> 48 \<and> 57 \<ge> b"

definition is_lws :: "byte \<Rightarrow> bool" where "is_lws b \<longleftrightarrow> b = SP \<or> b = HTAB"

definition is_lws_full :: "byte \<Rightarrow> bool" where
  "is_lws_full b \<longleftrightarrow> b = CR \<or> b = NL \<or> b = SP \<or> b = HTAB"

definition is_text :: "byte \<Rightarrow> bool" where "is_text b \<longleftrightarrow> b > 31 \<and> 127 > b \<or> b > 159"

text \<open>\<open>( ) < > @ , ; : \ " / [ ] ? = { }\<close>, space and tab.\<close>

definition is_seperator :: "byte \<Rightarrow> bool" where
  "is_seperator b \<longleftrightarrow> b \<in> {40, 41, 60, 62, 64, 44, SEMICOLON, COLON, 92, DQ, 47, 91, 93, 63,
     EQUALS, 123, 125, SP, HTAB}"

definition is_token :: "byte \<Rightarrow> bool" where
  "is_token b \<longleftrightarrow> is_char b \<and> \<not> is_ctl b \<and> \<not> is_seperator b"

lemmas byte_class_defs =
  is_char_def is_ctl_def is_hex_def is_lws_def is_lws_full_def is_text_def is_seperator_def

section \<open>Searches\<close>

text \<open>
  The loop that \<open>find_next_sp\<close>, \<open>find_text_end\<close>, \<open>find_hex_end\<close> and \<open>find_token_end\<close> share:
  the first index from \<open>idx\<close> on whose byte satisfies the test.
\<close>

function scan_until :: "(byte \<Rightarrow> bool) \<Rightarrow> byte list \<Rightarrow> nat \<Rightarrow> nat option" where
  "scan_until stop buf idx =
     (if length buf > idx
      then (if stop (buf ! idx) then Some idx else scan_until stop buf (idx + 1))
      else None)"
  by pat_completeness auto
termination
  by (relation "measure (\<lambda>(stop, buf, idx). length buf - idx)") auto

declare scan_until.simps [simp del]

definition find_next_sp :: "byte list \<Rightarrow> nat option io" where
  "find_next_sp buf = (if buf = [] then Ok None else Ok (scan_until (\<lambda>b. b = SP) buf 0))"

definition find_text_end :: "byte list \<Rightarrow> nat option io" where
  "find_text_end buf = (if buf = [] then Ok None else Ok (scan_until (\<lambda>b. \<not> is_text b) buf 0))"

definition find_hex_end :: "byte list \<Rightarrow> nat option io" where
  "find_hex_end buf = (if buf = [] then Ok None else Ok (scan_until (\<lambda>b. \<not> is_hex b) buf 0))"

definition find_token_end :: "byte list \<Rightarrow> nat option io" where
  "find_token_end buf = (if buf = [] then Ok None else Ok (scan_until (\<lambda>b. \<not> is_token b) buf 0))"

text \<open>
  The interface of these four searches: each answers the length of the longest prefix of a byte
  class, when a byte outside the class ends it.
\<close>

locale class_scanner =
  fixes member :: "byte \<Rightarrow> bool"
    and find_end :: "byte list \<Rightarrow> nat option io"
  assumes find_end_spec: "find_end buf =
    Ok (let n = length (takeWhile member buf) in if n < length buf then Some n else None)"
begin

lemma find_end_Some_iff:
  "find_end buf = Ok (Some n) \<longleftrightarrow> n < length buf \<and> (\<forall>k<n. member (buf ! k)) \<and> \<not> member (buf ! n)"
proof
  assume "find_end buf = Ok (Some n)"
  then have n: "n = length (takeWhile member buf)" "n < length buf"
    by (auto simp: find_end_spec Let_def split: if_splits)
  then show "n < length buf \<and> (\<forall>k<n. member (buf ! k)) \<and> \<not> member (buf ! n)"
    using nth_length_takeWhile [of member buf] set_takeWhileD [OF nth_mem, of _ member buf]
    by (auto simp: takeWhile_nth)
next
  assume n: "n < length buf \<and> (\<forall>k<n. member (buf ! k)) \<and> \<not> member (buf ! n)"
  then have "length (takeWhile member buf) = n"
    using takeWhile_eq_take_P_nth [of n buf member] by (simp add: min_def)
  with n show "find_end buf = Ok (Some n)" by (simp add: find_end_spec)
qed

lemma find_end_None_iff: "find_end buf = Ok None \<longleftrightarrow> (\<forall>b\<in>set buf. member b)"
proof -
  have "length (takeWhile member buf) < length buf \<longleftrightarrow> takeWhile member buf \<noteq> buf"
    using length_takeWhile_le [of member buf] takeWhile_eq_take [of member buf]
    by (metis nat_less_le take_all_iff order_refl)
  moreover have "takeWhile member buf = buf \<longleftrightarrow> (\<forall>b\<in>set buf. member b)"
    by (rule takeWhile_eq_all_conv)
  ultimately show ?thesis
    unfolding find_end_spec Let_def by (simp only: outcome.inject split: if_split) blast
qed

lemma find_end_prefix:
  "\<forall>b\<in>set xs. member b \<Longrightarrow> \<not> member y \<Longrightarrow> find_end (xs @ y # ys) = Ok (Some (length xs))"
  by (simp add: find_end_spec takeWhile_append)

lemma find_end_pos:
  "find_end (drop i buf) = Ok (Some n) \<Longrightarrow> i < length buf \<Longrightarrow> member (buf ! i) \<Longrightarrow> 0 < n"
  by (auto simp: find_end_Some_iff intro: Nat.gr0I)

end

lemma scan_until_eq:
  "i \<le> length buf \<Longrightarrow> scan_until stop buf i =
     (let n = i + length (takeWhile (\<lambda>b. \<not> stop b) (drop i buf))
      in if n < length buf then Some n else None)"
proof (induction stop buf i rule: scan_until.induct)
  case (1 stop buf i)
  show ?case
  proof (cases "i < length buf")
    case True
    then have "drop i buf = buf ! i # drop (i + 1) buf"
      by (simp add: Cons_nth_drop_Suc)
    with 1 True show ?thesis
      by (cases "stop (buf ! i)") (simp_all add: scan_until.simps [of stop buf i] Let_def)
  next
    case False
    then show ?thesis by (subst scan_until.simps) simp
  qed
qed

lemma scan_from_0: "scan_until stop buf 0 =
    (let n = length (takeWhile (\<lambda>b. \<not> stop b) buf) in if n < length buf then Some n else None)"
  using scan_until_eq [of 0 buf stop] by simp

interpretation text_scan: class_scanner is_text find_text_end
  by unfold_locales (simp add: find_text_end_def scan_from_0)

interpretation hex_scan: class_scanner is_hex find_hex_end
  by unfold_locales (simp add: find_hex_end_def scan_from_0)

interpretation token_scan: class_scanner is_token find_token_end
  by unfold_locales (simp add: find_token_end_def scan_from_0)

interpretation word_scan: class_scanner "\<lambda>b. b \<noteq> SP" find_next_sp
  by unfold_locales (simp add: find_next_sp_def scan_from_0)

function start_line_loop :: "byte list \<Rightarrow> nat \<Rightarrow> nat option io" where
  "start_line_loop buf idx =
     (if length buf > idx + 1
      then
        if buf ! idx = CR
        then
          if buf ! (idx + 1) = NL then Ok (Some (idx + 2))
          else Err (IoError InvalidData ''The start line had a CR that was not followed by NL.'')
        else start_line_loop buf (idx + 1)
      else Ok None)"
  by pat_completeness auto
termination
  by (relation "measure (\<lambda>(buf, idx). length buf - idx)") auto

declare start_line_loop.simps [simp del]

definition find_start_line_end :: "byte list \<Rightarrow> nat option io" where
  "find_start_line_end buf = (if buf = [] then Ok None else start_line_loop buf 0)"

function header_end_loop :: "byte list \<Rightarrow> nat \<Rightarrow> nat option io" where
  "header_end_loop buf idx =
     (if length buf > idx + 2
      then
        if buf ! idx = CR
        then
          if buf ! (idx + 1) = NL
          then
            if is_lws (buf ! (idx + 2)) then header_end_loop buf (idx + 3)
            else Ok (Some (idx + 2))
          else Err (IoError InvalidData ''A CR was not followed by NL.'')
        else header_end_loop buf (idx + 1)
      else Ok None)"
  by pat_completeness auto
termination
  by (relation "measure (\<lambda>(buf, idx). length buf - idx)") auto

declare header_end_loop.simps [simp del]

definition find_header_end :: "byte list \<Rightarrow> nat option io" where
  "find_header_end buf =
     (if buf = [] then Ok None
      else if buf ! 0 = CR then Err (IoError InvalidData ''The header started with a CR.'')
      else header_end_loop buf 1)"

definition find_lws_end :: "byte list \<Rightarrow> nat option io" where
  "find_lws_end buf =
     (if buf = [] then Ok None
      else if buf ! 0 = CR
      then
        if 3 > length buf then Ok None
        else if buf ! 1 \<noteq> NL
        then Err (IoError InvalidData ''LWS had a CR that was not followed by a NL.'')
        else if \<not> is_lws (buf ! 2) then Ok (Some 0)
        else Ok (scan_until (\<lambda>b. \<not> is_lws b) buf 3)
      else Ok (scan_until (\<lambda>b. \<not> is_lws b) buf 0))"

function multi_lws_loop :: "byte list \<Rightarrow> nat \<Rightarrow> nat option io" where
  "multi_lws_loop buf idx =
     (if length buf > idx
      then
        case find_lws_end (drop idx buf) of
          Ok (Some new_idx) \<Rightarrow>
            if new_idx > 0 then multi_lws_loop buf (idx + new_idx) else Ok (Some idx)
        | Ok None \<Rightarrow> Ok None
        | Err e \<Rightarrow> Err e
        | Panic \<Rightarrow> Panic
      else Ok (Some idx))"
  by pat_completeness auto
termination
  by (relation "measure (\<lambda>(buf, idx). length buf - idx)") auto

declare multi_lws_loop.simps [simp del]

definition find_multi_lws_end :: "byte list \<Rightarrow> nat option io" where
  "find_multi_lws_end buf = (if buf = [] then Ok None else multi_lws_loop buf 0)"

text \<open>\<open>ignore_next\<close> is the code's flag for the byte after a backslash.\<close>

function quoted_loop :: "byte list \<Rightarrow> nat \<Rightarrow> bool \<Rightarrow> nat option io" where
  "quoted_loop buf idx ignore_next =
     (if length buf > idx
      then
        let b = buf ! idx in
        if ignore_next then quoted_loop buf (idx + 1) False
        else if is_text b \<and> b \<noteq> DQ then quoted_loop buf (idx + 1) ignore_next
        else if b = DQ then Ok (Some (idx + 1))
        else Err (IoError InvalidData ''Invalid quoted-string.'')
      else Ok None)"
  by pat_completeness auto
termination
  by (relation "measure (\<lambda>(buf, idx, ignore_next). length buf - idx)") auto

declare quoted_loop.simps [simp del]

definition find_quoted_string_end :: "byte list \<Rightarrow> nat option io" where
  "find_quoted_string_end buf =
     (if buf = [] then Ok None
      else if buf ! 0 \<noteq> DQ
      then Err (IoError InvalidData ''Quoted-string did not start with a '\"'.'')
      else quoted_loop buf 0 False)"

definition find_chunk_header_extension_end :: "byte list \<Rightarrow> nat option io" where
  "find_chunk_header_extension_end buf =
     (if buf = [] then Ok None
      else if buf ! 0 \<noteq> SEMICOLON
      then Err (IoError InvalidData
        ''Chunked-Encoding error: chunk-extension did not start with ';'.'')
      else
        obind (find_token_end (drop 1 buf)) (\<lambda>r. case r of
          None \<Rightarrow> Ok None
        | Some idx \<Rightarrow>
            if idx + 1 \<ge> length buf then Ok None
            else if buf ! idx \<noteq> EQUALS
            then Err (IoError InvalidData
              ''Chunked-Encoding error: chunk-extension did not contain the '='.'')
            else if buf ! (idx + 1) = DQ then find_quoted_string_end (drop (idx + 1) buf)
            else find_token_end (drop (idx + 1) buf)))"

text \<open>
  The name of an extension is searched from index 1 on, but the index found is used from index 0
  on: the byte compared with \<open>=\<close> is the last one of the name, or the semicolon itself. So no
  extension is ever accepted.
\<close>

lemma extension_never_ends: "find_chunk_header_extension_end buf \<noteq> Ok (Some n)"
proof
  assume "find_chunk_header_extension_end buf = Ok (Some n)"
  then obtain idx where buf: "buf \<noteq> []" "buf ! 0 = SEMICOLON"
    and tok: "find_token_end (drop 1 buf) = Ok (Some idx)"
    and eq: "idx + 1 < length buf" "buf ! idx = EQUALS"
    by (auto simp: find_chunk_header_extension_end_def split: if_splits option.splits)
  have "\<not> is_token EQUALS" by (simp add: is_token_def is_seperator_def)
  moreover have "is_token (drop 1 buf ! k)" if "k < idx" for k
    using tok that by (simp add: token_scan.find_end_Some_iff)
  ultimately show False
    using buf eq by (cases idx) (auto simp: nth_drop, metis lessI)
qed

text \<open>The loop over the extensions.\<close>

function chunk_header_loop :: "byte list \<Rightarrow> nat \<Rightarrow> nat option io" where
  "chunk_header_loop buf idx =
     (if length buf > idx
      then
        let b = buf ! idx in
        if b = SEMICOLON
        then
          case find_chunk_header_extension_end (drop idx buf) of
            Ok (Some end) \<Rightarrow> chunk_header_loop buf (idx + end)
          | Ok None \<Rightarrow> Ok None
          | Err e \<Rightarrow> Err e
          | Panic \<Rightarrow> Panic
        else if b = CR \<and> idx + 1 \<ge> length buf then Ok None
        else if b = CR \<and> buf ! (idx + 1) = NL then Ok (Some (idx + 2))
        else Err (IoError InvalidData ''Chunked-Encoding error: Invalid chunk header!'')
      else Ok None)"
  by pat_completeness auto
termination
  by (relation "measure (\<lambda>(buf, idx). length buf - idx)")
    (auto simp: extension_never_ends)

declare chunk_header_loop.simps [simp del]

definition find_chunk_header_end :: "byte list \<Rightarrow> nat option io" where
  "find_chunk_header_end buf =
     (if buf = [] then Ok None
      else if \<not> is_hex (buf ! 0)
      then Err (IoError InvalidData ''Chunked-Encoding error: First char as not hex!'')
      else
        obind (find_hex_end buf) (\<lambda>r. case r of
          None \<Rightarrow> Ok None
        | Some idx \<Rightarrow> if idx \<ge> length buf then Ok None else chunk_header_loop buf idx))"

section \<open>Parsers\<close>

datatype version = HTTP_10 | HTTP_11 | HTTP_2

text \<open>
  \<open>parse_start_line2\<close> gets the line with its CRNL. \<open>from_bytes\<close> and \<open>try_from\<close> are
  \<open>http::Method::from_bytes\<close> and \<open>http::Uri::try_from\<close>.
\<close>

definition parse_version :: "byte list \<Rightarrow> version" where
  "parse_version v =
     (if v = HTTP1 then HTTP_10 else if v = HTTP1_1 then HTTP_11 else if v = HTTP2 then HTTP_2
      else HTTP_11)"

definition parse_start_line2 ::
  "(byte list \<Rightarrow> 'm option) \<Rightarrow> (byte list \<Rightarrow> 'u option) \<Rightarrow> byte list
    \<Rightarrow> ('m \<times> 'u \<times> version) io" where
  "parse_start_line2 from_bytes try_from buf =
     (if buf = [] then Err (IoError InvalidData ''Start line do not contain a SP.'')
      else obind (find_next_sp buf) (\<lambda>sp1. case sp1 of
        None \<Rightarrow> Err (IoError InvalidData ''Start line do not contain a SP.'')
      | Some end1 \<Rightarrow>
          if end1 + 1 \<ge> length buf then Err (IoError InvalidData ''Start line ended early.'')
          else case from_bytes (take end1 buf) of
            None \<Rightarrow> Err (IoError InvalidData ''Invalid http method.'')
          | Some method \<Rightarrow>
              let start = end1 + 1 in
              obind (find_next_sp (drop start buf)) (\<lambda>sp2. case sp2 of
                None \<Rightarrow> Err (IoError InvalidData ''Start line do not contain a second SP.'')
              | Some idx \<Rightarrow>
                  let end2 = start + idx in
                  if end2 + 8 \<ge> length buf
                  then Err (IoError InvalidData ''Start line ended early.'')
                  else case try_from (take (end2 - start) (drop start buf)) of
                    None \<Rightarrow> Err (IoError InvalidData ''URI was invalid.'')
                  | Some uri \<Rightarrow>
                      obind (slice (end2 + 1) (length buf - 2) buf) (\<lambda>version.
                      Ok (method, uri, parse_version version)))))"

text \<open>
  The loop of \<open>parse_request_header_new\<close> over the header's value: stretches of text are values,
  linear white space (a line break followed by white space included) separates them, and the
  line end stops the loop. \<open>to_value\<close> is \<open>HeaderValue::from_bytes\<close>.
\<close>

function header_value_loop ::
  "(byte list \<Rightarrow> 'v option) \<Rightarrow> byte list \<Rightarrow> nat \<Rightarrow> 'v list \<Rightarrow> 'v list io" where
  "header_value_loop to_value buf idx values =
     (if length buf > idx
      then
        if is_text (buf ! idx)
        then
          case find_text_end (drop idx buf) of
            Ok (Some n) \<Rightarrow>
              (case to_value (take n (drop idx buf)) of
                 None \<Rightarrow> Err (IoError InvalidData ''The header name was invalid.'')
               | Some v \<Rightarrow> header_value_loop to_value buf (idx + n) (values @ [v]))
          | Ok None \<Rightarrow> Err (IoError Other ''Implementation error. (invalid header 5)'')
          | Err e \<Rightarrow> Err e
          | Panic \<Rightarrow> Panic
        else if is_lws_full (buf ! idx)
        then
          case find_multi_lws_end (drop idx buf) of
            Ok (Some end) \<Rightarrow>
              if end > 0 then header_value_loop to_value buf (idx + end) values else Ok values
          | Ok None \<Rightarrow> Err (IoError Other ''Implementation error. (invalid header 6)'')
          | Err e \<Rightarrow> Err e
          | Panic \<Rightarrow> Panic
        else Err (IoError Other ''Implementation error. (invalid header 7)'')
      else Err (IoError Other ''Implementation error. (invalid header 8)''))"
  by pat_completeness auto
termination
  by (relation "measure (\<lambda>(to_value, buf, idx, values). length buf - idx)")
    (auto dest: text_scan.find_end_pos)

declare header_value_loop.simps [simp del]

text \<open>\<open>to_name\<close> is \<open>HeaderName::from_bytes\<close>.\<close>

definition parse_request_header_new ::
  "(byte list \<Rightarrow> 'n option) \<Rightarrow> (byte list \<Rightarrow> 'v option) \<Rightarrow> byte list \<Rightarrow> ('n \<times> 'v list) io" where
  "parse_request_header_new to_name to_value buf =
     (if buf = [] then Err (IoError Other ''Implementation error. (invalid header 1)'')
      else if \<not> is_token (buf ! 0)
      then Err (IoError Other
        ''Implementation error. (the header name did not start with a token)'')
      else obind (find_token_end buf) (\<lambda>r. case r of
        None \<Rightarrow> Err (IoError Other ''Implementation error. (invalid header 2)'')
      | Some idx \<Rightarrow>
          (case to_name (take idx buf) of
             None \<Rightarrow> Err (IoError InvalidData ''The header name was invalid.'')
           | Some name \<Rightarrow>
               if idx + 1 \<ge> length buf
               then Err (IoError Other ''Implementation error. (invalid header 3)'')
               else if buf ! idx \<noteq> COLON
               then Err (IoError InvalidData ''The header name token was not followed by a ':'.'')
               else obind (find_multi_lws_end (drop (idx + 1) buf)) (\<lambda>r. case r of
                 None \<Rightarrow> Err (IoError Other ''Implementation error. (invalid header 4)'')
               | Some new_idx \<Rightarrow>
                   obind (header_value_loop to_value buf (idx + new_idx + 1) []) (\<lambda>values.
                   Ok (name, values))))))"

text \<open>
  \<open>parse_hex_byte\<close> and \<open>parse_hex\<close> compute in \<open>usize\<close>, 64 bits wide. The digits come from the
  client, so the shift and the sum are modelled in both build profiles: with overflow checks
  they panic; without, the shift amount is taken modulo 64 and the sum wraps.
\<close>

definition parse_hex_byte :: "byte \<Rightarrow> u64 io" where
  "parse_hex_byte b =
     (if 48 \<le> b \<and> b \<le> 57 then Ok (ucast (b - 48))
      else if b = 97 \<or> b = 65 then Ok 10
      else if b = 98 \<or> b = 66 then Ok 11
      else if b = 99 \<or> b = 67 then Ok 12
      else if b = 100 \<or> b = 68 then Ok 13
      else if b = 101 \<or> b = 69 then Ok 14
      else if b = 102 \<or> b = 70 then Ok 15
      else Err (IoError InvalidData ''Invalid hex char!''))"

definition usize_shl :: "profile \<Rightarrow> u64 \<Rightarrow> nat \<Rightarrow> u64 io" where
  "usize_shl p x i =
     (if i < 64 then Ok (push_bit i x)
      else case p of Debug \<Rightarrow> Panic | Release \<Rightarrow> Ok (push_bit (i mod 64) x))"

definition usize_add :: "profile \<Rightarrow> u64 \<Rightarrow> u64 \<Rightarrow> u64 io" where
  "usize_add p a b =
     (if unat a + unat b < 2 ^ 64 then Ok (a + b)
      else case p of Debug \<Rightarrow> Panic | Release \<Rightarrow> Ok (a + b))"

fun parse_hex_loop :: "profile \<Rightarrow> byte list \<Rightarrow> nat \<Rightarrow> nat \<Rightarrow> u64 \<Rightarrow> u64 io" where
  "parse_hex_loop p buf idx i tot =
     obind (parse_hex_byte (buf ! idx)) (\<lambda>digit.
     obind (usize_shl p digit i) (\<lambda>num.
     obind (usize_add p tot num) (\<lambda>tot'.
       if idx = 0 then Ok tot' else parse_hex_loop p buf (idx - 1) (i + 4) tot')))"

declare parse_hex_loop.simps [simp del]

definition parse_hex :: "profile \<Rightarrow> byte list \<Rightarrow> u64 io" where
  "parse_hex p buf =
     (if buf = [] then Err (IoError InvalidInput ''Empty buffer.'')
      else parse_hex_loop p buf (length buf - 1) 0 0)"

definition parse_chunk_header :: "profile \<Rightarrow> byte list \<Rightarrow> u64 io" where
  "parse_chunk_header p buf =
     (if buf = [] then Err (IoError InvalidInput ''Empty buffer.'')
      else obind (find_hex_end buf) (\<lambda>r. case r of
        None \<Rightarrow> Err (IoError Other ''Implementation error.'')
      | Some idx \<Rightarrow> parse_hex p (take idx buf)))"

section \<open>Facts about the searches\<close>

text \<open>A stretch without CR is skipped, whichever loop runs over it.\<close>

lemma start_line_skip:
  "i \<le> j \<Longrightarrow> j + 1 < length buf \<Longrightarrow> \<forall>k. i \<le> k \<longrightarrow> k < j \<longrightarrow> buf ! k \<noteq> CR \<Longrightarrow>
   start_line_loop buf i = start_line_loop buf j"
proof (induction rule: inc_induct)
  case (step n)
  then show ?case by (simp add: start_line_loop.simps [of buf n])
qed simp

lemma header_end_skip:
  "i \<le> j \<Longrightarrow> j + 2 < length buf \<Longrightarrow> \<forall>k. i \<le> k \<longrightarrow> k < j \<longrightarrow> buf ! k \<noteq> CR \<Longrightarrow>
   header_end_loop buf i = header_end_loop buf j"
proof (induction rule: inc_induct)
  case (step n)
  then show ?case by (simp add: header_end_loop.simps [of buf n])
qed simp

lemma find_start_line_end_at:
  assumes "CR \<notin> set line"
  shows "find_start_line_end (line @ CR # NL # rest) = Ok (Some (length line + 2))"
proof -
  let ?buf = "line @ CR # NL # rest"
  have "start_line_loop ?buf 0 = start_line_loop ?buf (length line)"
    using assms by (intro start_line_skip) (auto simp: nth_append dest: nth_mem)
  then show ?thesis
    by (simp add: find_start_line_end_def start_line_loop.simps [of ?buf "length line"] nth_append)
qed

lemma find_header_end_at:
  assumes "line \<noteq> []" "CR \<notin> set line" "\<not> is_lws c"
  shows "find_header_end (line @ CR # NL # c # rest) = Ok (Some (length line + 2))"
proof -
  let ?buf = "line @ CR # NL # c # rest"
  have "?buf ! 0 \<noteq> CR"
    using assms by (cases line) auto
  moreover have "header_end_loop ?buf 1 = header_end_loop ?buf (length line)"
    using assms by (intro header_end_skip) (auto simp: nth_append Suc_le_eq dest: nth_mem)
  ultimately show ?thesis
    using assms(3)
    by (simp add: find_header_end_def header_end_loop.simps [of ?buf "length line"] nth_append)
qed

lemma find_lws_end_line_end: "\<not> is_lws c \<Longrightarrow> find_lws_end (CR # NL # c # rest) = Ok (Some 0)"
  by (simp add: find_lws_end_def)

lemma find_lws_end_none: "b \<noteq> CR \<Longrightarrow> \<not> is_lws b \<Longrightarrow> find_lws_end (b # rest) = Ok (Some 0)"
  by (simp add: find_lws_end_def scan_from_0)

lemma find_lws_end_blank:
  "is_lws s \<Longrightarrow> \<not> is_lws b \<Longrightarrow> find_lws_end (s # b # rest) = Ok (Some 1)"
  by (auto simp: find_lws_end_def scan_from_0 is_lws_def Let_def)

lemma find_multi_lws_end_none:
  "find_lws_end buf = Ok (Some 0) \<Longrightarrow> buf \<noteq> [] \<Longrightarrow> find_multi_lws_end buf = Ok (Some 0)"
  by (simp add: find_multi_lws_end_def multi_lws_loop.simps)

lemma find_multi_lws_end_blank:
  assumes "is_lws s" "\<not> is_lws b" "b \<noteq> CR"
  shows "find_multi_lws_end (s # b # rest) = Ok (Some 1)"
  using find_lws_end_blank [OF assms(1,2), of rest] find_lws_end_none [OF assms(3,2), of rest]
  by (simp add: find_multi_lws_end_def multi_lws_loop.simps)

lemma text_not_lws_full [simp]: "is_text b \<Longrightarrow> b \<noteq> CR" "is_text b \<Longrightarrow> b \<noteq> NL" "is_text b \<Longrightarrow> b \<noteq> HTAB"
  by (auto simp: is_text_def)

lemma token_not_colon [simp]: "is_token b \<Longrightarrow> b \<noteq> COLON" "is_token b \<Longrightarrow> b \<noteq> CR"
  by (auto simp: is_token_def is_seperator_def is_ctl_def)

text \<open>
  A header value that is one stretch of text, up to a line end or a bare NL: whatever follows the
  NL is not looked at.
\<close>

lemma header_value_single:
  assumes v: "v \<noteq> []" "list_all is_text v" "to_value v = Some y"
    and stop: "\<not> is_text e" "is_lws_full e" "find_lws_end (e # rest) = Ok (Some 0)"
  shows "header_value_loop to_value (pre @ v @ e # rest) (length pre) [] = Ok [y]"
proof -
  let ?buf = "pre @ v @ e # rest"
  have first: "is_text (?buf ! length pre)"
    using v by (cases v) (simp_all add: nth_append)
  have "find_text_end (v @ e # rest) = Ok (Some (length v))"
    using v(2) stop(1) by (intro text_scan.find_end_prefix) (auto simp: list_all_iff)
  then have "header_value_loop to_value ?buf (length pre) [] =
      header_value_loop to_value ?buf (length pre + length v) [y]"
    using first v by (simp add: header_value_loop.simps [of to_value ?buf "length pre"])
  also have "?buf ! (length pre + length v) = e"
    by (simp add: nth_append)
  then have "header_value_loop to_value ?buf (length pre + length v) [y] = Ok [y]"
    using stop find_multi_lws_end_none [OF stop(3)]
    by (simp add: header_value_loop.simps [of to_value ?buf "length pre + length v"])
  finally show ?thesis .
qed

lemma parse_header_single:
  assumes name: "name \<noteq> []" "list_all is_token name" "to_name name = Some nm"
    and v: "v \<noteq> []" "list_all is_text v" "hd v \<noteq> SP" "to_value v = Some y"
    and stop: "\<not> is_text e" "is_lws_full e" "find_lws_end (e # rest) = Ok (Some 0)"
  shows "parse_request_header_new to_name to_value (name @ [COLON, SP] @ v @ e # rest) = Ok (nm, [y])"
proof -
  let ?buf = "name @ [COLON, SP] @ v @ e # rest"
  have tok0: "is_token (?buf ! 0)"
    using name by (cases name) auto
  have colon: "\<not> is_token COLON"
    by (simp add: is_token_def is_seperator_def)
  then have end_name: "find_token_end ?buf = Ok (Some (length name))"
    using name(2) token_scan.find_end_prefix [of name COLON "[SP] @ v @ e # rest"]
    by (simp add: list_all_iff)
  obtain b v' where v_eq: "v = b # v'" and b: "is_text b" "b \<noteq> SP"
    using v(1,2,3) by (cases v) auto
  then have "find_multi_lws_end (SP # v @ e # rest) = Ok (Some 1)"
    using find_multi_lws_end_blank [of SP b] by (simp add: is_lws_def)
  moreover have "header_value_loop to_value ?buf (length name + 2) [] = Ok [y]"
    using header_value_single [where to_value = to_value and pre = "name @ [COLON, SP]", OF v(1,2) v(4) stop]
    by simp
  ultimately show ?thesis
    using name tok0 end_name
    by (simp add: parse_request_header_new_def nth_append)
qed

section \<open>Hexadecimal numbers\<close>

text \<open>The number the digits spell, the reference for \<open>parse_hex\<close>.\<close>

definition hex_digit :: "byte \<Rightarrow> nat" where
  "hex_digit b = (if b \<le> 57 then unat b - 48 else if b \<le> 70 then unat b - 55 else unat b - 87)"

fun hex_value :: "byte list \<Rightarrow> nat" where
  "hex_value [] = 0"
| "hex_value (d # ds) = hex_digit d * 16 ^ length ds + hex_value ds"

lemma is_hex_cases:
  assumes "is_hex b"
  shows "b \<in> {48, 49, 50, 51, 52, 53, 54, 55, 56, 57, 65, 66, 67, 68, 69, 70,
    97, 98, 99, 100, 101, 102}"
  using assms unfolding is_hex_def by (simp add: word_le_nat_alt word_unat_eq_iff) arith

lemma hex_digit_less: "is_hex b \<Longrightarrow> hex_digit b < 16"
  using is_hex_cases [of b] by (auto simp: hex_digit_def)

lemma parse_hex_byte_digit: "is_hex b \<Longrightarrow> parse_hex_byte b = Ok (word_of_nat (hex_digit b))"
  using is_hex_cases [of b] by (auto simp: hex_digit_def parse_hex_byte_def)

lemma hex_value_bound: "list_all is_hex ds \<Longrightarrow> hex_value ds < 16 ^ length ds"
proof (induction ds)
  case (Cons d ds)
  then have "hex_digit d + 1 \<le> 16" "hex_value ds < 16 ^ length ds"
    using hex_digit_less [of d] by auto
  then have "(hex_digit d + 1) * 16 ^ length ds \<le> 16 * 16 ^ length ds"
    by (intro mult_le_mono1)
  moreover have "hex_value (d # ds) < (hex_digit d + 1) * 16 ^ length ds"
    using \<open>hex_value ds < 16 ^ length ds\<close> by (simp only: hex_value.simps distrib_right)
  ultimately have "hex_value (d # ds) < 16 * 16 ^ length ds" by (rule order_less_le_trans [rotated])
  then show ?case by simp
qed simp

lemma usize_add_nat:
  assumes "a + b < 2 ^ 64"
  shows "usize_add p (word_of_nat a) (word_of_nat b) = Ok (word_of_nat (a + b))"
proof -
  have "unat (word_of_nat a :: u64) = a" "unat (word_of_nat b :: u64) = b"
    using assms by (simp_all add: unat_of_nat)
  with assms show ?thesis by (simp add: usize_add_def)
qed

lemma push_digit:
  "push_bit (4 * k) (word_of_nat d :: u64) = word_of_nat (d * 16 ^ k)"
  by (simp add: push_bit_eq_mult power_mult)

text \<open>
  After the last \<open>k \<le> 16\<close> digits the loop stands at the digit before them, with the shift at
  \<open>4k\<close> and their value as the total. Every property of \<open>parse_hex\<close> starts from here.
\<close>

lemma parse_hex_suffix:
  "pre \<noteq> [] \<Longrightarrow> list_all is_hex ds \<Longrightarrow> length ds \<le> 16 \<Longrightarrow>
   parse_hex_loop p (pre @ ds) (length pre + length ds - 1) 0 0 =
   parse_hex_loop p (pre @ ds) (length pre - 1) (4 * length ds) (word_of_nat (hex_value ds))"
proof (induction ds arbitrary: pre)
  case Nil
  then show ?case by simp
next
  case (Cons d ds)
  let ?buf = "pre @ d # ds" and ?k = "length ds"
  have hex: "is_hex d" "list_all is_hex ds" and k: "?k < 16"
    using Cons.prems by auto
  have "(16 :: nat) ^ length (d # ds) \<le> 16 ^ 16"
    using k by (intro power_increasing) auto
  with hex_value_bound [OF Cons.prems(2)] have bound: "hex_value (d # ds) < 16 ^ 16"
    by (rule order_less_le_trans)
  then have bounds: "hex_value ds < 2 ^ 64" "hex_digit d * 16 ^ ?k < 2 ^ 64"
      "hex_value ds + hex_digit d * 16 ^ ?k < 2 ^ 64" by simp_all
  have add: "usize_add p (word_of_nat (hex_value ds)) (push_bit (4 * ?k) (word_of_nat (hex_digit d))) =
      Ok (word_of_nat (hex_value (d # ds)))"
    using usize_add_nat [OF bounds(3), of p] by (simp only: push_digit hex_value.simps add.commute)
  have "parse_hex_loop p ?buf (length pre + Suc ?k - 1) 0 0 =
      parse_hex_loop p ?buf (length pre) (4 * ?k) (word_of_nat (hex_value ds))"
    using Cons.IH [of "pre @ [d]"] hex k by simp
  also have "\<dots> = parse_hex_loop p ?buf (length pre - 1) (4 * ?k + 4) (word_of_nat (hex_value (d # ds)))"
    using Cons.prems(1) hex k add
    by (simp add: parse_hex_loop.simps [of p ?buf "length pre"] parse_hex_byte_digit usize_shl_def
        nth_append)
  finally show ?case by (simp add: add.commute)
qed


section \<open>Facts about chunk headers\<close>

lemma is_hex_not_special [simp]: "is_hex b \<Longrightarrow> b \<noteq> CR" "is_hex b \<Longrightarrow> b \<noteq> SEMICOLON"
  by (auto simp: is_hex_def)

lemma chunk_header_loop_Some:
  "chunk_header_loop buf idx = Ok (Some n) \<longleftrightarrow>
   idx + 1 < length buf \<and> buf ! idx = CR \<and> buf ! (idx + 1) = NL \<and> n = idx + 2"
proof -
  have "buf ! idx = SEMICOLON \<Longrightarrow> idx < length buf \<Longrightarrow> chunk_header_loop buf idx \<noteq> Ok (Some n)"
    using extension_never_ends [of "drop idx buf"]
    by (simp add: chunk_header_loop.simps [of buf idx] split: outcome.splits option.splits)
  then show ?thesis
    by (cases "buf ! idx = SEMICOLON") (auto simp: chunk_header_loop.simps [of buf idx] Let_def)
qed

lemma list_at_CRNL:
  "i + 1 < length buf \<and> buf ! i = CR \<and> buf ! (i + 1) = NL \<longleftrightarrow>
   (\<exists>rest. buf = take i buf @ [CR, NL] @ rest)" (is "?l \<longleftrightarrow> ?r")
proof
  assume ?l
  then have "buf = take i buf @ [CR, NL] @ drop (i + 2) buf"
    by (metis Cons_nth_drop_Suc Suc_eq_plus1 add_2_eq_Suc' append.left_neutral append_Cons
        append_take_drop_id less_SucI Suc_lessD)
  then show ?r by blast
next
  assume ?r
  then obtain rest where buf: "buf = take i buf @ [CR, NL] @ rest" by blast
  then have "i < length buf" by (metis append_Nil2 length_append_singleton length_take linorder_not_less
      list.distinct(1) self_append_conv take_all append_is_Nil_conv)
  then have "length (take i buf) = i" by simp
  with buf show ?l
    by (metis (no_types, lifting) add_less_cancel_left append_Cons length_append length_Cons
        nth_append_length nth_append_length_plus nth_Cons_0 nth_Cons_Suc One_nat_def Suc_less_eq
        zero_less_Suc)
qed

lemma no_CR:
  "list_all is_token name \<Longrightarrow> CR \<notin> set name" "list_all is_text v \<Longrightarrow> CR \<notin> set v"
  by (auto simp: list_all_iff dest: token_not_colon(2) text_not_lws_full(1))

lemma parse_hex_digits:
  assumes "buf \<noteq> []" "list_all is_hex buf" "length buf \<le> 16"
  shows "parse_hex p buf = Ok (word_of_nat (hex_value buf))" "hex_value buf < 2 ^ 64"
proof -
  obtain d ds where buf: "buf = [d] @ ds" "is_hex d" "list_all is_hex ds" "length ds < 16"
    using assms by (cases buf) auto
  have fits: "hex_value (d # ds) < 2 ^ 64"
  proof -
    have "hex_value buf < 16 ^ length buf" using assms(2) by (rule hex_value_bound)
    also have "\<dots> \<le> (16 :: nat) ^ 16" using assms(3) by (intro power_increasing) auto
    finally show ?thesis using buf by simp
  qed
  have "usize_add p (word_of_nat (hex_value ds)) (word_of_nat (hex_digit d * 16 ^ length ds)) =
      Ok (word_of_nat (hex_value (d # ds)))"
    using usize_add_nat [of "hex_value ds" "hex_digit d * 16 ^ length ds" p] fits
    by (simp add: add.commute)
  then show "parse_hex p buf = Ok (word_of_nat (hex_value buf))"
    using parse_hex_suffix [of "[d]" ds p] buf
    by (simp add: parse_hex_def parse_hex_loop.simps [of p "d # ds" 0] parse_hex_byte_digit
        usize_shl_def push_digit del: hex_value.simps)
  show "hex_value buf < 2 ^ 64" using fits buf by simp
qed

text \<open>A chunk header that is found: hexadecimal digits, then CRNL.\<close>

lemma chunk_header_end_Some:
  "find_chunk_header_end buf = Ok (Some n) \<longleftrightarrow>
   (\<exists>ds rest. ds \<noteq> [] \<and> list_all is_hex ds \<and> buf = ds @ [CR, NL] @ rest \<and> n = length ds + 2)"
proof
  assume "find_chunk_header_end buf = Ok (Some n)"
  then obtain i where i: "find_hex_end buf = Ok (Some i)" "chunk_header_loop buf i = Ok (Some n)"
    and first: "buf \<noteq> []" "is_hex (buf ! 0)"
    by (auto simp: find_chunk_header_end_def split: if_splits option.splits)
  then have hex: "i < length buf" "\<forall>k<i. is_hex (buf ! k)" "\<not> is_hex (buf ! i)"
    by (simp_all add: hex_scan.find_end_Some_iff)
  obtain rest where "buf = take i buf @ [CR, NL] @ rest" "n = i + 2"
    using i(2) list_at_CRNL [of i buf] by (auto simp: chunk_header_loop_Some)
  moreover have "take i buf \<noteq> []" using first hex by (cases i) auto
  moreover have "list_all is_hex (take i buf)" using hex by (auto simp: list_all_length)
  ultimately show "\<exists>ds rest. ds \<noteq> [] \<and> list_all is_hex ds \<and> buf = ds @ [CR, NL] @ rest \<and> n = length ds + 2"
    using hex(1) by (intro exI [of _ "take i buf"] exI [of _ rest]) auto
next
  assume "\<exists>ds rest. ds \<noteq> [] \<and> list_all is_hex ds \<and> buf = ds @ [CR, NL] @ rest \<and> n = length ds + 2"
  then obtain ds rest where ds: "ds \<noteq> []" "list_all is_hex ds" "buf = ds @ CR # NL # rest"
      "n = length ds + 2" by auto
  have "\<not> is_hex CR" by (simp add: is_hex_def)
  then have "find_hex_end buf = Ok (Some (length ds))"
    using ds hex_scan.find_end_prefix [of ds CR] by (simp add: list_all_iff)
  moreover have "is_hex (buf ! 0)" using ds by (cases ds) auto
  ultimately show "find_chunk_header_end buf = Ok (Some n)"
    using ds by (simp add: find_chunk_header_end_def chunk_header_loop_Some nth_append)
qed

lemma chunk_header_prefix:
  assumes "ds \<noteq> []" "list_all is_hex ds" "k < length ds + 2"
  shows "find_chunk_header_end (take k (ds @ [CR, NL])) = Ok None"
proof -
  have "\<not> is_hex CR" by (simp add: is_hex_def)
  consider "k \<le> length ds" | "k = length ds + 1" using assms(3) by linarith
  then show ?thesis
  proof cases
    case 1
    then have "find_hex_end (take k ds) = Ok None"
      using assms(2) by (auto simp: hex_scan.find_end_None_iff list_all_iff dest: in_set_takeD)
    moreover have "is_hex (ds ! 0)" using assms by (cases ds) auto
    ultimately show ?thesis using 1 by (cases "k = 0") (simp_all add: find_chunk_header_end_def)
  next
    case 2
    then have "find_hex_end (ds @ [CR]) = Ok (Some (length ds))"
      using assms(2) \<open>\<not> is_hex CR\<close> hex_scan.find_end_prefix [of ds CR "[]"]
      by (simp add: list_all_iff)
    moreover have "is_hex ((ds @ [CR]) ! 0)" using assms by (cases ds) auto
    ultimately show ?thesis using 2
      by (simp add: find_chunk_header_end_def chunk_header_loop.simps [of "ds @ [CR]" "length ds"])
  qed
qed

lemma parse_chunk_header_digits:
  assumes "ds \<noteq> []" "list_all is_hex ds"
  shows "parse_chunk_header p (ds @ [CR, NL]) = parse_hex p ds"
proof -
  have "\<not> is_hex CR" by (simp add: is_hex_def)
  then have "find_hex_end (ds @ [CR, NL]) = Ok (Some (length ds))"
    using assms(2) hex_scan.find_end_prefix [of ds CR "[NL]"] by (simp add: list_all_iff)
  then show ?thesis by (simp add: parse_chunk_header_def)
qed

section \<open>Properties\<close>

text \<open>
  Up to 16 digits, \<open>parse_hex\<close> returns the number the digits spell, in either build profile.
\<close>

lemma parse_hex_value:
  assumes "buf \<noteq> []" "list_all is_hex buf" "length buf \<le> 16"
  shows "\<exists>n. parse_hex p buf = Ok n \<and> unat n = hex_value buf"
  using parse_hex_digits [OF assms] by (simp add: unat_of_nat)

text \<open>
  The 17th digit of a chunk size overflows the shift. A build with overflow checks panics on
  the bytes of a client; a build without adds the digit at the bottom again: the size the reader
  then uses is not the number the client wrote.
\<close>

lemma parse_hex_overflow:
  assumes "is_hex d" "list_all is_hex ds" "length ds = 16"
  shows "parse_hex Debug (d # ds) = Panic \<and>
    parse_hex Release (d # ds) = Ok (word_of_nat (hex_digit d + hex_value ds))"
proof -
  have small: "hex_value ds < 2 ^ 64"
    using hex_value_bound [OF assms(2)] assms(3) by simp
  then have "usize_add Release (word_of_nat (hex_value ds)) (word_of_nat (hex_digit d)) =
      Ok (word_of_nat (hex_digit d + hex_value ds))"
    by (simp add: usize_add_def add.commute)
  then show ?thesis
    using parse_hex_suffix [of "[d]" ds] assms
    by (simp add: parse_hex_def parse_hex_loop.simps [of _ "d # ds" 0] parse_hex_byte_digit
        usize_shl_def)
qed

text \<open>
  The chunk headers the reader accepts are exactly: hexadecimal digits, then CRNL. Every
  chunk extension is rejected.
\<close>

lemma chunk_header_accepted_iff:
  "find_chunk_header_end buf = Ok (Some n) \<longleftrightarrow>
   (\<exists>ds rest. ds \<noteq> [] \<and> list_all is_hex ds \<and> buf = ds @ [CR, NL] @ rest \<and> n = length ds + 2)"
  by (rule chunk_header_end_Some)

text \<open>
  The search for the end of a quoted string stops at its opening quote, whatever follows:
  it starts at index 0.
\<close>

lemma quoted_string_ends_at_once: "find_quoted_string_end (DQ # s) = Ok (Some 1)"
  by (simp add: find_quoted_string_end_def quoted_loop.simps [of "DQ # s" 0] is_text_def)

text \<open>
  A request line is read back as it was written: the end of the line is found, and the
  method, the target and the version it carries are what the parser returns.
\<close>

lemma start_line_roundtrip:
  assumes m: "SP \<notin> set m" "CR \<notin> set m" "from_bytes m = Some method"
    and u: "SP \<notin> set u" "CR \<notin> set u" "try_from u = Some uri"
    and v: "CR \<notin> set ver" "6 \<le> length ver"
  shows "\<exists>n. find_start_line_end (m @ SP # u @ SP # ver @ CRNL @ rest) = Ok (Some n) \<and>
    parse_start_line2 from_bytes try_from (take n (m @ SP # u @ SP # ver @ CRNL @ rest)) =
      Ok (method, uri, parse_version ver)"
proof -
  let ?line = "m @ SP # u @ SP # ver"
  have "find_start_line_end (?line @ CR # NL # rest) = Ok (Some (length ?line + 2))"
    using m u v by (intro find_start_line_end_at) auto
  moreover have "find_next_sp (m @ SP # ys) = Ok (Some (length m))"
      "find_next_sp (u @ SP # ys) = Ok (Some (length u))" for ys
    using m u by (auto intro!: word_scan.find_end_prefix)
  then have "parse_start_line2 from_bytes try_from (?line @ CRNL) = Ok (method, uri, parse_version ver)"
    using m(3) u(3) v(2) by (simp add: parse_start_line2_def CRNL_def)
  moreover have "take (length l + 2) (l @ CR # NL # rest) = l @ CRNL" for l
    by (simp add: CRNL_def)
  ultimately have "\<exists>n. find_start_line_end (?line @ CR # NL # rest) = Ok (Some n) \<and>
    parse_start_line2 from_bytes try_from (take n (?line @ CR # NL # rest)) =
      Ok (method, uri, parse_version ver)" by metis
  then show ?thesis by (simp add: CRNL_def)
qed

text \<open>
  A header line is read back as it was written: the end of the line is found, and parsing
  the buffer from its start gives the name and the one value.
\<close>

lemma header_line_roundtrip:
  assumes name: "name \<noteq> []" "list_all is_token name" "to_name name = Some nm"
    and v: "v \<noteq> []" "list_all is_text v" "hd v \<noteq> SP" "to_value v = Some y"
    and c: "\<not> is_lws c"
  shows "find_header_end (name @ [COLON, SP] @ v @ CRNL @ c # rest) =
      Ok (Some (length name + length v + 4)) \<and>
    parse_request_header_new to_name to_value (name @ [COLON, SP] @ v @ CRNL @ c # rest) = Ok (nm, [y])"
proof
  have "CR \<notin> set (name @ [COLON, SP] @ v)"
    using no_CR(1) [OF name(2)] no_CR(2) [OF v(2)] by simp
  then show "find_header_end (name @ [COLON, SP] @ v @ CRNL @ c # rest) =
      Ok (Some (length name + length v + 4))"
    using find_header_end_at [of "name @ [COLON, SP] @ v" c rest] c by (simp add: CRNL_def)
  show "parse_request_header_new to_name to_value (name @ [COLON, SP] @ v @ CRNL @ c # rest) = Ok (nm, [y])"
    using parse_header_single [where to_name = to_name and to_value = to_value and
      e = CR and rest = "NL # c # rest", OF name v] find_lws_end_line_end [OF c]
    by (simp add: CRNL_def is_text_def is_lws_full_def)
qed

text \<open>
  C35. The two passes over a header line disagree on a bare NL: the parser takes it for the end of
  the line, the search for the end does not. What stands between the NL and the CRNL (a header a
  laxer peer would see) is consumed from the connection and never parsed.
\<close>

theorem bare_newline_hides_text:
  assumes name: "name \<noteq> []" "list_all is_token name" "to_name name = Some nm"
    and v: "v \<noteq> []" "list_all is_text v" "hd v \<noteq> SP" "to_value v = Some y"
    and hidden: "CR \<notin> set hidden" and c: "\<not> is_lws c"
  shows "find_header_end (name @ [COLON, SP] @ v @ NL # hidden @ CRNL @ c # rest) =
      Ok (Some (length name + length v + length hidden + 5)) \<and>
    parse_request_header_new to_name to_value (name @ [COLON, SP] @ v @ NL # hidden @ CRNL @ c # rest) =
      Ok (nm, [y])"
proof
  have "CR \<notin> set (name @ [COLON, SP] @ v @ NL # hidden)"
    using no_CR(1) [OF name(2)] no_CR(2) [OF v(2)] hidden by simp
  then show "find_header_end (name @ [COLON, SP] @ v @ NL # hidden @ CRNL @ c # rest) =
      Ok (Some (length name + length v + length hidden + 5))"
    using find_header_end_at [of "name @ [COLON, SP] @ v @ NL # hidden" c rest] c
    by (simp add: CRNL_def)
  have "find_lws_end (NL # hidden @ CRNL @ c # rest) = Ok (Some 0)"
    by (rule find_lws_end_none) (simp_all add: is_lws_def)
  then show "parse_request_header_new to_name to_value
      (name @ [COLON, SP] @ v @ NL # hidden @ CRNL @ c # rest) = Ok (nm, [y])"
    using parse_header_single [where to_name = to_name and to_value = to_value and e = NL, OF name v] by (simp add: is_text_def is_lws_full_def)
qed

theorem bare_newline_hides_text_witness:
  "find_header_end (bytes_of ''a'' @ [COLON, SP] @ bytes_of ''b'' @ NL # bytes_of ''c: d'' @ CRNL @ 13 # [10])
     = Ok (Some 11) \<and>
   parse_request_header_new Some Some
     (bytes_of ''a'' @ [COLON, SP] @ bytes_of ''b'' @ NL # bytes_of ''c: d'' @ CRNL @ 13 # [10])
     = Ok (bytes_of ''a'', [bytes_of ''b''])"
  using bare_newline_hides_text [of "bytes_of ''a''" Some "bytes_of ''a''" "bytes_of ''b''"
      Some "bytes_of ''b''" "bytes_of ''c: d''" 13 "[10]"]
  by (simp add: bytes_of_def byte_class_defs is_token_def)

end
