(* ===== verification/Poll_IO.thy ===== *)
theory Poll_IO
  imports Prelude
begin

text \<open>
  The polled readers and writers of \<open>tokio\<close> that the bodies of a connection are built from
  (\<open>AsyncRead\<close>, \<open>AsyncWrite\<close>). A reader is polled with the room left in the caller's buffer and
  answers with the bytes it put there; no bytes means that the stream has ended. A poll that
  answers \<open>Pending\<close> has changed nothing but the state it returns, and is repeated.
\<close>

section \<open>Polls in sequence\<close>

type_synonym ('s, 'a) polled = "'s \<Rightarrow> 'a io poll \<times> 's"

definition pbind :: "('s, 'a) polled \<Rightarrow> ('a \<Rightarrow> ('s, 'b) polled) \<Rightarrow> ('s, 'b) polled" where
  "pbind m k s = (case m s of
     (Ready (Ok a), s') \<Rightarrow> k a s'
   | (Ready (Err e), s') \<Rightarrow> (Ready (Err e), s')
   | (Ready Panic, s') \<Rightarrow> (Ready Panic, s')
   | (Pending, s') \<Rightarrow> (Pending, s'))"

definition pret :: "'a io \<Rightarrow> ('s, 'a) polled" where "pret r s = (Ready r, s)"

lemma pbind_simps [simp]:
  "m s = (Ready (Ok a), s') \<Longrightarrow> pbind m k s = k a s'"
  "m s = (Ready (Err e), s') \<Longrightarrow> pbind m k s = (Ready (Err e), s')"
  "m s = (Ready Panic, s') \<Longrightarrow> pbind m k s = (Ready Panic, s')"
  "m s = (Pending, s') \<Longrightarrow> pbind m k s = (Pending, s')"
  by (simp_all add: pbind_def)

lemma pret_apply [simp]: "pret r s = (Ready r, s)"
  by (simp add: pret_def)

section \<open>Readers\<close>

type_synonym 'r poll_reader = "nat \<Rightarrow> ('r, byte list) polled"

text \<open>
  Polling with buffers of the given sizes until the stream ends: the bytes that arrived, and
  whether the end was seen.
\<close>

fun read_polls :: "'r poll_reader \<Rightarrow> nat list \<Rightarrow> 'r \<Rightarrow> (byte list \<times> bool) io \<times> 'r" where
  "read_polls rd [] r = (Ok ([], False), r)"
| "read_polls rd (n # ns) r =
     (case rd n r of
        (Pending, r') \<Rightarrow> read_polls rd ns r'
      | (Ready (Ok bs), r') \<Rightarrow>
          if bs = [] then (Ok ([], True), r')
          else (case read_polls rd ns r' of (res, r'') \<Rightarrow> (omap (\<lambda>(cs, e). (bs @ cs, e)) res, r''))
      | (Ready (Err e), r') \<Rightarrow> (Err e, r')
      | (Ready Panic, r') \<Rightarrow> (Panic, r'))"

text \<open>
  What a poll with a buffer of \<open>n\<close> bytes does to a stream: it has to wait, which it does finitely
  often, or hands out the next bytes, at least one if there are any.
\<close>

definition poll_step ::
  "'r poll_reader \<Rightarrow> ('r \<Rightarrow> bool) \<Rightarrow> ('r \<Rightarrow> byte list) \<Rightarrow> ('r \<Rightarrow> nat) \<Rightarrow> nat \<Rightarrow> 'r \<Rightarrow> bool" where
  "poll_step rd ok pending stalls n r \<longleftrightarrow> (\<exists>res r'. rd n r = (res, r') \<and> ok r' \<and>
     (res = Pending \<and> pending r' = pending r \<and> stalls r' < stalls r \<or>
      (\<exists>bs. res = Ready (Ok bs) \<and> length bs \<le> n \<and> pending r = bs @ pending r' \<and>
         (pending r \<noteq> [] \<longrightarrow> bs \<noteq> []) \<and> stalls r' \<le> stalls r)))"

lemma poll_step_wait:
  "rd n r = (Pending, r') \<Longrightarrow> ok r' \<Longrightarrow> pending r' = pending r \<Longrightarrow> stalls r' < stalls r \<Longrightarrow>
   poll_step rd ok pending stalls n r"
  by (simp add: poll_step_def)

lemma poll_step_data:
  "rd n r = (Ready (Ok bs), r') \<Longrightarrow> ok r' \<Longrightarrow> length bs \<le> n \<Longrightarrow> pending r = bs @ pending r' \<Longrightarrow>
   (pending r \<noteq> [] \<longrightarrow> bs \<noteq> []) \<Longrightarrow> stalls r' \<le> stalls r \<Longrightarrow> poll_step rd ok pending stalls n r"
  by (simp add: poll_step_def)

lemma poll_step_cases:
  assumes "poll_step rd ok pending stalls n r"
  obtains (stall) r' where "rd n r = (Pending, r')" "ok r'" "pending r' = pending r"
      "stalls r' < stalls r"
  | (data) bs r' where "rd n r = (Ready (Ok bs), r')" "ok r'" "length bs \<le> n" "bs \<noteq> []"
      "pending r = bs @ pending r'" "stalls r' \<le> stalls r"
  | (eof) r' where "rd n r = (Ready (Ok []), r')" "ok r'" "pending r = []" "pending r' = []"
      "stalls r' \<le> stalls r"
  using assms unfolding poll_step_def by (metis append_self_conv2)

text \<open>
  A stream of bytes that answers polls for no more bytes than are to come. Nothing is said of a
  poll that asks for more.
\<close>

locale poll_feed =
  fixes rd :: "'r poll_reader" and wf :: "'r \<Rightarrow> bool" and pending :: "'r \<Rightarrow> byte list"
    and stalls :: "'r \<Rightarrow> nat"
  assumes feed_spec: "wf r \<Longrightarrow> 0 < n \<Longrightarrow> n \<le> length (pending r) \<Longrightarrow> poll_step rd wf pending stalls n r"
begin

lemma feed_cases:
  assumes "wf r" "0 < n" "n \<le> length (pending r)"
  obtains (stall) r' where "rd n r = (Pending, r')" "wf r'" "pending r' = pending r"
      "stalls r' < stalls r"
  | (data) bs r' where "rd n r = (Ready (Ok bs), r')" "wf r'" "length bs \<le> n" "bs \<noteq> []"
      "pending r = bs @ pending r'" "stalls r' \<le> stalls r"
proof -
  have "pending r \<noteq> []" using assms(2,3) by auto
  with feed_spec [OF assms] show ?thesis
    by (cases rule: poll_step_cases) (use that in auto)
qed

end

text \<open>A stream that answers every poll, and reports its end.\<close>

locale poll_source = poll_feed rd wf pending stalls
  for rd :: "'r poll_reader" and wf :: "'r \<Rightarrow> bool" and pending :: "'r \<Rightarrow> byte list"
    and stalls :: "'r \<Rightarrow> nat" +
  assumes beyond_spec: "wf r \<Longrightarrow> length (pending r) < n \<Longrightarrow> poll_step rd wf pending stalls n r"
begin

lemma source_spec: "wf r \<Longrightarrow> 0 < n \<Longrightarrow> poll_step rd wf pending stalls n r"
  using feed_spec [of r n] beyond_spec [of r n] by linarith

lemma rd_cases:
  assumes "wf r" "0 < n"
  obtains (stall) r' where "rd n r = (Pending, r')" "wf r'" "pending r' = pending r"
      "stalls r' < stalls r"
  | (data) bs r' where "rd n r = (Ready (Ok bs), r')" "wf r'" "length bs \<le> n" "bs \<noteq> []"
      "pending r = bs @ pending r'" "stalls r' \<le> stalls r"
  | (eof) r' where "rd n r = (Ready (Ok []), r')" "wf r'" "pending r = []" "pending r' = []"
      "stalls r' \<le> stalls r"
  using source_spec [OF assms] by (cases rule: poll_step_cases) (use that in auto)

lemma read_polls_spec:
  "wf r \<Longrightarrow> \<forall>n\<in>set ns. 0 < n \<Longrightarrow>
   \<exists>bs e r'. read_polls rd ns r = (Ok (bs, e), r') \<and> wf r' \<and> pending r = bs @ pending r' \<and>
     (e \<longrightarrow> pending r' = []) \<and> (length (pending r) + stalls r < length ns \<longrightarrow> e)"
proof (induction ns arbitrary: r)
  case Nil
  then show ?case by (auto intro: exI [of _ False])
next
  case (Cons n ns)
  then have "0 < n" by simp
  with Cons.prems(1) show ?case
  proof (cases rule: rd_cases)
    case (stall r')
    with Cons.IH [of r'] Cons.prems(2) show ?thesis by auto
  next
    case (data bs r')
    then have "1 \<le> length bs" by (cases bs) auto
    with data Cons.IH [of r'] Cons.prems(2) show ?thesis by fastforce
  next
    case (eof r')
    then show ?thesis by (auto intro: exI [of _ True])
  qed
qed

text \<open>Enough polls read the whole stream and see its end.\<close>

lemma read_polls_all:
  assumes "wf r" "\<forall>n\<in>set ns. 0 < n" "length (pending r) + stalls r < length ns"
  obtains r' where "read_polls rd ns r = (Ok (pending r, True), r')" "wf r'" "pending r' = []"
  using read_polls_spec [OF assms(1,2)] assms(3) by fastforce

text \<open>The end is seen in one last poll that hands out nothing.\<close>

lemma read_polls_end:
  "read_polls rd ns r = (Ok (bs, True), r') \<Longrightarrow> wf r \<Longrightarrow> \<forall>n\<in>set ns. 0 < n \<Longrightarrow>
   \<exists>r0 n. wf r0 \<and> 0 < n \<and> rd n r0 = (Ready (Ok []), r')"
proof (induction ns arbitrary: r bs)
  case (Cons n ns)
  then have "0 < n" by simp
  with Cons.prems(2) show ?case
  proof (cases rule: rd_cases)
    case (data cs r1)
    with Cons.prems Cons.IH [of r1] show ?thesis by (auto split: prod.splits)
  qed (use Cons in auto)
qed simp

end

lemma poll_sourceI:
  "(\<And>n r. ok r \<Longrightarrow> 0 < n \<Longrightarrow> poll_step rd ok pending stalls n r) \<Longrightarrow> poll_source rd ok pending stalls"
  by unfold_locales auto

text \<open>
  A reader that follows a script: each entry is a piece that arrives, the empty one a poll that
  has to wait.
\<close>

fun script_reader :: "byte list list poll_reader" where
  "script_reader n [] = (Ready (Ok []), [])"
| "script_reader n (c # cs) =
     (if c = [] then (Pending, cs)
      else (Ready (Ok (take n c)), if length c \<le> n then cs else drop n c # cs))"

definition script_stalls :: "byte list list \<Rightarrow> nat" where
  "script_stalls cs = length (filter (\<lambda>c. c = []) cs)"

interpretation script: poll_source script_reader "\<lambda>cs. True" concat script_stalls
proof (rule poll_sourceI)
  fix n :: nat and cs :: "byte list list"
  assume "0 < n"
  then show "poll_step script_reader (\<lambda>cs. True) concat script_stalls n cs"
    by (cases cs) (auto simp: poll_step_def script_stalls_def)
qed

section \<open>Writers\<close>

text \<open>\<open>poll_write\<close> answers with the number of bytes it took from the front of the slice.\<close>

type_synonym 'w poll_writer = "byte list \<Rightarrow> ('w, nat) polled"
type_synonym 'w poll_flush = "('w, unit) polled"

text \<open>
  A sink that does not fail: it takes at least one byte of a slice that is not empty, or answers
  \<open>Pending\<close>, finitely often.
\<close>

locale poll_sink =
  fixes wr :: "'w poll_writer" and fl :: "'w poll_flush" and wf :: "'w \<Rightarrow> bool"
    and written :: "'w \<Rightarrow> byte list" and stalls :: "'w \<Rightarrow> nat"
  assumes wr_spec: "wf w \<Longrightarrow> bs \<noteq> [] \<Longrightarrow> \<exists>res w'. wr bs w = (res, w') \<and> wf w' \<and>
    (res = Pending \<and> written w' = written w \<and> stalls w' < stalls w \<or>
     (\<exists>n. res = Ready (Ok n) \<and> 0 < n \<and> n \<le> length bs \<and> written w' = written w @ take n bs \<and>
        stalls w' \<le> stalls w))"
    and fl_spec: "wf w \<Longrightarrow> \<exists>res w'. fl w = (res, w') \<and> wf w' \<and> written w' = written w \<and>
    (res = Pending \<and> stalls w' < stalls w \<or> res = Ready (Ok ()) \<and> stalls w' \<le> stalls w)"
begin

lemma wr_cases:
  assumes "wf w" "bs \<noteq> []"
  obtains (stall) w' where "wr bs w = (Pending, w')" "wf w'" "written w' = written w"
      "stalls w' < stalls w"
  | (took) n w' where "wr bs w = (Ready (Ok n), w')" "wf w'" "0 < n" "n \<le> length bs"
      "written w' = written w @ take n bs" "stalls w' \<le> stalls w"
  using wr_spec [OF assms] by blast

lemma fl_cases:
  assumes "wf w"
  obtains (stall) w' where "fl w = (Pending, w')" "wf w'" "written w' = written w"
      "stalls w' < stalls w"
  | (flushed) w' where "fl w = (Ready (Ok ()), w')" "wf w'" "written w' = written w"
      "stalls w' \<le> stalls w"
  using fl_spec [OF assms] by blast

end

text \<open>
  A sink that follows a script: how many bytes each poll takes at most, \<open>0\<close> for one that has to
  wait; after the script it takes everything.
\<close>

fun script_write :: "(nat list \<times> byte list) poll_writer" where
  "script_write bs ([], out) = (Ready (Ok (length bs)), ([], out @ bs))"
| "script_write bs (k # ks, out) =
     (if k = 0 then (Pending, (ks, out))
      else (Ready (Ok (min k (length bs))), (ks, out @ take k bs)))"

fun script_flush :: "(nat list \<times> byte list) poll_flush" where
  "script_flush (0 # ks, out) = (Pending, (ks, out))"
| "script_flush (ks, out) = (Ready (Ok ()), (ks, out))"

definition sink_stalls :: "nat list \<times> byte list \<Rightarrow> nat" where
  "sink_stalls w = length (filter (\<lambda>k. k = 0) (fst w))"

interpretation script_sink: poll_sink script_write script_flush "\<lambda>w. True" snd sink_stalls
proof
  fix w :: "nat list \<times> byte list" and bs :: "byte list"
  assume "bs \<noteq> []"
  then show "\<exists>res w'. script_write bs w = (res, w') \<and> True \<and>
    (res = Pending \<and> snd w' = snd w \<and> sink_stalls w' < sink_stalls w \<or>
     (\<exists>n. res = Ready (Ok n) \<and> 0 < n \<and> n \<le> length bs \<and> snd w' = snd w @ take n bs \<and>
        sink_stalls w' \<le> sink_stalls w))"
    by (cases "(bs, w)" rule: script_write.cases) (auto simp: sink_stalls_def min_def)
next
  fix w :: "nat list \<times> byte list"
  show "\<exists>res w'. script_flush w = (res, w') \<and> True \<and> snd w' = snd w \<and>
    (res = Pending \<and> sink_stalls w' < sink_stalls w \<or>
     res = Ready (Ok ()) \<and> sink_stalls w' \<le> sink_stalls w)"
    by (cases w rule: script_flush.cases) (auto simp: sink_stalls_def)
qed

end
