(* ===== verification/Request.thy ===== *)
theory Request
  imports Http_Parse Byte_Buffer Poll_IO
begin

text \<open>
  \<open>src/src/request.rs\<close>: how the length of a request body is determined from the headers, and the
  two readers that cut a body out of the bytes of a connection, \<open>LimitReader\<close> for a
  \<open>content-length\<close> and \<open>ChunkedReader\<close> for the chunked transfer coding. Both work on a polled
  reader, which is a parameter; what they promise is that they are themselves a \<open>poll_source\<close>,
  of the first bytes of the stream below and of the body the chunks encode.
\<close>

section \<open>The \<open>http\<close> crate\<close>

text \<open>What the code calls of the \<open>http\<close> crate, and the defaults of a new request.\<close>

record ('m, 'u, 'n, 'v) http_crate =
  c_method :: "byte list \<Rightarrow> 'm option"
  c_uri :: "byte list \<Rightarrow> 'u option"
  c_name :: "byte list \<Rightarrow> 'n option"
  c_value :: "byte list \<Rightarrow> 'v option"
  c_is_connect :: "'m \<Rightarrow> bool"
  c_get :: 'm
  c_root :: 'u

record ('m, 'u, 'n, 'v) request =
  rq_method :: 'm
  rq_uri :: 'u
  rq_version :: version
  rq_headers :: "('n \<times> 'v) list"

section \<open>The length of the body\<close>

datatype body_type = NoBody | Fixed nat | Chunked

text \<open>\<open>str::parse::<usize>\<close>: a \<open>+\<close> is allowed, the value has to fit 64 bits.\<close>

definition parse_usize :: "byte list \<Rightarrow> nat option" where
  "parse_usize bs =
     (let ds = (if bs \<noteq> [] \<and> bs ! 0 = 43 \<and> length bs > 1 then drop 1 bs else bs);
          n = foldl (\<lambda>acc d. 10 * acc + (unat d - 48)) 0 ds in
      if ds \<noteq> [] \<and> list_all (\<lambda>d. 48 \<le> d \<and> d \<le> 57) ds \<and> n < 2 ^ 64 then Some n else None)"

lemma parse_usize_Some:
  "parse_usize bs = Some n \<longleftrightarrow> n < 2 ^ 64 \<and> (\<exists>ds. (bs = ds \<or> bs = 43 # ds) \<and> ds \<noteq> [] \<and>
     list_all (\<lambda>d. 48 \<le> d \<and> d \<le> 57) ds \<and> foldl (\<lambda>acc d. 10 * acc + (unat d - 48)) 0 ds = n)"
  by (cases bs) (auto simp: parse_usize_def Let_def)

text \<open>\<open>usize::to_string\<close> writes what \<open>parse\<close> reads.\<close>

definition dec_char :: "nat \<Rightarrow> byte" where "dec_char d = word_of_nat (48 + d)"

fun to_dec :: "nat \<Rightarrow> byte list" where
  "to_dec n = (if n < 10 then [dec_char n] else to_dec (n div 10) @ [dec_char (n mod 10)])"

declare to_dec.simps [simp del]

lemma dec_char:
  assumes "d < 10"
  shows "48 \<le> dec_char d" "dec_char d \<le> 57" "unat (dec_char d) = 48 + d"
proof -
  show u: "unat (dec_char d) = 48 + d"
    using assms by (simp add: dec_char_def unat_of_nat del: of_nat_add)
  show "48 \<le> dec_char d" "dec_char d \<le> 57"
    using assms u by (simp_all add: word_le_nat_alt)
qed

lemma to_dec:
  "to_dec n \<noteq> []" "list_all (\<lambda>d. 48 \<le> d \<and> d \<le> 57) (to_dec n)"
  "foldl (\<lambda>acc d. 10 * acc + (unat d - 48)) 0 (to_dec n) = n"
proof -
  have "to_dec n \<noteq> [] \<and> list_all (\<lambda>d. 48 \<le> d \<and> d \<le> 57) (to_dec n) \<and>
      foldl (\<lambda>acc d. 10 * acc + (unat d - 48)) 0 (to_dec n) = n"
  proof (induction n rule: to_dec.induct)
    case (1 n)
    then show ?case
      by (cases "n < 10") (simp_all add: to_dec.simps [of n] dec_char)
  qed
  then show "to_dec n \<noteq> []" "list_all (\<lambda>d. 48 \<le> d \<and> d \<le> 57) (to_dec n)"
    "foldl (\<lambda>acc d. 10 * acc + (unat d - 48)) 0 (to_dec n) = n"
    by simp_all
qed

lemma parse_usize_to_dec: "n < 2 ^ 64 \<Longrightarrow> parse_usize (to_dec n) = Some n"
  using to_dec [of n] by (auto simp: parse_usize_Some)

text \<open>
  \<open>safe\<close> is \<open>method().is_safe()\<close>; \<open>te\<close> and \<open>cl\<close> are the first \<open>transfer-encoding\<close> and
  \<open>content-length\<close> headers, \<open>to_str\<close> is \<open>HeaderValue::to_str\<close>.
\<close>

definition bad_value :: "'a option \<Rightarrow> 'a io" where
  "bad_value r = ok_or (IoError Other ''Invalid header value.'') r"

definition parse_length :: "('v \<Rightarrow> byte list option) \<Rightarrow> 'v \<Rightarrow> nat io" where
  "parse_length to_str v =
     obind (bad_value (to_str v)) (\<lambda>value.
     ok_or (IoError Other ''Invalid header value. (Not an integer)'') (parse_usize value))"

definition determine_body_type ::
  "('v \<Rightarrow> byte list option) \<Rightarrow> bool \<Rightarrow> 'v option \<Rightarrow> 'v option \<Rightarrow> body_type io" where
  "determine_body_type to_str safe te cl =
     (if safe then Ok NoBody
      else case te of
        Some v \<Rightarrow>
          obind (bad_value (to_str v)) (\<lambda>value.
            if value = bytes_of ''chunked'' then Ok Chunked
            else Err (IoError InvalidData ''Unknown transfer encoding.''))
      | None \<Rightarrow>
          (case cl of
             Some v \<Rightarrow> obind (parse_length to_str v) (\<lambda>len. Ok (if len > 0 then Fixed len else NoBody))
           | None \<Rightarrow> Ok NoBody))"

definition determine_body_type_h2 ::
  "('v \<Rightarrow> byte list option) \<Rightarrow> bool \<Rightarrow> 'v option \<Rightarrow> 'v option \<Rightarrow> body_type io" where
  "determine_body_type_h2 to_str safe te cl =
     (if safe then Ok NoBody
      else
        obind (case te of
            Some v \<Rightarrow> obind (bad_value (to_str v)) (\<lambda>value.
              if value = bytes_of ''chunked''
              then Err (IoError InvalidData ''Unknown transfer encoding.'') else Ok ())
          | None \<Rightarrow> Ok ()) (\<lambda>_.
        case cl of
          Some v \<Rightarrow> obind (parse_length to_str v) (\<lambda>len. Ok (if len > 0 then Fixed len else NoBody))
        | None \<Rightarrow> Ok Chunked))"

definition validate :: "unit io" where "validate = Ok ()"

section \<open>\<open>LimitReader\<close>\<close>

record 'r limit_reader =
  lr_reader :: 'r
  lr_max :: nat
  lr_current :: nat

definition limit_new :: "'r \<Rightarrow> nat \<Rightarrow> 'r limit_reader" where
  "limit_new reader m = \<lparr>lr_reader = reader, lr_max = m, lr_current = 0\<rparr>"

text \<open>
  One poll of the reader below into a buffer of \<open>n\<close> bytes, and the count of what came: the code
  does it on the caller's buffer when that is small enough, on a prefix of it otherwise.
\<close>

definition limit_count :: "'r poll_reader \<Rightarrow> nat \<Rightarrow> ('r limit_reader, byte list) polled" where
  "limit_count rd n l =
     (case rd n (lr_reader l) of
        (Ready (Ok bs), r') \<Rightarrow>
          (Ready (Ok bs), l\<lparr>lr_reader := r', lr_current := lr_current l + length bs\<rparr>)
      | (res, r') \<Rightarrow> (res, l\<lparr>lr_reader := r'\<rparr>))"

definition limit_poll_read :: "'r poll_reader \<Rightarrow> 'r limit_reader poll_reader" where
  "limit_poll_read rd n l =
     (if lr_current l > lr_max l
      then (Ready (Err (IoError Other
        ''Implementation error (LimitReader has read more then max bytes!)'')), l)
      else
        let remaining = lr_max l - lr_current l in
        if remaining = 0 then (Ready (Ok []), l)
        else if remaining \<ge> n then limit_count rd n l
        else limit_count rd remaining l)"

section \<open>\<open>ChunkedReader\<close>\<close>

datatype chunked_status = WaitingForChunk | ReadingChunk | Done

text \<open>The buffer is an \<open>Option\<close> in the code only so that the destructor can give it back to the pool.\<close>

record 'r chunked_reader =
  cr_reader :: 'r
  cr_buffer :: buffer
  cr_status :: chunked_status
  cr_chunk_size :: nat
  cr_chunk_count :: nat

definition chunked_new_with_buffer :: "'r \<Rightarrow> buffer \<Rightarrow> 'r chunked_reader" where
  "chunked_new_with_buffer reader b =
     \<lparr>cr_reader = reader, cr_buffer = b, cr_status = WaitingForChunk, cr_chunk_size = 0,
      cr_chunk_count = 0\<rparr>"

text \<open>\<open>pooled\<close> is the buffer the pool has, if any.\<close>

definition chunked_new :: "'r \<Rightarrow> nat \<Rightarrow> buffer option \<Rightarrow> 'r chunked_reader" where
  "chunked_new reader buffer_size pooled =
     chunked_new_with_buffer reader (case pooled of
       Some b \<Rightarrow> set_capacity buffer_size b
     | None \<Rightarrow> with_capacity buffer_size)"

text \<open>
  \<open>read_to_buffer\<close> reads one byte. Its answer \<open>None\<close>, a byte was read, is \<open>Ready (Ok ())\<close> here;
  every other answer makes the caller return. A reader that claims more than the one byte of the
  slice panics, as \<open>ReadBuf\<close> does.
\<close>

definition read_to_buffer :: "'r poll_reader \<Rightarrow> ('r chunked_reader, unit) polled" where
  "read_to_buffer rd c =
     (let b = rotate_buffer (cr_buffer c) in
      if as_mut_len b = 0
      then (Ready (Err (IoError Other ''The internal buffer was filled. The chunks are too big!'')),
            c\<lparr>cr_buffer := b\<rparr>)
      else case rd 1 (cr_reader c) of
        (Ready (Ok bs), r') \<Rightarrow>
          if length bs > 1 then (Ready Panic, c\<lparr>cr_reader := r', cr_buffer := b\<rparr>)
          else if bs = []
          then (Ready (Err (IoError UnexpectedEof ''Incomplete chunk header.'')),
                c\<lparr>cr_reader := r', cr_buffer := b\<rparr>)
          else (Ready (Ok ()), c\<lparr>cr_reader := r', cr_buffer := progress_write 1
                 (b\<lparr>inner := overwrite (write_pointer b) bs (inner b)\<rparr>)\<rparr>)
      | (Ready (Err e), r') \<Rightarrow> (Ready (Err e), c\<lparr>cr_reader := r', cr_buffer := b\<rparr>)
      | (Ready Panic, r') \<Rightarrow> (Ready Panic, c\<lparr>cr_reader := r', cr_buffer := b\<rparr>)
      | (Pending, r') \<Rightarrow> (Pending, c\<lparr>cr_reader := r', cr_buffer := b\<rparr>))"

definition chunk_remaining :: "'r chunked_reader \<Rightarrow> nat io" where
  "chunk_remaining c =
     (if cr_chunk_count c > cr_chunk_size c then Err (IoError Other ''Implementation error.'')
      else Ok (cr_chunk_size c - cr_chunk_count c))"

definition read_data :: "'r poll_reader \<Rightarrow> 'r chunked_reader poll_reader" where
  "read_data rd n c =
     (case chunk_remaining c of
        Ok left \<Rightarrow>
          if left = 0 then (Ready (Err (IoError Other ''Implementation error.'')), c)
          else
            let remaining = (if left > n then n else left) in
            (case rd remaining (cr_reader c) of
               (Ready (Ok bs), r') \<Rightarrow>
                 if bs = []
                 then (Ready (Err (IoError UnexpectedEof ''Incomplete chunk.'')), c\<lparr>cr_reader := r'\<rparr>)
                 else (Ready (Ok bs),
                       c\<lparr>cr_reader := r', cr_chunk_count := cr_chunk_count c + length bs\<rparr>)
             | (res, r') \<Rightarrow> (res, c\<lparr>cr_reader := r'\<rparr>))
      | Err e \<Rightarrow> (Ready (Err e), c)
      | Panic \<Rightarrow> (Ready Panic, c))"

text \<open>
  The loops that fill the chunk-header buffer byte by byte, up to the end of a header and up to
  two bytes. Each byte read takes one byte of room.
\<close>

lemma read_to_buffer_room:
  assumes "(Ready (Ok u), c') = read_to_buffer rd c"
  shows "as_mut_len (cr_buffer c') < as_mut_len (cr_buffer c)"
proof -
  define b where "b = rotate_buffer (cr_buffer c)"
  have b: "read_pointer b = 0" by (simp add: b_def rotate_buffer_zero)
  obtain bs where bs: "as_mut_len b \<noteq> 0" "bs \<noteq> []" "length bs \<le> 1"
    "cr_buffer c' = progress_write 1 (b\<lparr>inner := overwrite (write_pointer b) bs (inner b)\<rparr>)"
    using assms [symmetric] unfolding read_to_buffer_def Let_def b_def [symmetric]
    by (auto split: prod.splits poll.splits outcome.splits if_splits)
  then obtain x where "bs = [x]" by (cases bs) auto
  with bs have x: "as_mut_len b \<noteq> 0"
    "cr_buffer c' = progress_write 1 (b\<lparr>inner := overwrite (write_pointer b) [x] (inner b)\<rparr>)"
    by simp_all
  then have "read_pointer (cr_buffer c') = 0"
    using b by (simp add: progress_write_def)
  with x b show ?thesis
    by (simp add: as_mut_len_def rotate_buffer_zero progress_write_def flip: b_def)
qed

function header_loop :: "'r poll_reader \<Rightarrow> ('r chunked_reader, nat) polled" where
  "header_loop rd c =
     (case as_ref (cr_buffer c) of
        Ok bs \<Rightarrow>
          (case find_chunk_header_end bs of
             Ok (Some idx) \<Rightarrow> (Ready (Ok idx), c)
           | Ok None \<Rightarrow>
               (case read_to_buffer rd c of
                  (Ready (Ok _), c') \<Rightarrow> header_loop rd c'
                | (Ready (Err e), c') \<Rightarrow> (Ready (Err e), c')
                | (Ready Panic, c') \<Rightarrow> (Ready Panic, c')
                | (Pending, c') \<Rightarrow> (Pending, c'))
           | Err e \<Rightarrow> (Ready (Err e), c)
           | Panic \<Rightarrow> (Ready Panic, c))
      | Err e \<Rightarrow> (Ready (Err e), c)
      | Panic \<Rightarrow> (Ready Panic, c))"
  by pat_completeness auto
termination
  by (relation "measure (\<lambda>(rd, c). as_mut_len (cr_buffer c))") (auto dest: read_to_buffer_room)

declare header_loop.simps [simp del]

function crlf_loop :: "'r poll_reader \<Rightarrow> ('r chunked_reader, byte list) polled" where
  "crlf_loop rd c =
     (case as_ref (cr_buffer c) of
        Ok bs \<Rightarrow>
          if 2 > length bs
          then
            (case read_to_buffer rd c of
               (Ready (Ok _), c') \<Rightarrow> crlf_loop rd c'
             | (Ready (Err e), c') \<Rightarrow> (Ready (Err e), c')
             | (Ready Panic, c') \<Rightarrow> (Ready Panic, c')
             | (Pending, c') \<Rightarrow> (Pending, c'))
          else (Ready (Ok bs), c)
      | Err e \<Rightarrow> (Ready (Err e), c)
      | Panic \<Rightarrow> (Ready Panic, c))"
  by pat_completeness auto
termination
  by (relation "measure (\<lambda>(rd, c). as_mut_len (cr_buffer c))") (auto dest: read_to_buffer_room)

declare crlf_loop.simps [simp del]

definition read_terminating_crlf :: "'r poll_reader \<Rightarrow> ('r chunked_reader, byte list) polled" where
  "read_terminating_crlf rd c =
     (if cr_status c = Done
      then pbind (crlf_loop rd) (\<lambda>bs. pret (
        if bs ! 0 = CR \<and> bs ! 1 = NL then Ok []
        else Err (IoError InvalidData ''Chunked body did not end with a CRNL.''))) c
      else (Ready (Err (IoError Other ''Implementation error.'')), c))"

definition read_chunk_header :: "profile \<Rightarrow> 'r poll_reader \<Rightarrow> 'r chunked_reader poll_reader" where
  "read_chunk_header p rd n c =
     (if cr_status c = WaitingForChunk
      then pbind (header_loop rd) (\<lambda>idx c.
        case obind (as_ref (cr_buffer c)) (\<lambda>bs. parse_chunk_header p (take idx bs)) of
          Ok sz \<Rightarrow>
            let c' = c\<lparr>cr_buffer := progress idx (cr_buffer c), cr_chunk_size := unat sz,
                       cr_chunk_count := 0\<rparr> in
            if sz > 0 then read_data rd n (c'\<lparr>cr_status := ReadingChunk\<rparr>)
            else read_terminating_crlf rd (c'\<lparr>cr_status := Done\<rparr>)
        | Err e \<Rightarrow> (Ready (Err e), c)
        | Panic \<Rightarrow> (Ready Panic, c)) c
      else (Ready (Err (IoError Other ''Implementation error.'')), c))"

definition read_chunk_data :: "profile \<Rightarrow> 'r poll_reader \<Rightarrow> 'r chunked_reader poll_reader" where
  "read_chunk_data p rd n c =
     (if cr_status c = ReadingChunk
      then case chunk_remaining c of
        Ok chunk_left \<Rightarrow>
          if chunk_left = 0
          then pbind (crlf_loop rd) (\<lambda>bs c.
            if bs ! 0 = CR \<and> bs ! 1 = NL
            then read_chunk_header p rd n
              (c\<lparr>cr_buffer := progress 2 (cr_buffer c), cr_status := WaitingForChunk\<rparr>)
            else (Ready (Err (IoError InvalidData ''Chunk data did not end with a CRNL.'')), c)) c
          else read_data rd n c
      | Err e \<Rightarrow> (Ready (Err e), c)
      | Panic \<Rightarrow> (Ready Panic, c)
      else (Ready (Err (IoError Other ''Implementation error.'')), c))"

definition chunked_poll_read :: "profile \<Rightarrow> 'r poll_reader \<Rightarrow> 'r chunked_reader poll_reader" where
  "chunked_poll_read p rd n c =
     (case cr_status c of
        WaitingForChunk \<Rightarrow> read_chunk_header p rd n c
      | ReadingChunk \<Rightarrow> read_chunk_data p rd n c
      | Done \<Rightarrow> read_terminating_crlf rd c)"

section \<open>The chunked coding\<close>

text \<open>
  The reference: the body that a sequence of bytes encodes, and the bytes after it. \<open>cap\<close> is
  the size of the chunk-header buffer. This decoder sees the whole input at once.
\<close>

function dechunk :: "profile \<Rightarrow> nat \<Rightarrow> byte list \<Rightarrow> (byte list \<times> byte list) option" where
  "dechunk p cap bs =
     (case find_chunk_header_end bs of
        Ok (Some i) \<Rightarrow>
          (case parse_chunk_header p (take i bs) of
             Ok sz \<Rightarrow>
               let n = unat sz; rest = drop i bs in
               if cap < i then None
               else if n = 0 then (if take 2 rest = CRNL then Some ([], drop 2 rest) else None)
               else if take 2 (drop n rest) = CRNL
               then map_option (\<lambda>(body, r). (take n rest @ body, r)) (dechunk p cap (drop (n + 2) rest))
               else None
           | _ \<Rightarrow> None)
      | _ \<Rightarrow> None)"
  by pat_completeness auto
termination
  by (relation "measure (\<lambda>(p, cap, bs). length bs)") (auto simp: find_chunk_header_end_def split: if_splits)

declare dechunk.simps [simp del]

lemma take_CRNL: "take 2 bs = CRNL \<longleftrightarrow> (\<exists>r. bs = CRNL @ r)"
  by (auto simp: CRNL_def numeral_2_eq_2 take_Suc split: list.splits)
    (metis append_take_drop_id append_Cons append_Nil take_Suc_Cons)

lemma dechunk_Cons:
  assumes "ds \<noteq> []" "list_all is_hex ds" "length ds \<le> 16" "length ds + 2 \<le> cap"
    and "hex_value ds = length chunk" "chunk \<noteq> []"
  shows "dechunk p cap (ds @ CRNL @ chunk @ CRNL @ tail) =
    map_option (\<lambda>(body, r). (chunk @ body, r)) (dechunk p cap tail)"
proof -
  let ?bs = "ds @ CRNL @ chunk @ CRNL @ tail"
  have "find_chunk_header_end ?bs = Ok (Some (length ds + 2))"
    using assms(1,2) by (auto simp: chunk_header_end_Some CRNL_def)
  moreover have "parse_chunk_header p (take (length ds + 2) ?bs) = Ok (word_of_nat (length chunk))"
    using parse_chunk_header_digits [OF assms(1,2)] parse_hex_digits(1) [OF assms(1-3)] assms(5)
    by (simp add: CRNL_def)
  moreover have "unat (word_of_nat (length chunk) :: u64) = length chunk"
    using parse_hex_digits(2) [OF assms(1-3)] assms(5) by (simp add: unat_of_nat)
  ultimately show ?thesis
    using assms(4,6) by (subst dechunk.simps) (simp add: CRNL_def Let_def)
qed

lemma dechunk_last:
  assumes "ds \<noteq> []" "list_all is_hex ds" "length ds \<le> 16" "length ds + 2 \<le> cap" "hex_value ds = 0"
  shows "dechunk p cap (ds @ CRNL @ CRNL @ rest) = Some ([], rest)"
proof -
  let ?bs = "ds @ CRNL @ CRNL @ rest"
  have "find_chunk_header_end ?bs = Ok (Some (length ds + 2))"
    using assms(1,2) by (auto simp: chunk_header_end_Some CRNL_def)
  moreover have "parse_chunk_header p (take (length ds + 2) ?bs) = Ok 0"
    using parse_chunk_header_digits [OF assms(1,2)] parse_hex_digits(1) [OF assms(1-3)] assms(5)
    by (simp add: CRNL_def)
  ultimately show ?thesis
    using assms(4) by (subst dechunk.simps) (simp add: CRNL_def)
qed

text \<open>The bytes a reader has not handed out yet are in its header buffer and in the stream below.\<close>

definition chunk_next ::
  "profile \<Rightarrow> 'r chunked_reader \<Rightarrow> byte list \<Rightarrow> (byte list \<times> byte list) option" where
  "chunk_next p c raw =
     (case cr_status c of
        WaitingForChunk \<Rightarrow> dechunk p (buffer_capacity (cr_buffer c)) raw
      | ReadingChunk \<Rightarrow>
          let left = cr_chunk_size c - cr_chunk_count c in
          if take 2 (drop left raw) = CRNL
          then map_option (\<lambda>(body, r). (take left raw @ body, r))
            (dechunk p (buffer_capacity (cr_buffer c)) (drop (left + 2) raw))
          else None
      | Done \<Rightarrow> if take 2 raw = CRNL then Some ([], drop 2 raw) else None)"

text \<open>How far the header buffer may be filled.\<close>

definition chunk_ahead :: "'r chunked_reader \<Rightarrow> byte list \<Rightarrow> nat" where
  "chunk_ahead c raw =
     (case cr_status c of
        WaitingForChunk \<Rightarrow> (case find_chunk_header_end raw of Ok (Some i) \<Rightarrow> i | _ \<Rightarrow> 0)
      | ReadingChunk \<Rightarrow> if cr_chunk_count c = cr_chunk_size c then 2 else 0
      | Done \<Rightarrow> 2)"

context poll_feed
begin

text \<open>
  A limit reader whose stream goes on with \<open>rest\<close> after the bytes it may read; with \<open>enough\<close>, all
  of these bytes are there.
\<close>

definition limit_wf :: "bool \<Rightarrow> byte list \<Rightarrow> 'r limit_reader \<Rightarrow> bool" where
  "limit_wf enough rest l \<longleftrightarrow> wf (lr_reader l) \<and> lr_current l \<le> lr_max l \<and>
     drop (lr_max l - lr_current l) (pending (lr_reader l)) = rest \<and>
     (enough \<longrightarrow> lr_max l - lr_current l \<le> length (pending (lr_reader l)))"

definition limit_pending :: "'r limit_reader \<Rightarrow> byte list" where
  "limit_pending l = take (lr_max l - lr_current l) (pending (lr_reader l))"

definition limit_stalls :: "'r limit_reader \<Rightarrow> nat" where
  "limit_stalls l = stalls (lr_reader l)"

lemmas limit_defs = limit_wf_def limit_pending_def limit_stalls_def

lemma limit_poll_eq:
  "limit_wf enough rest l \<Longrightarrow> lr_current l < lr_max l \<Longrightarrow>
   limit_poll_read rd n l = limit_count rd (min n (lr_max l - lr_current l)) l"
  by (simp add: limit_poll_read_def limit_wf_def min_def)

lemma limit_step:
  assumes l: "limit_wf enough rest l" and n: "0 < n"
    and step: "lr_current l < lr_max l \<Longrightarrow>
      poll_step rd wf pending stalls (min n (lr_max l - lr_current l)) (lr_reader l)"
  shows "poll_step (limit_poll_read rd) (limit_wf enough rest) limit_pending limit_stalls n l"
proof (cases "lr_current l < lr_max l")
  case False
  then show ?thesis
    using l by (intro poll_step_data [where bs = "[]" and r' = l]) (simp_all add: limit_poll_read_def limit_defs)
next
  case True
  from step [OF True] show ?thesis
  proof (cases rule: poll_step_cases)
    case (stall r')
    with l show ?thesis
      by (intro poll_step_wait [where r' = "l\<lparr>lr_reader := r'\<rparr>"])
        (simp_all add: limit_poll_eq [OF l True] limit_count_def limit_defs)
  next
    case (data bs r')
    with l True show ?thesis
      by (intro poll_step_data [where bs = bs
            and r' = "l\<lparr>lr_reader := r', lr_current := lr_current l + length bs\<rparr>"])
        (auto simp: limit_poll_eq [OF l True] limit_count_def limit_defs)
  next
    case (eof r')
    with l True show ?thesis
      by (intro poll_step_data [where bs = "[]" and r' = "l\<lparr>lr_reader := r'\<rparr>"])
        (auto simp: limit_poll_eq [OF l True] limit_count_def limit_defs)
  qed
qed

text \<open>A limit reader is the stream of the first bytes of the stream below, if they are all there.\<close>

lemma limited_feed: "poll_source (limit_poll_read rd) (limit_wf True rest) limit_pending limit_stalls"
proof (rule poll_sourceI)
  fix n :: nat and l :: "'r limit_reader"
  assume l: "limit_wf True rest l" and n: "0 < n"
  show "poll_step (limit_poll_read rd) (limit_wf True rest) limit_pending limit_stalls n l"
  proof (rule limit_step [OF l n])
    assume "lr_current l < lr_max l"
    with l n show "poll_step rd wf pending stalls (min n (lr_max l - lr_current l)) (lr_reader l)"
      by (intro feed_spec) (auto simp: limit_wf_def)
  qed
qed

lemma limit_end: "limit_wf enough rest l \<Longrightarrow> limit_pending l = [] \<Longrightarrow> pending (lr_reader l) = rest"
  by (auto simp: limit_wf_def limit_pending_def)

text \<open>One byte into the header buffer.\<close>

lemma read_to_buffer_cases:
  assumes b: "buffer_inv (cr_buffer c)" "length (view (cr_buffer c)) < buffer_capacity (cr_buffer c)"
    and r: "wf (cr_reader c)" "pending (cr_reader c) \<noteq> []"
  obtains (stall) r' b' where
    "read_to_buffer rd c = (Pending, c\<lparr>cr_reader := r', cr_buffer := b'\<rparr>)"
    "buffer_inv b'" "buffer_capacity b' = buffer_capacity (cr_buffer c)" "wf r'"
    "view b' = view (cr_buffer c)" "pending r' = pending (cr_reader c)"
    "stalls r' < stalls (cr_reader c)"
  | (byte) r' b' x where
    "read_to_buffer rd c = (Ready (Ok ()), c\<lparr>cr_reader := r', cr_buffer := b'\<rparr>)"
    "buffer_inv b'" "buffer_capacity b' = buffer_capacity (cr_buffer c)" "wf r'"
    "view b' = view (cr_buffer c) @ [x]" "pending (cr_reader c) = x # pending r'"
    "stalls r' \<le> stalls (cr_reader c)"
proof -
  let ?b = "rotate_buffer (cr_buffer c)"
  note rot = rotate_buffer_ops [OF b(1)]
  have room: "as_mut_len ?b \<noteq> 0"
    using as_mut_len_eq [OF rot(1)] rot(2,3) b(2) by simp
  have "0 < (1 :: nat)" "1 \<le> length (pending (cr_reader c))" using r(2) by (simp_all add: Suc_le_eq)
  from r(1) this show ?thesis
  proof (cases rule: feed_cases)
    case (stall r')
    show ?thesis
      by (rule that(1) [where r' = r' and b' = ?b]) (use stall rot room in \<open>simp_all add: read_to_buffer_def Let_def\<close>)
  next
    case (data bs r')
    then obtain x where x: "bs = [x]" by (cases bs) auto
    have fits: "write_pointer ?b + length [x] \<le> length (inner ?b)"
      using rot(3,5) b(2) by (simp add: buffer_capacity_def)
    have "progress_write 1 (?b\<lparr>inner := overwrite (write_pointer ?b) [x] (inner ?b)\<rparr>) =
        ?b\<lparr>inner := overwrite (write_pointer ?b) [x] (inner ?b),
           write_pointer := write_pointer ?b + length [x]\<rparr>"
      using fits by (simp add: progress_write_def)
    with view_append [OF rot(1,4) fits] show ?thesis
      by (intro that(2) [where r' = r' and x = x and
        b' = "progress_write 1 (?b\<lparr>inner := overwrite (write_pointer ?b) [x] (inner ?b)\<rparr>)"])
        (use data x rot room in \<open>simp_all add: read_to_buffer_def Let_def\<close>)
  qed
qed

text \<open>
  What a loop that fills the header buffer up to \<open>i\<close> bytes does: it ends with the answer \<open>v\<close>, or
  has to wait; the bytes read and the bytes to come stay the same stream.
\<close>

definition fills :: "nat \<Rightarrow> 'a \<Rightarrow> 'r chunked_reader \<Rightarrow> 'a io poll \<times> 'r chunked_reader \<Rightarrow> bool" where
  "fills i v c out \<longleftrightarrow> (\<exists>res r' b'. out = (res, c\<lparr>cr_reader := r', cr_buffer := b'\<rparr>) \<and>
     buffer_inv b' \<and> buffer_capacity b' = buffer_capacity (cr_buffer c) \<and> wf r' \<and>
     view b' @ pending r' = view (cr_buffer c) @ pending (cr_reader c) \<and>
     (res = Pending \<and> length (view b') \<le> i \<and> stalls r' < stalls (cr_reader c) \<or>
      res = Ready (Ok v) \<and> length (view b') = i \<and> stalls r' \<le> stalls (cr_reader c)))"

lemma fills_now:
  "buffer_inv (cr_buffer c) \<Longrightarrow> wf (cr_reader c) \<Longrightarrow> length (view (cr_buffer c)) = i \<Longrightarrow>
   fills i v c (Ready (Ok v), c)"
  unfolding fills_def by (intro exI [of _ "cr_reader c"] exI [of _ "cr_buffer c"] exI) auto

lemma fills_step:
  assumes b: "buffer_inv (cr_buffer c)" "length (view (cr_buffer c)) < i"
      "i \<le> buffer_capacity (cr_buffer c)"
    and r: "wf (cr_reader c)" "i \<le> length (view (cr_buffer c) @ pending (cr_reader c))"
    and rest: "\<And>c'. buffer_inv (cr_buffer c') \<Longrightarrow> wf (cr_reader c') \<Longrightarrow>
      buffer_capacity (cr_buffer c') = buffer_capacity (cr_buffer c) \<Longrightarrow>
      view (cr_buffer c') @ pending (cr_reader c') = view (cr_buffer c) @ pending (cr_reader c) \<Longrightarrow>
      length (view (cr_buffer c')) = Suc (length (view (cr_buffer c))) \<Longrightarrow> fills i v c' (loop c')"
  shows "fills i v c (case read_to_buffer rd c of
      (Ready (Ok u), c') \<Rightarrow> loop c'
    | (Ready (Err e), c') \<Rightarrow> (Ready (Err e), c')
    | (Ready Panic, c') \<Rightarrow> (Ready Panic, c')
    | (Pending, c') \<Rightarrow> (Pending, c'))"
proof -
  have room: "length (view (cr_buffer c)) < buffer_capacity (cr_buffer c)"
    and more: "pending (cr_reader c) \<noteq> []"
    using b r by auto
  from b(1) room r(1) more show ?thesis
  proof (cases rule: read_to_buffer_cases)
    case (stall r' b')
    then show ?thesis
      unfolding fills_def using b(2)
      by (intro exI [of _ r'] exI [of _ b'] exI [of _ Pending]) simp
  next
    case (byte r' b' x)
    let ?c = "c\<lparr>cr_reader := r', cr_buffer := b'\<rparr>"
    from byte have "fills i v ?c (loop ?c)" by (intro rest) simp_all
    then obtain res r2 b2 where out: "loop ?c = (res, ?c\<lparr>cr_reader := r2, cr_buffer := b2\<rparr>)"
      "buffer_inv b2" "buffer_capacity b2 = buffer_capacity b'" "wf r2"
      "view b2 @ pending r2 = view b' @ pending r'"
      "res = Pending \<and> length (view b2) \<le> i \<and> stalls r2 < stalls r' \<or>
       res = Ready (Ok v) \<and> length (view b2) = i \<and> stalls r2 \<le> stalls r'"
      by (auto simp: fills_def)
    with byte show ?thesis
      unfolding fills_def by (intro exI [of _ r2] exI [of _ b2] exI [of _ res]) auto
  qed
qed

lemma crlf_loop_fills:
  assumes "buffer_inv (cr_buffer c)" "wf (cr_reader c)" "2 \<le> buffer_capacity (cr_buffer c)"
    "length (view (cr_buffer c)) \<le> 2" "view (cr_buffer c) @ pending (cr_reader c) = raw"
    "2 \<le> length raw"
  shows "fills 2 (take 2 raw) c (crlf_loop rd c)"
  using assms
proof (induction "2 - length (view (cr_buffer c))" arbitrary: c rule: less_induct)
  case less
  show ?case
  proof (cases "length (view (cr_buffer c)) = 2")
    case True
    then have "take 2 raw = view (cr_buffer c)" using less.prems(5) by auto
    with True less.prems show ?thesis
      by (simp add: crlf_loop.simps [of rd c] as_ref_view fills_now)
  next
    case False
    let ?next = "case read_to_buffer rd c of
        (Ready (Ok u), c') \<Rightarrow> crlf_loop rd c'
      | (Ready (Err e), c') \<Rightarrow> (Ready (Err e), c')
      | (Ready Panic, c') \<Rightarrow> (Ready Panic, c')
      | (Pending, c') \<Rightarrow> (Pending, c')"
    have "crlf_loop rd c = ?next"
      using False less.prems by (simp add: crlf_loop.simps [of rd c] as_ref_view)
    moreover have "fills 2 (take 2 raw) c ?next"
      by (intro fills_step less.hyps) (use False less.prems in simp_all)
    ultimately show ?thesis by simp
  qed
qed

lemma header_loop_fills:
  assumes "buffer_inv (cr_buffer c)" "wf (cr_reader c)" "i \<le> buffer_capacity (cr_buffer c)"
    "length (view (cr_buffer c)) \<le> i" "view (cr_buffer c) @ pending (cr_reader c) = raw"
    "find_chunk_header_end raw = Ok (Some i)"
  shows "fills i i c (header_loop rd c)"
  using assms
proof (induction "i - length (view (cr_buffer c))" arbitrary: c rule: less_induct)
  case less
  obtain ds rest where ds: "ds \<noteq> []" "list_all is_hex ds" "raw = ds @ [CR, NL] @ rest"
      "i = length ds + 2"
    using less.prems(6) by (auto simp: chunk_header_end_Some)
  have view: "view (cr_buffer c) = take (length (view (cr_buffer c))) (ds @ [CR, NL])"
    using arg_cong [OF less.prems(5), of "take (length (view (cr_buffer c))) \<circ> take i"] ds less.prems(4)
    by simp
  show ?case
  proof (cases "length (view (cr_buffer c)) = i")
    case True
    then have "view (cr_buffer c) = ds @ [CR, NL]" using view ds(4) by simp
    then have "find_chunk_header_end (view (cr_buffer c)) = Ok (Some i)"
      using ds by (auto simp: chunk_header_end_Some intro: exI [of _ ds])
    with True less.prems show ?thesis
      by (simp add: header_loop.simps [of rd c] as_ref_view fills_now)
  next
    case False
    then have "find_chunk_header_end (view (cr_buffer c)) = Ok None"
      using less.prems(4) ds(4) chunk_header_prefix [OF ds(1,2), of "length (view (cr_buffer c))"] view
      by simp
    let ?next = "case read_to_buffer rd c of
        (Ready (Ok u), c') \<Rightarrow> header_loop rd c'
      | (Ready (Err e), c') \<Rightarrow> (Ready (Err e), c')
      | (Ready Panic, c') \<Rightarrow> (Ready Panic, c')
      | (Pending, c') \<Rightarrow> (Pending, c')"
    from \<open>find_chunk_header_end (view (cr_buffer c)) = Ok None\<close> have "header_loop rd c = ?next"
      using less.prems(1) by (simp add: header_loop.simps [of rd c] as_ref_view)
    moreover have "fills i i c ?next"
      by (intro fills_step less.hyps) (use False less.prems ds(3,4) in simp_all)
    ultimately show ?thesis by simp
  qed
qed

text \<open>
  The states of a chunked reader whose stream encodes a body followed by \<open>rest\<close>, and what one
  poll does in them.
\<close>

definition chunk_raw :: "'r chunked_reader \<Rightarrow> byte list" where
  "chunk_raw c = view (cr_buffer c) @ pending (cr_reader c)"

lemma chunk_fill [simp]:
  "chunk_raw (c\<lparr>cr_reader := r', cr_buffer := b'\<rparr>) = view b' @ pending r'"
  "chunk_ahead (c\<lparr>cr_reader := r', cr_buffer := b'\<rparr>) raw = chunk_ahead c raw"
  "buffer_capacity b' = buffer_capacity (cr_buffer c) \<Longrightarrow>
   chunk_next p (c\<lparr>cr_reader := r', cr_buffer := b'\<rparr>) raw = chunk_next p c raw"
  by (cases "cr_status c"; simp add: chunk_raw_def chunk_ahead_def chunk_next_def Let_def)+

definition chunk_wf :: "profile \<Rightarrow> byte list \<Rightarrow> 'r chunked_reader \<Rightarrow> bool" where
  "chunk_wf p rest c \<longleftrightarrow> buffer_inv (cr_buffer c) \<and> 2 \<le> buffer_capacity (cr_buffer c) \<and>
     wf (cr_reader c) \<and> cr_chunk_count c \<le> cr_chunk_size c \<and>
     length (view (cr_buffer c)) \<le> chunk_ahead c (chunk_raw c) \<and>
     (\<exists>body. chunk_next p c (chunk_raw c) = Some (body, rest))"

definition chunk_pending :: "profile \<Rightarrow> 'r chunked_reader \<Rightarrow> byte list" where
  "chunk_pending p c = fst (the (chunk_next p c (chunk_raw c)))"

definition chunk_stalls :: "'r chunked_reader \<Rightarrow> nat" where
  "chunk_stalls c = stalls (cr_reader c)"

definition chunk_step ::
  "profile \<Rightarrow> byte list \<Rightarrow> nat \<Rightarrow> 'r chunked_reader \<Rightarrow> byte list io poll \<times> 'r chunked_reader \<Rightarrow> bool" where
  "chunk_step p rest n c out \<longleftrightarrow> (\<exists>res c'. out = (res, c') \<and> chunk_wf p rest c' \<and>
     (res = Pending \<and> chunk_pending p c' = chunk_pending p c \<and> chunk_stalls c' < chunk_stalls c \<or>
      (\<exists>bs. res = Ready (Ok bs) \<and> length bs \<le> n \<and> chunk_pending p c = bs @ chunk_pending p c' \<and>
         chunk_stalls c' \<le> chunk_stalls c \<and> (chunk_pending p c \<noteq> [] \<longrightarrow> bs \<noteq> []) \<and>
         (bs = [] \<longrightarrow> pending (cr_reader c') = rest))))"

lemma chunk_step_trans:
  assumes "chunk_step p rest n c1 out" "chunk_pending p c1 = chunk_pending p c"
    "chunk_stalls c1 \<le> chunk_stalls c"
  shows "chunk_step p rest n c out"
  using assms unfolding chunk_step_def by fastforce

lemma chunk_step_wait:
  assumes "chunk_wf p rest (c\<lparr>cr_reader := r', cr_buffer := b'\<rparr>)" "stalls r' < stalls (cr_reader c)"
    "view b' @ pending r' = chunk_raw c" "buffer_capacity b' = buffer_capacity (cr_buffer c)"
  shows "chunk_step p rest n c (Pending, c\<lparr>cr_reader := r', cr_buffer := b'\<rparr>)"
  using assms by (simp add: chunk_step_def chunk_pending_def chunk_stalls_def)

text \<open>Filling the header buffer as far as allowed keeps the state well formed.\<close>

lemma chunk_wf_fill:
  assumes "chunk_wf p rest c" "buffer_inv b'" "buffer_capacity b' = buffer_capacity (cr_buffer c)"
    "wf r'" "view b' @ pending r' = chunk_raw c" "length (view b') \<le> chunk_ahead c (chunk_raw c)"
  shows "chunk_wf p rest (c\<lparr>cr_reader := r', cr_buffer := b'\<rparr>)"
  using assms by (simp add: chunk_wf_def)

lemma read_data_step:
  assumes c: "chunk_wf p rest c" "cr_status c = ReadingChunk" "cr_chunk_count c < cr_chunk_size c"
    and n: "0 < n"
  shows "chunk_step p rest n c (read_data rd n c)"
proof -
  let ?left = "cr_chunk_size c - cr_chunk_count c" and ?b = "cr_buffer c" and ?r = "cr_reader c"
  have view: "view ?b = []" and raw: "chunk_raw c = pending ?r"
    using c by (auto simp: chunk_wf_def chunk_ahead_def chunk_raw_def)
  have crlf: "take 2 (drop ?left (pending ?r)) = CRNL" and wf_r: "wf ?r"
    using c raw by (auto simp: chunk_wf_def chunk_next_def Let_def split: if_splits)
  then have len: "?left + 2 \<le> length (pending ?r)"
    by (auto simp: CRNL_def dest!: arg_cong [of _ _ length])
  have eq: "read_data rd n c = (case rd (min n ?left) ?r of
      (Ready (Ok bs), r') \<Rightarrow>
        if bs = [] then (Ready (Err (IoError UnexpectedEof ''Incomplete chunk.'')), c\<lparr>cr_reader := r'\<rparr>)
        else (Ready (Ok bs), c\<lparr>cr_reader := r', cr_chunk_count := cr_chunk_count c + length bs\<rparr>)
    | (res, r') \<Rightarrow> (res, c\<lparr>cr_reader := r'\<rparr>))"
    using c(3) by (simp add: read_data_def chunk_remaining_def min_def)
  have "0 < min n ?left" "min n ?left \<le> length (pending ?r)" using n c(3) len by auto
  from wf_r this show ?thesis
  proof (cases rule: feed_cases)
    case (stall r')
    then show ?thesis
      using chunk_step_wait [where b' = ?b and r' = r' and c = c, OF chunk_wf_fill [OF c(1)]] c(1) view raw
      by (simp add: eq chunk_wf_def)
  next
    case (data bs r')
    let ?c = "c\<lparr>cr_reader := r', cr_chunk_count := cr_chunk_count c + length bs\<rparr>"
    have raw': "chunk_raw ?c = pending r'" using view by (simp add: chunk_raw_def)
    have drops: "drop ?left (pending ?r) = drop (?left - length bs) (pending r')"
      "drop (?left + 2) (pending ?r) = drop (?left - length bs + 2) (pending r')"
      "take ?left (pending ?r) = bs @ take (?left - length bs) (pending r')"
      using data(3,5) by (simp_all add: Suc_diff_le)
    have next': "chunk_next p c (pending ?r) =
        map_option (\<lambda>(body, r). (bs @ body, r)) (chunk_next p ?c (pending r'))"
      using c(2) drops crlf
      by (simp add: chunk_next_def Let_def option.map_comp comp_def case_prod_unfold)
    obtain body where body: "chunk_next p ?c (pending r') = Some (body, rest)"
      using next' c(1) raw by (auto simp: chunk_wf_def)
    have "cr_chunk_count c + length bs \<le> cr_chunk_size c" using data(3) c(3) by simp arith
    then have "chunk_wf p rest ?c"
      using c data view raw' body by (simp add: chunk_wf_def)
    with data body next' raw raw' show ?thesis
      by (simp add: eq chunk_step_def chunk_pending_def chunk_stalls_def)
  qed
qed

lemma read_terminating_crlf_step:
  assumes c: "chunk_wf p rest c" "cr_status c = Done"
  shows "chunk_step p rest n c (read_terminating_crlf rd c)"
proof -
  have crlf: "take 2 (chunk_raw c) = CRNL" and wf_c: "buffer_inv (cr_buffer c)" "wf (cr_reader c)"
      "2 \<le> buffer_capacity (cr_buffer c)" "length (view (cr_buffer c)) \<le> 2"
    using c by (auto simp: chunk_wf_def chunk_next_def chunk_ahead_def split: if_splits)
  then have len: "2 \<le> length (chunk_raw c)"
    by (auto simp: CRNL_def dest!: arg_cong [of _ _ length])
  have "fills 2 (take 2 (chunk_raw c)) c (crlf_loop rd c)"
    using crlf_loop_fills [OF wf_c _ len] by (simp add: chunk_raw_def)
  then obtain res r' b' where out: "crlf_loop rd c = (res, c\<lparr>cr_reader := r', cr_buffer := b'\<rparr>)"
    "buffer_inv b'" "buffer_capacity b' = buffer_capacity (cr_buffer c)" "wf r'"
    "view b' @ pending r' = chunk_raw c" "length (view b') \<le> 2"
    "res = Pending \<and> stalls r' < stalls (cr_reader c) \<or>
     res = Ready (Ok CRNL) \<and> stalls r' \<le> stalls (cr_reader c)"
    "res = Ready (Ok CRNL) \<Longrightarrow> length (view b') = 2"
    unfolding fills_def chunk_raw_def [symmetric] crlf by force
  have wf': "chunk_wf p rest (c\<lparr>cr_reader := r', cr_buffer := b'\<rparr>)"
    by (rule chunk_wf_fill [OF c(1) out(2-5)]) (use c(2) out(6) in \<open>simp add: chunk_ahead_def\<close>)
  from out(7) show ?thesis
  proof
    assume "res = Pending \<and> stalls r' < stalls (cr_reader c)"
    then show ?thesis
      using chunk_step_wait [OF wf' _ out(5,3)] c(2) out(1) by (simp add: read_terminating_crlf_def)
  next
    assume ok: "res = Ready (Ok CRNL) \<and> stalls r' \<le> stalls (cr_reader c)"
    have "chunk_pending p c = []" "chunk_pending p (c\<lparr>cr_reader := r', cr_buffer := b'\<rparr>) = []"
      using c(2) crlf out(3,5) by (simp_all add: chunk_pending_def) (simp_all add: chunk_next_def)
    moreover have "pending r' = rest" if "length (view b') = 2"
      using wf' c(2) that by (auto simp: chunk_wf_def) (auto simp: chunk_next_def split: if_splits)
    ultimately show ?thesis
      using ok wf' out(1,8) c(2)
      by (simp add: read_terminating_crlf_def chunk_step_def chunk_stalls_def CRNL_def)
  qed
qed

lemma read_chunk_header_step:
  assumes c: "chunk_wf p rest c" "cr_status c = WaitingForChunk" and n: "0 < n"
  shows "chunk_step p rest n c (read_chunk_header p rd n c)"
proof -
  let ?raw = "chunk_raw c" and ?cap = "buffer_capacity (cr_buffer c)"
  obtain body where body: "dechunk p ?cap ?raw = Some (body, rest)"
    using c by (auto simp: chunk_wf_def chunk_next_def)
  then obtain i sz where i: "find_chunk_header_end ?raw = Ok (Some i)" "i \<le> ?cap"
      "parse_chunk_header p (take i ?raw) = Ok sz"
    by (auto simp: dechunk.simps [of p ?cap ?raw] Let_def
        split: outcome.splits option.splits if_splits)
  have wf_c: "buffer_inv (cr_buffer c)" "wf (cr_reader c)" "length (view (cr_buffer c)) \<le> i"
    using c i(1) by (auto simp: chunk_wf_def chunk_ahead_def)
  obtain res r' b' where out: "header_loop rd c = (res, c\<lparr>cr_reader := r', cr_buffer := b'\<rparr>)"
    "buffer_inv b'" "buffer_capacity b' = ?cap" "wf r'" "view b' @ pending r' = ?raw"
    "length (view b') \<le> i"
    "res = Pending \<and> stalls r' < stalls (cr_reader c) \<or>
     res = Ready (Ok i) \<and> length (view b') = i \<and> stalls r' \<le> stalls (cr_reader c)"
    using header_loop_fills [OF wf_c(1,2) i(2) wf_c(3) _ i(1)]
    unfolding fills_def chunk_raw_def [symmetric] by force
  have wf': "chunk_wf p rest (c\<lparr>cr_reader := r', cr_buffer := b'\<rparr>)"
    by (rule chunk_wf_fill [OF c(1) out(2-5)]) (use c(2) i(1) out(6) in \<open>simp add: chunk_ahead_def\<close>)
  from out(7) show ?thesis
  proof
    assume "res = Pending \<and> stalls r' < stalls (cr_reader c)"
    then show ?thesis
      using chunk_step_wait [OF wf' _ out(5,3)] c(2) out(1) by (simp add: read_chunk_header_def)
  next
    assume ok: "res = Ready (Ok i) \<and> length (view b') = i \<and> stalls r' \<le> stalls (cr_reader c)"
    then have view: "view b' = take i ?raw" and pend: "pending r' = drop i ?raw"
      by (simp_all flip: out(5))
    define c2 where "c2 = c\<lparr>cr_reader := r', cr_buffer := progress i b', cr_chunk_size := unat sz,
        cr_chunk_count := 0\<rparr>"
    have c2: "buffer_inv (cr_buffer c2)" "view (cr_buffer c2) = []" "pending (cr_reader c2) = drop i ?raw"
      "buffer_capacity (cr_buffer c2) = ?cap" "wf (cr_reader c2)"
      using progress_ops [OF out(2), of i] ok out(3,4) pend by (simp_all add: c2_def)
    then have raw2: "chunk_raw (c2\<lparr>cr_status := st\<rparr>) = drop i ?raw" for st
      by (simp add: chunk_raw_def)
    have eq: "read_chunk_header p rd n c =
        (if sz > 0 then read_data rd n (c2\<lparr>cr_status := ReadingChunk\<rparr>)
         else read_terminating_crlf rd (c2\<lparr>cr_status := Done\<rparr>))"
      using c(2) out(1,2) ok view i(3) by (simp add: read_chunk_header_def as_ref_view c2_def Let_def)
    have stalls2: "chunk_stalls (c2\<lparr>cr_status := st\<rparr>) \<le> chunk_stalls c" for st
      using ok by (simp add: chunk_stalls_def c2_def)
    show ?thesis
    proof (cases "sz = 0")
      case True
      let ?c = "c2\<lparr>cr_status := Done\<rparr>"
      have "chunk_next p ?c (drop i ?raw) = Some (body, rest)"
        using body i True by (simp add: chunk_next_def dechunk.simps [of p ?cap ?raw] Let_def)
      then have "chunk_wf p rest ?c" "chunk_pending p ?c = chunk_pending p c"
        using c body c2 raw2 by (auto simp: chunk_wf_def chunk_pending_def chunk_ahead_def c2_def chunk_next_def [of p c])
      with chunk_step_trans [OF read_terminating_crlf_step _ stalls2] True eq
      show ?thesis by simp
    next
      case False
      let ?c = "c2\<lparr>cr_status := ReadingChunk\<rparr>"
      have pos: "0 < sz" "0 < unat sz"
        using False by (auto simp: word_gt_0 unat_gt_0)
      then have "chunk_next p ?c (drop i ?raw) = Some (body, rest)"
        using body i c2(4)
        by (simp add: chunk_next_def dechunk.simps [of p ?cap ?raw] Let_def c2_def split: if_splits)
      then have "chunk_wf p rest ?c" "chunk_pending p ?c = chunk_pending p c"
        using c body c2 raw2 by (auto simp: chunk_wf_def chunk_pending_def chunk_ahead_def c2_def chunk_next_def [of p c])
      with chunk_step_trans [OF read_data_step [OF _ _ _ n] _ stalls2] pos eq
      show ?thesis by (simp add: c2_def)
    qed
  qed
qed

lemma read_chunk_data_step:
  assumes c: "chunk_wf p rest c" "cr_status c = ReadingChunk" and n: "0 < n"
  shows "chunk_step p rest n c (read_chunk_data p rd n c)"
proof (cases "cr_chunk_count c = cr_chunk_size c")
  case False
  then have "cr_chunk_count c < cr_chunk_size c" using c(1) by (simp add: chunk_wf_def)
  with read_data_step [OF c this n] c(2) show ?thesis
    by (simp add: read_chunk_data_def chunk_remaining_def)
next
  case True
  let ?raw = "chunk_raw c" and ?cap = "buffer_capacity (cr_buffer c)"
  have crlf: "take 2 ?raw = CRNL" and wf_c: "buffer_inv (cr_buffer c)" "wf (cr_reader c)"
      "2 \<le> ?cap" "length (view (cr_buffer c)) \<le> 2"
    using c True by (auto simp: chunk_wf_def chunk_next_def chunk_ahead_def split: if_splits)
  then have len: "2 \<le> length ?raw"
    by (auto simp: CRNL_def dest!: arg_cong [of _ _ length])
  have "fills 2 (take 2 ?raw) c (crlf_loop rd c)"
    using crlf_loop_fills [OF wf_c _ len] by (simp add: chunk_raw_def)
  then obtain res r' b' where out: "crlf_loop rd c = (res, c\<lparr>cr_reader := r', cr_buffer := b'\<rparr>)"
    "buffer_inv b'" "buffer_capacity b' = ?cap" "wf r'" "view b' @ pending r' = ?raw"
    "length (view b') \<le> 2"
    "res = Pending \<and> stalls r' < stalls (cr_reader c) \<or>
     res = Ready (Ok CRNL) \<and> length (view b') = 2 \<and> stalls r' \<le> stalls (cr_reader c)"
    unfolding fills_def chunk_raw_def [symmetric] crlf by force
  have wf': "chunk_wf p rest (c\<lparr>cr_reader := r', cr_buffer := b'\<rparr>)"
    by (rule chunk_wf_fill [OF c(1) out(2-5)]) (use c(2) True out(6) in \<open>simp add: chunk_ahead_def\<close>)
  from out(7) show ?thesis
  proof
    assume "res = Pending \<and> stalls r' < stalls (cr_reader c)"
    then show ?thesis
      using chunk_step_wait [OF wf' _ out(5,3)] c(2) out(1) True
      by (simp add: read_chunk_data_def chunk_remaining_def)
  next
    assume ok: "res = Ready (Ok CRNL) \<and> length (view b') = 2 \<and> stalls r' \<le> stalls (cr_reader c)"
    let ?c = "c\<lparr>cr_reader := r', cr_buffer := progress 2 b', cr_status := WaitingForChunk\<rparr>"
    have eq: "read_chunk_data p rd n c = read_chunk_header p rd n ?c"
      using ok out(1) c(2) True by (simp add: read_chunk_data_def chunk_remaining_def CRNL_def)
    have b2: "buffer_inv (progress 2 b')" "view (progress 2 b') = []"
        "buffer_capacity (progress 2 b') = ?cap"
      using progress_ops [OF out(2), of 2] ok out(3) by simp_all
    have "pending r' = drop 2 ?raw" using ok by (simp flip: out(5))
    then have raw2: "chunk_raw ?c = drop 2 ?raw" using b2(2) by (simp add: chunk_raw_def)
    have next2: "chunk_next p ?c (drop 2 ?raw) = chunk_next p c ?raw"
      using c(2) True crlf b2(3) by (simp add: chunk_next_def option.map_id numeral_2_eq_2)
    then have "chunk_wf p rest ?c" "chunk_pending p ?c = chunk_pending p c"
      using c b2 raw2 out(4) by (simp_all add: chunk_wf_def chunk_pending_def)
    with chunk_step_trans [OF read_chunk_header_step [OF _ _ n], of p rest ?c c] ok eq
    show ?thesis by (simp add: chunk_stalls_def)
  qed
qed

lemma chunked_step:
  "chunk_wf p rest c \<Longrightarrow> 0 < n \<Longrightarrow> chunk_step p rest n c (chunked_poll_read p rd n c)"
  using read_chunk_header_step read_chunk_data_step read_terminating_crlf_step
  by (cases "cr_status c") (simp_all add: chunked_poll_read_def)

text \<open>When it reports the end it has taken exactly the encoding of the body from that stream.\<close>

lemma chunked_end:
  assumes "chunk_wf p rest c" "0 < n" "chunked_poll_read p rd n c = (Ready (Ok []), c')"
  shows "pending (cr_reader c') = rest"
  using chunked_step [OF assms(1,2)] assms(3) by (auto simp: chunk_step_def)

text \<open>A chunked reader is the stream of the body that the stream below encodes.\<close>

lemma chunked: "poll_source (chunked_poll_read p rd) (chunk_wf p rest) (chunk_pending p) chunk_stalls"
proof (rule poll_sourceI)
  fix c :: "'r chunked_reader" and n :: nat
  assume "chunk_wf p rest c" "0 < n"
  from chunked_step [OF this, unfolded chunk_step_def]
  show "poll_step (chunked_poll_read p rd) (chunk_wf p rest) (chunk_pending p) chunk_stalls n c"
    by (auto simp: poll_step_def)
qed

text \<open>A whole body, from a fresh reader.\<close>

lemma reads_chunked:
  assumes "wf r" "dechunk p cap (pending r) = Some (body, rest)" "2 \<le> cap"
    and "\<forall>n\<in>set ns. 0 < n" "length body + stalls r < length ns"
  shows "\<exists>c. read_polls (chunked_poll_read p rd) ns (chunked_new r cap pooled) = (Ok (body, True), c) \<and>
    pending (cr_reader c) = rest"
proof -
  let ?c = "chunked_new r cap pooled"
  have b: "buffer_inv (cr_buffer ?c)" "view (cr_buffer ?c) = []" "buffer_capacity (cr_buffer ?c) = cap"
    by (simp_all add: chunked_new_def chunked_new_with_buffer_def buffer_ops split: option.split)
  have c: "cr_reader ?c = r" "cr_status ?c = WaitingForChunk" "cr_chunk_count ?c = cr_chunk_size ?c"
    by (simp_all add: chunked_new_def chunked_new_with_buffer_def)
  have raw: "chunk_raw ?c = pending r" using b c by (simp add: chunk_raw_def)
  have wf: "chunk_wf p rest ?c"
    using assms(1-3) b c raw by (simp add: chunk_wf_def chunk_next_def)
  have pend: "chunk_pending p ?c = body" "chunk_stalls ?c = stalls r"
    using assms(2) b c raw
    by (simp_all add: chunk_pending_def chunk_stalls_def chunk_next_def)
  then have "length (chunk_pending p ?c) + chunk_stalls ?c < length ns"
    using assms(5) by simp
  from poll_source.read_polls_all [OF chunked wf assms(4) this] obtain c where
    c: "read_polls (chunked_poll_read p rd) ns ?c = (Ok (body, True), c)"
    using pend by metis
  from poll_source.read_polls_end [OF chunked this wf assms(4)] chunked_end
  have "pending (cr_reader c) = rest" by blast
  with c show ?thesis by blast
qed

lemma reads_limited:
  assumes "wf r" "m \<le> length (pending r)" "\<forall>n\<in>set ns. 0 < n" "m + stalls r < length ns"
  shows "\<exists>l. read_polls (limit_poll_read rd) ns (limit_new r m) = (Ok (take m (pending r), True), l) \<and>
    wf (lr_reader l) \<and> pending (lr_reader l) = drop m (pending r)"
proof -
  let ?l = "limit_new r m"
  have wf: "limit_wf True (drop m (pending r)) ?l" and pend: "limit_pending ?l = take m (pending r)"
    "limit_stalls ?l = stalls r"
    using assms(1,2) by (simp_all add: limit_new_def limit_defs)
  then have "length (limit_pending ?l) + limit_stalls ?l < length ns"
    using assms(2,4) by (simp add: min_def)
  from poll_source.read_polls_all [OF limited_feed wf assms(3) this] obtain l where
    "read_polls (limit_poll_read rd) ns ?l = (Ok (limit_pending ?l, True), l)"
    "limit_wf True (drop m (pending r)) l" "limit_pending l = []"
    by metis
  with pend limit_end show ?thesis by (auto simp: limit_wf_def)
qed

end

text \<open>Over a stream that reports its end, a limit reader does so too when the stream is too short.\<close>

context poll_source
begin

lemma limited: "poll_source (limit_poll_read rd) (limit_wf False rest) limit_pending limit_stalls"
proof (rule poll_sourceI)
  fix n :: nat and l :: "'r limit_reader"
  assume l: "limit_wf False rest l" and n: "0 < n"
  then show "poll_step (limit_poll_read rd) (limit_wf False rest) limit_pending limit_stalls n l"
    by (intro limit_step [OF l n] source_spec) (auto simp: limit_wf_def)
qed

end

lemma chunked_reads:
  assumes "dechunk p cap (concat cs) = Some (body, rest)" "2 \<le> cap"
    and "\<forall>n\<in>set ns. 0 < n" "length body + script_stalls cs < length ns"
  shows "\<exists>c. read_polls (chunked_poll_read p script_reader) ns (chunked_new cs cap pooled) =
      (Ok (body, True), c) \<and> concat (cr_reader c) = rest"
  using assms by (intro script.reads_chunked) simp_all

section \<open>Properties\<close>

text \<open>
  A \<open>LimitReader\<close> over any stream, however the bytes are cut and whatever polls have to wait,
  hands out exactly the first \<open>m\<close> bytes, then reports the end, and leaves the bytes after them in
  the stream for the next request.
\<close>

lemma limit_reader_cuts_body:
  assumes "\<forall>n\<in>set ns. 0 < n" "length (concat cs) + script_stalls cs < length ns"
  shows "\<exists>l. read_polls (limit_poll_read script_reader) ns (limit_new cs m) =
      (Ok (take m (concat cs), True), l) \<and> concat (lr_reader l) = drop m (concat cs)"
proof -
  let ?l = "limit_new cs m"
  have wf: "script.limit_wf False (drop m (concat cs)) ?l"
    by (simp add: script.limit_wf_def limit_new_def)
  have pend: "script.limit_pending ?l = take m (concat cs)" "script.limit_stalls ?l = script_stalls cs"
    by (simp_all add: script.limit_pending_def script.limit_stalls_def limit_new_def)
  then have "length (script.limit_pending ?l) + script.limit_stalls ?l < length ns"
    using assms(2) by simp
  from poll_source.read_polls_all [OF script.limited wf assms(1) this] obtain l where
    "read_polls (limit_poll_read script_reader) ns ?l = (Ok (take m (concat cs), True), l)"
    "script.limit_wf False (drop m (concat cs)) l" "script.limit_pending l = []"
    using pend by metis
  then show ?thesis using script.limit_end by blast
qed

text \<open>
  C27. \<open>ChunkedReader\<close> agrees with the one-shot decoder: whenever the bytes of the stream encode a
  body, then however they are cut, whichever polls have to wait and whatever buffers the caller
  reads into, the reader delivers exactly that body and reports its end, and it has taken
  exactly the encoding from the stream: the next request starts at the right byte.
\<close>

theorem chunked_reader_decodes:
  assumes "dechunk p cap (concat cs) = Some (body, rest)" "2 \<le> cap"
    and "\<forall>n\<in>set ns. 0 < n" "length body + script_stalls cs < length ns"
  shows "\<exists>c. read_polls (chunked_poll_read p script_reader) ns (chunked_new cs cap pooled) =
      (Ok (body, True), c) \<and> concat (cr_reader c) = rest"
  using assms by (rule chunked_reads)

theorem chunked_reader_decodes_witness:
  "\<exists>c. read_polls (chunked_poll_read Debug script_reader) [2, 4, 4, 4, 4, 4]
      (chunked_new [bytes_of ''3'', [], [CR, NL, 1], [2, 3, CR], [NL] @ bytes_of ''0'' @ CRNL @ CRNL @ [7, 8]] 8 None) =
      (Ok ([1, 2, 3], True), c) \<and> concat (cr_reader c) = [7, 8]"
proof -
  let ?cs = "[bytes_of ''3'', [], [CR, NL, 1], [2, 3, CR], [NL] @ bytes_of ''0'' @ CRNL @ CRNL @ [7, 8]]"
  have "concat ?cs = bytes_of ''3'' @ CRNL @ [1, 2, 3] @ CRNL @ bytes_of ''0'' @ CRNL @ CRNL @ [7, 8]"
    by (simp add: CRNL_def)
  moreover have "dechunk Debug 8 \<dots> = Some ([1, 2, 3], [7, 8])"
    using dechunk_Cons [of "bytes_of ''3''" 8 "[1, 2, 3]"] dechunk_last [of "bytes_of ''0''" 8]
    by (simp add: bytes_of_def is_hex_def hex_digit_def)
  ultimately have "dechunk Debug 8 (concat ?cs) = Some ([1, 2, 3], [7, 8])" by (simp only:)
  then show ?thesis
    by (rule chunked_reader_decodes) (simp_all add: script_stalls_def bytes_of_def)
qed

text \<open>
  The framing of a request body. A body of fixed length is announced exactly by a method that
  is not safe, no \<open>transfer-encoding\<close>, and a \<open>content-length\<close> that is a positive decimal number
  of 64 bits, with or without a plus sign; \<open>transfer-encoding\<close> takes precedence and has to be
  exactly \<open>chunked\<close>; a safe method never has a body, whatever its headers announce.
\<close>

lemma body_framing:
  "(determine_body_type to_str safe te cl = Ok (Fixed n) \<longleftrightarrow>
     \<not> safe \<and> te = None \<and> 0 < n \<and> n < 2 ^ 64 \<and>
     (\<exists>v ds. cl = Some v \<and> (to_str v = Some ds \<or> to_str v = Some (43 # ds)) \<and> ds \<noteq> [] \<and>
        list_all (\<lambda>d. 48 \<le> d \<and> d \<le> 57) ds \<and> foldl (\<lambda>acc d. 10 * acc + (unat d - 48)) 0 ds = n)) \<and>
   (determine_body_type to_str safe te cl = Ok Chunked \<longleftrightarrow>
     \<not> safe \<and> (\<exists>v. te = Some v \<and> to_str v = Some (bytes_of ''chunked''))) \<and>
   determine_body_type to_str True te cl = Ok NoBody"
  by (auto simp: determine_body_type_def parse_length_def bad_value_def parse_usize_Some
      split: option.splits if_splits)

end
