(* ===== verification/H2_Stream.thy ===== *)
theory H2_Stream
  imports H2_Wire Request
begin

text \<open>
  \<open>src/src/http2/stream.rs\<close> and the \<open>BackgroundRead\<close> of \<open>src/src/http2/mod.rs\<close>: one stream of an
  HTTP/2 connection, the task that runs it, and the reader through which the handler gets the
  request body. The task talks to its connection through two queues: \<open>stream_req\<close> messages come
  in, \<open>conn_req\<close> messages go out. Windows are \<open>i32\<close>.
\<close>

section \<open>The state table\<close>

datatype stream_state =
  Idle | ReservedLocal | ReservedRemote | Open | HalfClosedLocal | HalfClosedRemote | Closed

definition is_frame_forbidden :: "stream_state \<Rightarrow> frame_type \<Rightarrow> unit h2" where
  "is_frame_forbidden st t = (case st of
     Idle \<Rightarrow>
       if t \<in> {FT_Headers, FT_Priority} then Ok () else Err (ConnErr ProtocolError)
   | ReservedLocal \<Rightarrow>
       if t \<in> {FT_RstStream, FT_Priority, FT_WindowUpdate} then Ok () else Err (ConnErr ProtocolError)
   | ReservedRemote \<Rightarrow>
       if t \<in> {FT_Headers, FT_RstStream, FT_Priority} then Ok () else Err (ConnErr ProtocolError)
   | Open \<Rightarrow> Ok ()
   | HalfClosedLocal \<Rightarrow> Ok ()
   | HalfClosedRemote \<Rightarrow>
       if t \<in> {FT_RstStream, FT_Priority, FT_WindowUpdate} then Ok () else Err (StreamErr StreamClosed)
   | Closed \<Rightarrow>
       if t \<in> {FT_RstStream, FT_Priority, FT_WindowUpdate} then Ok () else Err (StreamErr StreamClosed))"

section \<open>Messages and the state of a stream\<close>

datatype stream_req =
  AvailableWindow int | WindowUpdate int | RequestBody data_frame | Reset

text \<open>A response without its body: the status and the header fields.\<close>

type_synonym resp_head = "byte list \<times> (byte list \<times> byte list) list"

datatype conn_req =
  CR_Frame frame
| CR_Response resp_head u32 bool
| CR_GetWindow u32 int
| CR_PutWindow int
| CR_UpdatePeerWindow u32 int
| CR_StreamClosing u32 "h2_error option"
| CR_StreamClosed u32

text \<open>
  \<open>Stream\<close>. The channel to the body reader is its presence (\<open>background_tx\<close>), what was put into it
  (\<open>body_queue\<close>) and whether its receiver still exists (\<open>body_open\<close>); the channel to the
  connection is what was sent (\<open>sent\<close>) and whether the connection still listens (\<open>conn_open\<close>).
\<close>

record stream =
  s_id :: u32
  s_state :: stream_state
  available_window :: int
  window :: int
  s_peer_window :: int
  background_tx :: bool
  body_open :: bool
  body_queue :: "byte list list"
  window_rx :: bool
  conn_open :: bool
  sent :: "conn_req list"

definition stream_new :: "u32 \<Rightarrow> stream_state \<Rightarrow> int \<Rightarrow> int \<Rightarrow> stream" where
  "stream_new i st w pw = \<lparr>s_id = i, s_state = st, available_window = 0, window = w,
     s_peer_window = pw, background_tx = False, body_open = False, body_queue = [],
     window_rx = False, conn_open = True, sent = []\<rparr>"

text \<open>\<open>self.conn_tx.send(req)\<close>, with the error the caller turns a closed channel into.\<close>

definition send_conn :: "h2_error \<Rightarrow> conn_req \<Rightarrow> (stream, unit, h2_error) stateful" where
  "send_conn e m s = (if conn_open s then (Ok (), s\<lparr>sent := sent s @ [m]\<rparr>) else (Err e, s))"

section \<open>Requests to the stream\<close>

definition receive_body :: "data_frame \<Rightarrow> (stream, unit, h2_error) stateful" where
  "receive_body frame s =
     (if \<not> background_tx s then (Err (ConnErr ProtocolError), s)
      else case usize_to_i32 (length (d_data frame)) of
        None \<Rightarrow> (Err (ConnErr ProtocolError), s)
      | Some amount \<Rightarrow>
          if amount > s_peer_window s then (Err (ConnErr FlowControlError), s)
          else if \<not> body_open s
          then send_conn (ConnErr InternalError) (CR_UpdatePeerWindow (s_id s) amount) s
          else
            let s' = s\<lparr>body_queue := body_queue s @ [d_data frame]\<rparr> in
            case i32_checked_sub (s_peer_window s') amount of
              None \<Rightarrow> (Err (ConnErr ProtocolError), s')
            | Some w \<Rightarrow> (Ok (), s'\<lparr>s_peer_window := w\<rparr>))"

definition handle_req :: "stream_req \<Rightarrow> (stream, unit, h2_error) stateful" where
  "handle_req req s = (case req of
     RequestBody frame \<Rightarrow> receive_body frame s
   | AvailableWindow amount \<Rightarrow>
       (case i32_checked_add (available_window s) amount of
          Some w \<Rightarrow> (Ok (), s\<lparr>available_window := w\<rparr>)
        | None \<Rightarrow> (Err (ConnErr ProtocolError), s))
   | WindowUpdate amount \<Rightarrow>
       (case i32_checked_add (window s) amount of
          Some w \<Rightarrow> (Ok (), s\<lparr>window := w\<rparr>)
        | None \<Rightarrow> (Err (ConnErr ProtocolError), s))
   | Reset \<Rightarrow> (Err (StreamErr NoError), s))"

text \<open>
  \<open>main_select\<close> waits for one event: a request, or, while \<open>window_rx\<close> is there, the amount of a
  body chunk the handler has consumed. Either channel can turn out to be closed.
\<close>

datatype event = Ev_Req "stream_req option" | Ev_Window "int option"

definition main_select :: "event \<Rightarrow> (stream, unit, h2_error) stateful" where
  "main_select ev s = (case ev of
     Ev_Req None \<Rightarrow> (Err (ConnErr InternalError), s)
   | Ev_Req (Some req) \<Rightarrow> handle_req req s
   | Ev_Window None \<Rightarrow> (Ok (), s\<lparr>window_rx := False\<rparr>)
   | Ev_Window (Some amount) \<Rightarrow>
       (case i32_checked_add (s_peer_window s) amount of
          None \<Rightarrow> (Err (ConnErr InternalError), s)
        | Some w \<Rightarrow>
            send_conn (ConnErr InternalError) (CR_UpdatePeerWindow (s_id s) amount)
              (s\<lparr>s_peer_window := w\<rparr>)))"

text \<open>The events that can come: the window channel only while the stream holds it.\<close>

definition event_enabled :: "stream \<Rightarrow> event \<Rightarrow> bool" where
  "event_enabled s ev = (case ev of Ev_Req _ \<Rightarrow> True | Ev_Window _ \<Rightarrow> window_rx s)"

section \<open>The request body\<close>

text \<open>\<open>get_response\<close> opens the body channel unless the request has no body.\<close>

definition open_body :: "bool \<Rightarrow> body_type \<Rightarrow> stream \<Rightarrow> stream" where
  "open_body stream_end bt s =
     (if stream_end then s
      else case bt of
        NoBody \<Rightarrow> s
      | _ \<Rightarrow> s\<lparr>background_tx := True, body_open := True, window_rx := True\<rparr>)"

section \<open>Sending a body\<close>

text \<open>A chunk of the body was read into \<open>body_buffer\<close>: the end, or a chunk to send.\<close>

definition end_of_body :: "(stream, unit, h2_error) stateful" where
  "end_of_body s = send_conn (ConnErr InternalError)
     (CR_Frame (data_enc \<lparr>d_stream = s_id s, d_end_stream = True, d_data = []\<rparr>)) s"

text \<open>The request for more of the global window; the result is what is still needed.\<close>

definition request_window :: "int \<Rightarrow> (stream, int, h2_error) stateful" where
  "request_window window_needed s =
     (if window_needed > 0 \<and> window s > 0
      then
        let amount = (if window s \<ge> window_needed then window_needed else window s) in
        sbind (send_conn (ConnErr InternalError) (CR_GetWindow (s_id s) amount))
          (\<lambda>_. sret (window_needed - amount)) (s\<lparr>window := window s - amount\<rparr>)
      else (Ok window_needed, s))"

text \<open>One DATA frame, as large as the window and the buffer allow.\<close>

definition send_available :: "(stream \<times> buffer, unit, h2_error) stateful" where
  "send_available sb =
     (let (s, b) = sb;
          available = available_for_read b;
          win = nat (available_window s);
          amount = (if win > available then available else win)
      in case obind (as_ref b) (slice 0 amount) of
        Ok data \<Rightarrow>
          let b' = progress amount b in
          (case usize_to_i32 amount of
             None \<Rightarrow> (Err (StreamErr InternalError), (s, b'))
           | Some n \<Rightarrow>
               let (r, s') = send_conn (ConnErr InternalError)
                 (CR_Frame (data_enc \<lparr>d_stream = s_id s, d_end_stream = False, d_data = data\<rparr>))
                 (s\<lparr>available_window := available_window s - n\<rparr>)
               in (r, (s', b')))
      | Err e \<Rightarrow> (Err e, sb)
      | Panic \<Rightarrow> (Panic, sb))"

text \<open>
  One iteration of the inner loop of \<open>send_body\<close>: the chunk is out (\<open>Sent\<close>), another iteration
  (\<open>Again\<close>), or the wait for an event (\<open>Wait\<close>).
\<close>

datatype next_step = Sent | Again int | Wait int

definition body_step :: "int \<Rightarrow> (stream \<times> buffer, next_step, h2_error) stateful" where
  "body_step window_needed sb =
     (let (s, b) = sb in
      if available_for_read b = 0 then (Ok Sent, sb)
      else case request_window window_needed s of
        (Ok needed, s1) \<Rightarrow>
          if available_window s1 > 0
          then sbind send_available (\<lambda>_. sret (Again needed)) (s1, b)
          else (Ok (Wait needed), (s1, b))
      | (Err e, s1) \<Rightarrow> (Err e, (s1, b))
      | (Panic, s1) \<Rightarrow> (Panic, (s1, b)))"

lemma send_available_shrinks:
  assumes "send_available (s, b) = (Ok (), (s', b'))" "0 < available_window s" "available_for_read b \<noteq> 0"
  shows "available_for_read b' < available_for_read b"
proof -
  let ?n = "if nat (available_window s) > available_for_read b then available_for_read b
    else nat (available_window s)"
  have "b' = progress ?n b"
    using assms(1) by (auto simp: send_available_def Let_def split: outcome.splits option.splits prod.splits)
  moreover have "0 < ?n" using assms(2,3) by simp
  ultimately show ?thesis
    using assms(3) by (auto simp: progress_def Let_def available_for_read_def split: if_splits)
qed

text \<open>The loop up to its end or to the next wait.\<close>

lemma body_step_shrinks:
  assumes "body_step needed sb = (Ok (Again needed'), sb')"
  shows "available_for_read (snd sb') < available_for_read (snd sb)"
proof -
  obtain s b s' b' where sb: "sb = (s, b)" "sb' = (s', b')" by (cases sb; cases sb')
  have b: "available_for_read b \<noteq> 0"
    using assms sb by (auto simp: body_step_def split: if_splits)
  obtain n s1 where req: "request_window needed s = (Ok n, s1)" "0 < available_window s1"
    using assms sb b by (auto simp: body_step_def split: prod.splits outcome.splits if_splits)
  have "send_available (s1, b) = (Ok (), (s', b'))"
    using assms sb b req by (auto simp: body_step_def sbind_def split: prod.splits outcome.splits)
  with req(2) b sb show ?thesis by (simp add: send_available_shrinks)
qed

function body_run :: "int \<Rightarrow> (stream \<times> buffer, next_step, h2_error) stateful" where
  "body_run window_needed sb =
     (case body_step window_needed sb of
        (Ok (Again needed), sb') \<Rightarrow> body_run needed sb'
      | r \<Rightarrow> r)"
  by pat_completeness auto
termination
  by (relation "measure (\<lambda>(needed, sb). available_for_read (snd sb))")
    (auto dest: body_step_shrinks [OF sym])

declare body_run.simps [simp del]

text \<open>
  \<open>send_body\<close> over what happens while it runs, in order: events, and reads of the body. Its phase
  is \<open>None\<close> in the outer \<open>select!\<close> and \<open>Some needed\<close> in the wait of the inner loop, where the body is
  not read. The result is \<open>Ready\<close> when the end of the body was sent, \<open>Pending\<close> when more has to
  happen.
\<close>

datatype body_input = B_Event event | B_Read "byte list io"

definition read_chunk :: "byte list io \<Rightarrow> buffer \<Rightarrow> nat io \<times> buffer" where
  "read_chunk bs b = (case read_from_reader (\<lambda>_ r. (bs, r)) b () of (r, b', _) \<Rightarrow> (r, b'))"

fun send_body :: "body_input list \<Rightarrow> int option \<Rightarrow> (stream \<times> buffer, unit poll, h2_error) stateful" where
  "send_body [] phase sb = (Ok Pending, sb)"
| "send_body (B_Event ev # ins) None (s, b) =
     (case main_select ev s of
        (Ok _, s') \<Rightarrow> send_body ins None (s', b)
      | (Err e, s') \<Rightarrow> (Err e, (s', b))
      | (Panic, s') \<Rightarrow> (Panic, (s', b)))"
| "send_body (B_Read r # ins) None (s, b) =
     (case read_chunk r b of
        (Err e, b') \<Rightarrow> (Err (StreamErr InternalError), (s, b'))
      | (Panic, b') \<Rightarrow> (Panic, (s, b'))
      | (Ok amount, b') \<Rightarrow>
          if amount = 0
          then (case end_of_body s of
              (Ok _, s') \<Rightarrow> (Ok (Ready ()), (s', b'))
            | (Err e, s') \<Rightarrow> (Err e, (s', b'))
            | (Panic, s') \<Rightarrow> (Panic, (s', b')))
          else (case usize_to_i32 amount of
              None \<Rightarrow> (Err (StreamErr InternalError), (s, b'))
            | Some needed \<Rightarrow>
                (case body_run needed (s, b') of
                   (Ok (Wait n), sb') \<Rightarrow> send_body ins (Some n) sb'
                 | (Ok _, sb') \<Rightarrow> send_body ins None sb'
                 | (Err e, sb') \<Rightarrow> (Err e, sb')
                 | (Panic, sb') \<Rightarrow> (Panic, sb'))))"
| "send_body (B_Event ev # ins) (Some needed) (s, b) =
     (case main_select ev s of
        (Ok _, s') \<Rightarrow>
          (case body_run needed (s', b) of
             (Ok (Wait n), sb') \<Rightarrow> send_body ins (Some n) sb'
           | (Ok _, sb') \<Rightarrow> send_body ins None sb'
           | (Err e, sb') \<Rightarrow> (Err e, sb')
           | (Panic, sb') \<Rightarrow> (Panic, sb'))
      | (Err e, s') \<Rightarrow> (Err e, (s', b))
      | (Panic, s') \<Rightarrow> (Panic, (s', b)))"
| "send_body (B_Read r # ins) (Some needed) sb = (Ok Pending, sb)"

section \<open>The end of the task and the handle\<close>

text \<open>\<open>run_inner\<close> after \<open>main\<close> has ended with \<open>result\<close>; a failed send ends it.\<close>

definition run_inner_end :: "unit h2 \<Rightarrow> stream \<Rightarrow> stream" where
  "run_inner_end result s0 =
     (let error = (case result of Err e \<Rightarrow> Some e | _ \<Rightarrow> None);
          put = (if available_window s0 > 0
            then send_conn (ConnErr InternalError) (CR_PutWindow (available_window s0))
              (s0\<lparr>available_window := 0\<rparr>)
            else (Ok (), s0))
      in snd (sbind (\<lambda>_. put) (\<lambda>_.
           sbind (send_conn (ConnErr InternalError) (CR_StreamClosing (s_id s0) error)) (\<lambda>_.
           send_conn (ConnErr InternalError) (CR_StreamClosed (s_id s0)))) s0))"

section \<open>Accounting\<close>

text \<open>The body bytes in a run of messages, and the global window it asks for.\<close>

fun frame_data :: "conn_req \<Rightarrow> byte list" where
  "frame_data (CR_Frame f) = (if ftype (header f) = FT_Data then payload f else [])"
| "frame_data _ = []"

fun window_request :: "conn_req \<Rightarrow> int" where
  "window_request (CR_GetWindow i n) = n"
| "window_request _ = 0"

definition data_of :: "conn_req list \<Rightarrow> byte list" where
  "data_of ms = concat (map frame_data ms)"

definition requested :: "conn_req list \<Rightarrow> int" where
  "requested ms = sum_list (map window_request ms)"

lemma data_of_simps [simp]:
  "data_of [] = []" "data_of (ms @ ns) = data_of ms @ data_of ns" "data_of [m] = frame_data m"
  by (simp_all add: data_of_def)

lemma requested_simps [simp]:
  "requested [] = 0" "requested (ms @ ns) = requested ms + requested ns"
  "requested [m] = window_request m"
  by (simp_all add: requested_def)

lemma frame_data_enc [simp]: "frame_data (CR_Frame (data_enc d)) = d_data d"
  by (simp add: data_enc_def)

declare frame_data.simps(1) [simp del]

text \<open>
  What a piece of \<open>send_body\<close> may do between two events: it sends \<open>new\<close>, pays the data in it from
  the window it was given and the requests in it from its own window, and leaves the rest of the
  stream alone.
\<close>

definition pays :: "stream \<Rightarrow> stream \<Rightarrow> conn_req list \<Rightarrow> bool" where
  "pays s s' new \<longleftrightarrow>
     s' = s\<lparr>available_window := available_window s - int (length (data_of new)),
            window := window s - requested new, sent := sent s @ new\<rparr> \<and>
     (0 \<le> available_window s \<longrightarrow> 0 \<le> available_window s') \<and> (0 \<le> window s \<longrightarrow> 0 \<le> window s') \<and>
     0 \<le> requested new"

lemma pays_refl [simp]: "pays s s []"
  by (simp add: pays_def)

lemma pays_trans: "pays s s1 ms \<Longrightarrow> pays s1 s2 ns \<Longrightarrow> pays s s2 (ms @ ns)"
  by (auto simp: pays_def algebra_simps)

lemma request_window_pays:
  assumes "request_window needed s = (Ok n, s')"
  obtains new where "pays s s' new" "data_of new = []" "n = needed - requested new"
    "0 \<le> needed \<Longrightarrow> requested new \<le> needed"
    "0 < needed \<Longrightarrow> 0 < window s \<Longrightarrow> 0 < requested new"
proof (cases "needed > 0 \<and> window s > 0")
  case True
  let ?n = "if window s \<ge> needed then needed else window s"
  have "n = needed - ?n"
      "s' = s\<lparr>window := window s - ?n, sent := sent s @ [CR_GetWindow (s_id s) ?n]\<rparr>"
    using assms True by (auto simp: request_window_def send_conn_def sbind_def Let_def split: if_splits)
  with True that [of "[CR_GetWindow (s_id s) ?n]"] show thesis by (simp add: pays_def)
next
  case False
  with assms have "n = needed" "s' = s" by (auto simp: request_window_def)
  with False that [of "[]"] show thesis by simp
qed

lemma request_window_total: "request_window needed s \<noteq> (Panic, s')"
  by (auto simp: request_window_def send_conn_def sbind_def Let_def)

lemma send_available_pays:
  assumes "send_available (s, b) = (Ok (), (s', b'))" "buffer_inv b" "0 < available_window s"
  obtains new where "pays s s' new" "requested new = 0" "view b = data_of new @ view b'"
    "buffer_inv b'" "buffer_capacity b' = buffer_capacity b"
proof -
  define n where "n = (if nat (available_window s) > available_for_read b then available_for_read b
    else nat (available_window s))"
  let ?d = "take n (view b)"
  let ?m = "CR_Frame (data_enc \<lparr>d_stream = s_id s, d_end_stream = False, d_data = ?d\<rparr>)"
  have n: "n \<le> length (view b)" "int n \<le> available_window s"
    using length_view [OF assms(2)] assms(3) by (auto simp: n_def)
  then have "obind (as_ref b) (slice 0 n) = (Ok ?d :: byte list h2)"
    by (simp add: as_ref_view [OF assms(2)])
  with assms(1) have s': "s' = s\<lparr>available_window := available_window s - int n, sent := sent s @ [?m]\<rparr>"
    and b': "b' = progress n b"
    unfolding send_available_def Let_def prod.case n_def [symmetric]
    by (auto simp: send_conn_def split: option.splits if_splits)
  have "pays s s' [?m]"
    using s' n by (simp add: pays_def)
  moreover have "view b = data_of [?m] @ view b'" "buffer_inv b'" "buffer_capacity b' = buffer_capacity b"
    using progress_ops [OF assms(2), of n] b' by simp_all
  ultimately show thesis by (intro that [of "[?m]"]) simp_all
qed

lemma send_available_total: "buffer_inv b \<Longrightarrow> send_available (s, b) \<noteq> (Panic, sb')"
  by (auto simp: send_available_def send_conn_def Let_def as_ref_view length_view slice_def
      split: option.splits if_splits)

lemma body_step_total:
  assumes "buffer_inv b"
  shows "fst (body_step needed (s, b)) \<noteq> Panic"
proof -
  obtain r s1 where req: "request_window needed s = (r, s1)" by fastforce
  with request_window_total have "r \<noteq> Panic" by metis
  with req send_available_total [OF assms, of s1] show ?thesis
    by (cases r) (auto simp: body_step_def sbind_def split: outcome.splits prod.splits)
qed

text \<open>One iteration, and the loop up to its end or the next wait.\<close>

definition sends :: "int \<Rightarrow> stream \<times> buffer \<Rightarrow> int \<Rightarrow> stream \<times> buffer \<Rightarrow> conn_req list \<Rightarrow> bool" where
  "sends needed sb needed' sb' new \<longleftrightarrow>
     pays (fst sb) (fst sb') new \<and> view (snd sb) = data_of new @ view (snd sb') \<and>
     buffer_inv (snd sb') \<and> buffer_capacity (snd sb') = buffer_capacity (snd sb) \<and>
     needed' = needed - requested new \<and> (0 \<le> needed \<longrightarrow> 0 \<le> needed')"

lemma sends_trans:
  "sends n sb n1 sb1 ms \<Longrightarrow> sends n1 sb1 n2 sb2 ns \<Longrightarrow> sends n sb n2 sb2 (ms @ ns)"
  by (auto simp: sends_def intro: pays_trans)

lemma body_step_sends:
  assumes "body_step needed (s, b) = (Ok step, sb')" "buffer_inv b"
  shows "(step = Sent \<and> sb' = (s, b) \<and> view b = []) \<or>
    (\<exists>n new. (step = Again n \<or> step = Wait n \<and> available_window (fst sb') \<le> 0 \<and> view (snd sb') \<noteq> []) \<and>
       sends needed (s, b) n sb' new)"
proof (cases "available_for_read b = 0")
  case True
  with assms length_view [OF assms(2)] show ?thesis by (simp add: body_step_def)
next
  case False
  then obtain n s1 where req: "request_window needed s = (Ok n, s1)"
    using assms(1) by (auto simp: body_step_def split: prod.splits outcome.splits)
  from request_window_pays [OF this] obtain ms where ms: "pays s s1 ms" "data_of ms = []"
    "n = needed - requested ms" "0 \<le> needed \<Longrightarrow> requested ms \<le> needed" by metis
  then have first: "sends needed (s, b) n (s1, b) ms"
    using assms(2) by (auto simp: sends_def)
  show ?thesis
  proof (cases "0 < available_window s1")
    case True
    then obtain s2 b2 where send: "send_available (s1, b) = (Ok (), (s2, b2))" "sb' = (s2, b2)" "step = Again n"
      using assms(1) False req
      by (cases sb') (auto simp: body_step_def sbind_def split: prod.splits outcome.splits)
    from send_available_pays [OF send(1) assms(2) True] obtain ns where "pays s1 s2 ns" "requested ns = 0"
      "view b = data_of ns @ view b2" "buffer_inv b2" "buffer_capacity b2 = buffer_capacity b" by metis
    then have "sends n (s1, b) n (s2, b2) ns"
      by (simp add: sends_def)
    with first send show ?thesis by (blast intro: sends_trans)
  next
    case no_window: False
    with assms(1) False req have "step = Wait n" "sb' = (s1, b)"
      by (auto simp: body_step_def split: prod.splits outcome.splits)
    with first no_window False length_view [OF assms(2)] show ?thesis by auto
  qed
qed

lemma body_run_sends:
  assumes "buffer_inv (snd sb)" "body_run needed sb = (Ok step, sb')"
  shows "\<exists>new n. sends needed sb n sb' new \<and>
    (step = Sent \<and> view (snd sb') = [] \<or> step = Wait n \<and> available_window (fst sb') \<le> 0 \<and> view (snd sb') \<noteq> [])"
  using assms
proof (induction needed sb arbitrary: step sb' rule: body_run.induct)
  case (1 needed sb)
  obtain s b where sb: "sb = (s, b)" by (cases sb)
  with 1(2) have inv: "buffer_inv b" by simp
  obtain r sb1 where run: "body_step needed (s, b) = (r, sb1)" by (cases "body_step needed (s, b)")
  then obtain st where st: "r = Ok st"
    using 1(3) sb by (cases r) (simp_all add: body_run.simps [of needed "(s, b)"])
  from body_step_sends [OF run [unfolded st] inv] show ?case
  proof (elim disjE exE conjE)
    assume "st = Sent" "sb1 = (s, b)" "view b = []"
    with 1(3) run st sb inv show ?thesis
      by (intro exI [of _ "[]"] exI [of _ needed]) (auto simp: body_run.simps [of needed "(s, b)"] sends_def)
  next
    fix n new
    assume next_step: "st = Again n" and first: "sends needed (s, b) n sb1 new"
    then have "body_run n sb1 = (Ok step, sb')" "buffer_inv (snd sb1)"
      using 1(3) run st sb by (simp_all add: body_run.simps [of needed "(s, b)"] sends_def)
    with 1(1) [OF run [unfolded st next_step, folded sb, symmetric] refl refl] obtain ns m where
      "sends n sb1 m sb' ns"
      "step = Sent \<and> view (snd sb') = [] \<or> step = Wait m \<and> available_window (fst sb') \<le> 0 \<and> view (snd sb') \<noteq> []"
      by blast
    with sends_trans [OF first] sb show ?thesis by blast
  next
    fix n new
    assume "st = Wait n" "available_window (fst sb1) \<le> 0" "view (snd sb1) \<noteq> []" "sends needed (s, b) n sb1 new"
    with 1(3) run st sb show ?thesis by (auto simp: body_run.simps [of needed "(s, b)"])
  qed
qed

lemma body_run_total: "buffer_inv (snd sb) \<Longrightarrow> fst (body_run needed sb) \<noteq> Panic"
proof (induction needed sb rule: body_run.induct)
  case (1 needed sb)
  obtain s b where sb: "sb = (s, b)" by (cases sb)
  obtain r sb1 where run: "body_step needed (s, b) = (r, sb1)" by (cases "body_step needed (s, b)")
  show ?case
  proof (cases "\<exists>n. r = Ok (Again n)")
    case True
    then obtain n where n: "r = Ok (Again n)" by blast
    have "buffer_inv (snd sb1)"
      using body_step_sends [OF run [unfolded n]] 1(2) sb by (auto simp: sends_def)
    with 1(1) [OF run [unfolded n, folded sb, symmetric] refl refl] run n sb show ?thesis
      by (simp add: body_run.simps [of needed "(s, b)"])
  next
    case False
    with run sb body_step_total [of b needed s] 1(2) show ?thesis
      by (auto simp: body_run.simps [of needed "(s, b)"] split: outcome.splits next_step.splits)
  qed
qed

section \<open>Events while a body is sent\<close>

text \<open>The window an event gives to the stream, of the connection and of its own.\<close>

fun granted :: "event \<Rightarrow> int" where
  "granted (Ev_Req (Some (AvailableWindow n))) = n"
| "granted _ = 0"

fun own_window :: "event \<Rightarrow> int" where
  "own_window (Ev_Req (Some (WindowUpdate n))) = n"
| "own_window _ = 0"

lemma main_select_accounts:
  assumes "main_select ev s = (Ok (), s')"
  shows "available_window s' = available_window s + granted ev" "window s' = window s + own_window ev"
    "s_id s' = s_id s" "conn_open s' = conn_open s"
    "\<exists>new. sent s' = sent s @ new \<and> data_of new = [] \<and> requested new = 0"
  using assms
  by (auto simp: main_select_def handle_req_def receive_body_def send_conn_def Let_def
      split: event.splits option.splits stream_req.splits if_splits)

lemma main_select_total: "fst (main_select ev s) \<noteq> Panic"
  by (auto simp: main_select_def handle_req_def receive_body_def send_conn_def Let_def
      split: event.splits option.splits stream_req.splits)

text \<open>The two sums over the inputs, and the bytes the body gave.\<close>

fun events_of :: "body_input list \<Rightarrow> event list" where
  "events_of [] = []"
| "events_of (B_Event ev # ins) = ev # events_of ins"
| "events_of (B_Read r # ins) = events_of ins"

fun bytes_read :: "body_input list \<Rightarrow> byte list" where
  "bytes_read [] = []"
| "bytes_read (B_Event ev # ins) = bytes_read ins"
| "bytes_read (B_Read (Ok bs) # ins) = bs @ bytes_read ins"
| "bytes_read (B_Read _ # ins) = bytes_read ins"

definition grants :: "body_input list \<Rightarrow> int" where
  "grants ins = sum_list (map granted (events_of ins))"

definition own_windows :: "body_input list \<Rightarrow> int" where
  "own_windows ins = sum_list (map own_window (events_of ins))"

text \<open>Every read of the body fits the body buffer, which is empty when the body is read.\<close>

definition reads_fit :: "nat \<Rightarrow> body_input list \<Rightarrow> bool" where
  "reads_fit cap ins \<longleftrightarrow> (\<forall>bs. B_Read (Ok bs) \<in> set ins \<longrightarrow> length bs \<le> cap)"

lemma read_chunk_view:
  assumes "buffer_inv b" "view b = []" "length bs \<le> buffer_capacity b"
  obtains b' where "read_chunk (Ok bs) b = (Ok (length bs), b')" "buffer_inv b'" "view b' = bs"
    "buffer_capacity b' = buffer_capacity b"
proof -
  let ?rd = "\<lambda>n r. (Ok bs, r) :: byte list io \<times> unit"
  note rot = rotate_buffer_ops [OF assms(1)]
  have len: "as_mut_len (rotate_buffer b) = buffer_capacity b"
    using as_mut_len_eq [OF rot(1)] rot(2,3) assms(2) by simp
  have fits: "write_pointer (rotate_buffer b) + length bs \<le> length (inner (rotate_buffer b))"
    using rot(3,5) assms(2,3) by (simp add: buffer_capacity_def)
  show thesis
    using that view_append [OF rot(1,4) fits] rot(2,3) assms(2,3) len
    by (simp add: read_chunk_def read_from_reader_def Let_def)
qed

definition delivers :: "body_input list \<Rightarrow> stream \<times> buffer \<Rightarrow> stream \<times> buffer \<Rightarrow> conn_req list \<Rightarrow> bool" where
  "delivers used sb sb' new \<longleftrightarrow>
     s_id (fst sb') = s_id (fst sb) \<and> sent (fst sb') = sent (fst sb) @ new \<and>
     available_window (fst sb') = available_window (fst sb) + grants used - int (length (data_of new)) \<and>
     window (fst sb') = window (fst sb) + own_windows used - requested new \<and>
     view (snd sb) @ bytes_read used = data_of new @ view (snd sb') \<and>
     buffer_inv (snd sb') \<and> buffer_capacity (snd sb') = buffer_capacity (snd sb) \<and>
     (0 \<le> available_window (fst sb) \<and> (\<forall>ev\<in>set (events_of used). 0 \<le> granted ev) \<longrightarrow>
        0 \<le> available_window (fst sb')) \<and>
     (0 \<le> window (fst sb) \<and> (\<forall>ev\<in>set (events_of used). 0 \<le> own_window ev) \<longrightarrow>
        0 \<le> window (fst sb'))"

lemma events_of_append [simp]: "events_of (u @ v) = events_of u @ events_of v"
  by (induction u rule: events_of.induct) simp_all

lemma bytes_read_append [simp]: "bytes_read (u @ v) = bytes_read u @ bytes_read v"
  by (induction u rule: bytes_read.induct) simp_all

lemma grants_append [simp]: "grants (u @ v) = grants u + grants v"
  by (simp add: grants_def)

lemma own_windows_append [simp]: "own_windows (u @ v) = own_windows u + own_windows v"
  by (simp add: own_windows_def)

lemma sums_single [simp]:
  "grants [] = 0" "grants [B_Event ev] = granted ev" "grants [B_Read r] = 0"
  "own_windows [] = 0" "own_windows [B_Event ev] = own_window ev" "own_windows [B_Read r] = 0"
  by (simp_all add: grants_def own_windows_def)

lemma delivers_trans:
  assumes "delivers u sb sb1 ms" "delivers v sb1 sb2 ns"
  shows "delivers (u @ v) sb sb2 (ms @ ns)"
proof -
  have "view (snd sb) @ bytes_read u @ bytes_read v = data_of ms @ view (snd sb1) @ bytes_read v"
    using assms(1) by (simp add: delivers_def)
  also have "\<dots> = data_of ms @ data_of ns @ view (snd sb2)"
    using assms(2) by (simp add: delivers_def)
  finally show ?thesis
    using assms by (auto simp: delivers_def)
qed

lemma delivers_refl: "buffer_inv (snd sb) \<Longrightarrow> delivers [] sb sb []"
  by (simp add: delivers_def)

lemma sends_delivers: "sends n sb m sb' new \<Longrightarrow> delivers [] sb sb' new"
  by (auto simp: sends_def delivers_def pays_def)

lemma event_delivers:
  assumes "main_select ev s = (Ok (), s')" "buffer_inv b"
  shows "\<exists>new. delivers [B_Event ev] (s, b) (s', b) new"
  using main_select_accounts [OF assms(1)] assms(2) by (auto simp: delivers_def)

text \<open>The result of the inner loop, as the continuation of \<open>send_body\<close> sees it.\<close>

definition resume :: "body_input list \<Rightarrow> next_step h2 \<times> (stream \<times> buffer) \<Rightarrow> unit poll h2 \<times> (stream \<times> buffer)" where
  "resume ins x = (case x of
     (Ok (Wait n), sb') \<Rightarrow> send_body ins (Some n) sb'
   | (Ok _, sb') \<Rightarrow> send_body ins None sb'
   | (Err e, sb') \<Rightarrow> (Err e, sb')
   | (Panic, sb') \<Rightarrow> (Panic, sb'))"

lemma send_body_resume:
  "send_body (B_Event ev # ins) (Some needed) (s, b) =
     (case main_select ev s of
        (Ok _, s') \<Rightarrow> resume ins (body_run needed (s', b))
      | (Err e, s') \<Rightarrow> (Err e, (s', b))
      | (Panic, s') \<Rightarrow> (Panic, (s', b)))"
  "send_body (B_Read r # ins) None (s, b) =
     (case read_chunk r b of
        (Err e, b') \<Rightarrow> (Err (StreamErr InternalError), (s, b'))
      | (Panic, b') \<Rightarrow> (Panic, (s, b'))
      | (Ok amount, b') \<Rightarrow>
          if amount = 0
          then (case end_of_body s of
              (Ok _, s') \<Rightarrow> (Ok (Ready ()), (s', b'))
            | (Err e, s') \<Rightarrow> (Err e, (s', b'))
            | (Panic, s') \<Rightarrow> (Panic, (s', b')))
          else (case usize_to_i32 amount of
              None \<Rightarrow> (Err (StreamErr InternalError), (s, b'))
            | Some needed \<Rightarrow> resume ins (body_run needed (s, b'))))"
  by (simp_all only: send_body.simps resume_def)

definition end_frame :: "stream \<Rightarrow> conn_req" where
  "end_frame s = CR_Frame (data_enc \<lparr>d_stream = s_id s, d_end_stream = True, d_data = []\<rparr>)"

text \<open>
  A relation between the states before and after a run, with the inputs the run has used, that
  every piece of \<open>send_body\<close> establishes: an event, a read into the empty buffer, the inner loop.
\<close>

locale body_walk =
  fixes R :: "body_input list \<Rightarrow> stream \<times> buffer \<Rightarrow> stream \<times> buffer \<Rightarrow> bool"
  assumes stays: "buffer_inv (snd sb) \<Longrightarrow> R [] sb sb"
    and continues: "R u sb sb1 \<Longrightarrow> R v sb1 sb' \<Longrightarrow> R (u @ v) sb sb'"
    and event: "main_select ev s = (Ok (), s') \<Longrightarrow> buffer_inv b \<Longrightarrow> R [B_Event ev] (s, b) (s', b)"
    and inner: "body_run needed sb = (Ok st, sb') \<Longrightarrow> buffer_inv (snd sb) \<Longrightarrow> R [] sb sb'"
    and read: "read_chunk (Ok (view b')) b = (Ok (length (view b')), b') \<Longrightarrow> view b = [] \<Longrightarrow> buffer_inv b' \<Longrightarrow>
      buffer_capacity b' = buffer_capacity b \<Longrightarrow> R [B_Read (Ok (view b'))] (s, b) (s, b')"
begin

text \<open>
  What a run of \<open>send_body\<close> has done: it waits, or it has read the end of the body with an empty
  buffer and has sent it on.
\<close>

definition ended :: "body_input list \<Rightarrow> stream \<times> buffer \<Rightarrow> stream \<times> buffer \<Rightarrow> bool" where
  "ended used sb sb' \<longleftrightarrow> used \<noteq> [] \<and> last used = B_Read (Ok []) \<and> (\<exists>s b. sb' = (s, b) \<and> buffer_inv b \<and> view b = [] \<and>
     (\<exists>s1. R used sb (s1, b) \<and> end_of_body s1 = (Ok (), s)))"

definition walked :: "body_input list \<Rightarrow> stream \<times> buffer \<Rightarrow> unit poll \<Rightarrow> stream \<times> buffer \<Rightarrow> bool" where
  "walked ins sb p sb' \<longleftrightarrow> (\<exists>used rest. ins = used @ rest \<and>
     (if p = Ready () then ended used sb sb' else R used sb sb'))"

lemma ended_step: "R u sb sb1 \<Longrightarrow> ended used sb1 sb' \<Longrightarrow> ended (u @ used) sb sb'"
  unfolding ended_def by (auto intro: continues)

lemma walked_step: "R u sb sb1 \<Longrightarrow> walked ins sb1 p sb' \<Longrightarrow> walked (u @ ins) sb p sb'"
  unfolding walked_def by (metis append.assoc continues ended_step)

lemma walked_stays: "buffer_inv (snd sb) \<Longrightarrow> walked ins sb Pending sb"
  unfolding walked_def by (intro exI [of _ "[]"] exI [of _ ins]) (simp add: stays)

lemma resume_walked:
  assumes IH: "\<forall>phase sb. send_body ins phase sb = (Ok p, sb') \<longrightarrow> buffer_inv (snd sb) \<longrightarrow>
      buffer_capacity (snd sb) = cap \<longrightarrow> (phase = None \<longrightarrow> view (snd sb) = []) \<longrightarrow> walked ins sb p sb'"
    and res: "resume ins (body_run needed sb) = (Ok p, sb')"
    and inv: "buffer_inv (snd sb)" "buffer_capacity (snd sb) = cap"
  shows "walked ins sb p sb'"
proof -
  obtain r sb1 where run: "body_run needed sb = (r, sb1)" by (cases "body_run needed sb")
  with res obtain st where r: "r = Ok st" by (cases r) (simp_all add: resume_def)
  from body_run_sends [OF inv(1) run [unfolded r]] obtain new n where
    sends: "sends needed sb n sb1 new" and st: "st = Sent \<and> view (snd sb1) = [] \<or> st = Wait n"
    by blast
  have inv1: "buffer_inv (snd sb1)" "buffer_capacity (snd sb1) = cap"
    using sends inv by (simp_all add: sends_def)
  obtain phase where "send_body ins phase sb1 = (Ok p, sb')" "phase = None \<longrightarrow> view (snd sb1) = []"
    using res run r st by (cases "st = Sent") (auto simp: resume_def)
  with IH inv1 have "walked ins sb1 p sb'" by blast
  from walked_step [OF inner [OF run [unfolded r] inv(1)] this] show ?thesis by simp
qed

lemma send_body_walked:
  "send_body ins phase sb = (Ok p, sb') \<Longrightarrow> buffer_inv (snd sb) \<Longrightarrow> buffer_capacity (snd sb) = cap \<Longrightarrow>
   reads_fit cap ins \<Longrightarrow> (phase = None \<longrightarrow> view (snd sb) = []) \<Longrightarrow> walked ins sb p sb'"
proof (induction ins arbitrary: phase sb)
  case Nil
  then show ?case by (auto intro: walked_stays)
next
  case (Cons i ins)
  obtain s b where sb: "sb = (s, b)" by (cases sb)
  have fits: "reads_fit cap ins" using Cons.prems(4) by (auto simp: reads_fit_def)
  have IH: "\<forall>phase sb. send_body ins phase sb = (Ok p, sb') \<longrightarrow> buffer_inv (snd sb) \<longrightarrow>
      buffer_capacity (snd sb) = cap \<longrightarrow> (phase = None \<longrightarrow> view (snd sb) = []) \<longrightarrow> walked ins sb p sb'"
    using Cons.IH fits by blast
  show ?case
  proof (cases i)
    case (B_Event ev)
    obtain s1 where ev: "main_select ev s = (Ok (), s1)"
      using Cons.prems(1) sb B_Event main_select_total [of ev s]
      by (cases phase; cases "main_select ev s") (auto split: outcome.splits)
    have "walked ins (s1, b) p sb'"
    proof (cases phase)
      case None
      with Cons.prems(1) sb B_Event ev have "send_body ins None (s1, b) = (Ok p, sb')" by simp
      moreover have "buffer_inv (snd (s1, b))" "buffer_capacity (snd (s1, b)) = cap" "view (snd (s1, b)) = []"
        using Cons.prems(2,3,5) sb None by simp_all
      ultimately show ?thesis using IH by blast
    next
      case (Some n)
      with Cons.prems(1) sb B_Event ev have "resume ins (body_run n (s1, b)) = (Ok p, sb')"
        by (simp add: send_body_resume del: send_body.simps)
      from resume_walked [OF IH this] Cons.prems(2,3) sb show ?thesis by simp
    qed
    with walked_step [OF event [OF ev]] Cons.prems(2) sb B_Event show ?thesis by fastforce
  next
    case (B_Read r)
    show ?thesis
    proof (cases phase)
      case (Some n)
      with Cons.prems(1,2) B_Read sb show ?thesis by (auto intro: walked_stays)
    next
      case None
      with Cons.prems sb B_Read obtain bs where r: "r = Ok bs"
        by (cases r) (auto simp: read_chunk_def read_from_reader_def Let_def)
      have b: "buffer_inv b" "view b = []" "length bs \<le> buffer_capacity b"
        using Cons.prems(2-5) None r B_Read sb by (auto simp: reads_fit_def)
      obtain b1 where b1: "read_chunk (Ok bs) b = (Ok (length bs), b1)"
        "buffer_inv b1" "view b1 = bs" "buffer_capacity b1 = buffer_capacity b"
        by (rule read_chunk_view [OF b])
      then have first: "R [B_Read (Ok bs)] (s, b) (s, b1)"
        using read [of b1 b s] b(2) by simp
      show ?thesis
      proof (cases "bs = []")
        case True
        with Cons.prems(1) sb B_Read r None b1(1) have "p = Ready ()" "end_of_body s = (Ok (), fst sb')" "snd sb' = b1"
          by (auto simp: send_body_resume simp del: send_body.simps split: outcome.splits prod.splits)
        with first b1 True sb B_Read r show ?thesis
          unfolding walked_def ended_def
          by (intro exI [of _ "[i]"] exI [of _ ins]) (cases sb', auto)
      next
        case False
        with Cons.prems(1) sb B_Read r None b1(1) obtain needed where
          "resume ins (body_run needed (s, b1)) = (Ok p, sb')"
          by (auto simp: send_body_resume simp del: send_body.simps split: option.splits)
        from resume_walked [OF IH this] b1 Cons.prems(3) sb have "walked ins (s, b1) p sb'" by simp
        from walked_step [OF first this] sb B_Read r show ?thesis by simp
      qed
    qed
  qed
qed

end

definition delivered :: "body_input list \<Rightarrow> stream \<times> buffer \<Rightarrow> stream \<times> buffer \<Rightarrow> bool" where
  "delivered used sb sb' \<longleftrightarrow> (\<exists>new. delivers used sb sb' new)"

interpretation delivery: body_walk delivered
proof (unfold_locales, goal_cases)
  case (1 sb)
  then show ?case using delivers_refl [of sb] by (auto simp: delivered_def)
next
  case (2 u sb sb1 v sb')
  then show ?case unfolding delivered_def by (blast intro: delivers_trans)
next
  case (3 ev s s' b)
  then show ?case using event_delivers by (simp add: delivered_def)
next
  case (4 needed sb st sb')
  then show ?case unfolding delivered_def using body_run_sends [OF 4(2,1)] by (blast intro: sends_delivers)
next
  case (5 b' b s)
  then have "delivers [B_Read (Ok (view b'))] (s, b) (s, b') []" by (simp add: delivers_def)
  then show ?case by (auto simp: delivered_def)
qed

text \<open>Everything \<open>send_body\<close> delivers, on the inputs it uses.\<close>

definition body_goal :: "body_input list \<Rightarrow> stream \<times> buffer \<Rightarrow> unit poll \<Rightarrow> stream \<times> buffer \<Rightarrow> bool" where
  "body_goal ins sb p sb' \<longleftrightarrow> (\<exists>used rest new. ins = used @ rest \<and> delivers used sb sb' new \<and>
     (p = Ready () \<longrightarrow> view (snd sb') = [] \<and> new \<noteq> [] \<and> last new = end_frame (fst sb') \<and>
        used \<noteq> [] \<and> last used = B_Read (Ok [])))"

lemma end_of_body_delivers:
  assumes "end_of_body s = (Ok (), s')" "buffer_inv b"
  shows "delivers [] (s, b) (s', b) [end_frame s']"
proof -
  have "s' = s\<lparr>sent := sent s @ [end_frame s]\<rparr>"
    using assms(1) by (simp add: end_of_body_def send_conn_def end_frame_def split: if_splits)
  with assms(2) show ?thesis by (simp add: delivers_def) (simp add: end_frame_def)
qed

lemma send_body_goal:
  assumes "send_body ins phase sb = (Ok p, sb')" "buffer_inv (snd sb)" "buffer_capacity (snd sb) = cap"
    "reads_fit cap ins" "phase = None \<longrightarrow> view (snd sb) = []"
  shows "body_goal ins sb p sb'"
proof -
  obtain used rest where used: "ins = used @ rest" "if p = Ready () then delivery.ended used sb sb' else delivered used sb sb'"
    using delivery.send_body_walked [OF assms] unfolding delivery.walked_def by blast
  show ?thesis
  proof (cases "p = Ready ()")
    case False
    with used show ?thesis by (auto simp: body_goal_def delivered_def)
  next
    case True
    with used(2) obtain s b s1 new where e: "sb' = (s, b)" "buffer_inv b" "view b = []" "used \<noteq> []"
      "last used = B_Read (Ok [])" "delivers used sb (s1, b) new" "end_of_body s1 = (Ok (), s)"
      by (auto simp: delivery.ended_def delivered_def)
    from delivers_trans [OF e(6) end_of_body_delivers [OF e(7,2)]]
    have "delivers used sb sb' (new @ [end_frame s])" using e(1) by simp
    with used(1) e show ?thesis
      unfolding body_goal_def
      by (intro exI [of _ used] exI [of _ rest] exI [of _ "new @ [end_frame s]"]) simp
  qed
qed

section \<open>The reader of the request body\<close>

text \<open>
  \<open>BackgroundRead\<close>: the chunk it holds, whether its two channel ends are there (\<open>drop\<close> takes
  them), and the window updates it has sent to the stream. What \<open>poll_recv\<close> answers is an
  argument: nothing yet, the next chunk, or the end.
\<close>

record bg_read =
  bg_buffer :: "buffer option"
  bg_sender :: bool
  bg_receiver :: bool
  bg_updates :: "int list"

definition bg_new :: bg_read where
  "bg_new = \<lparr>bg_buffer = None, bg_sender = True, bg_receiver = True, bg_updates = []\<rparr>"

definition bg_update_window :: "nat \<Rightarrow> bg_read \<Rightarrow> bg_read" where
  "bg_update_window amount g = (case usize_to_i32 amount of
     None \<Rightarrow> g
   | Some n \<Rightarrow> if bg_sender g then g\<lparr>bg_updates := bg_updates g @ [n]\<rparr> else g)"

text \<open>Handing out bytes of a chunk with unread bytes, to a reader with room for \<open>n\<close>.\<close>

definition bg_hand_out :: "nat \<Rightarrow> buffer \<Rightarrow> bg_read \<Rightarrow> byte list io poll \<times> bg_read" where
  "bg_hand_out n b g =
     (let amount = min (available_for_read b) n in
      case obind (as_ref b) (slice 0 amount) of
        Ok bs \<Rightarrow>
          let b' = progress amount b in
          (Ready (Ok bs),
           if available_for_read b' > 0 then g\<lparr>bg_buffer := Some b'\<rparr>
           else bg_update_window (length (inner b')) g)
      | Err e \<Rightarrow> (Ready (Err e), g)
      | Panic \<Rightarrow> (Ready Panic, g))"

definition bg_poll_read :: "byte list option poll \<Rightarrow> nat \<Rightarrow> bg_read \<Rightarrow> byte list io poll \<times> bg_read" where
  "bg_poll_read recv n g0 =
     (let g = g0\<lparr>bg_buffer := None\<rparr>;
          receive = (\<lambda>g.
            if \<not> bg_receiver g
            then (Ready (Err (IoError BrokenPipe ''This object is no longer usable.'')), g)
            else case recv of
                Pending \<Rightarrow> (Pending, g)
              | Ready None \<Rightarrow> (Ready (Ok []), g)
              | Ready (Some data) \<Rightarrow>
                  let b = buffer_from data in
                  if available_for_read b > 0 then bg_hand_out n b g else (Ready (Ok []), g))
      in case bg_buffer g0 of
           None \<Rightarrow> receive g
         | Some b \<Rightarrow>
             if available_for_read b > 0 then bg_hand_out n b g
             else receive (bg_update_window (length (inner b)) g))"

text \<open>\<open>drop\<close>: the held chunk and every chunk still queued are reported.\<close>

definition bg_drop :: "byte list list \<Rightarrow> bg_read \<Rightarrow> int list" where
  "bg_drop queue g =
     (if \<not> bg_sender g \<or> \<not> bg_receiver g then bg_updates g
      else bg_updates g @
        List.map_filter (\<lambda>l. usize_to_i32 l)
          ((case bg_buffer g of None \<Rightarrow> [] | Some b \<Rightarrow> [length (inner b)]) @ map length queue))"

text \<open>
  A run of polls: each takes the next chunk from the queue when it asks for one. The result is
  what was read, the rest of the queue and the state.
\<close>

definition bg_wants :: "bg_read \<Rightarrow> bool" where
  "bg_wants g \<longleftrightarrow> bg_receiver g \<and> (case bg_buffer g of None \<Rightarrow> True | Some b \<Rightarrow> available_for_read b = 0)"

fun bg_run :: "nat list \<Rightarrow> byte list list \<Rightarrow> bg_read \<Rightarrow> byte list \<times> byte list list \<times> bg_read" where
  "bg_run [] queue g = ([], queue, g)"
| "bg_run (n # ns) queue g =
     (let (recv, queue') =
        (if bg_wants g then (case queue of [] \<Rightarrow> (Pending, []) | c # cs \<Rightarrow> (Ready (Some c), cs))
         else (Pending, queue));
        (r, g') = bg_poll_read recv n g;
        got = (case r of Ready (Ok bs) \<Rightarrow> bs | _ \<Rightarrow> []);
        (rest, queue'', g'') = bg_run ns queue' g'
      in (got @ rest, queue'', g''))"

definition bg_unread :: "bg_read \<Rightarrow> byte list" where
  "bg_unread g = (case bg_buffer g of None \<Rightarrow> [] | Some b \<Rightarrow> view b)"

definition bg_held :: "bg_read \<Rightarrow> nat" where
  "bg_held g = (case bg_buffer g of None \<Rightarrow> 0 | Some b \<Rightarrow> length (inner b))"

definition bg_inv :: "bg_read \<Rightarrow> bool" where
  "bg_inv g \<longleftrightarrow> bg_sender g \<and> bg_receiver g \<and>
     (case bg_buffer g of None \<Rightarrow> True
      | Some b \<Rightarrow> buffer_inv b \<and> view b \<noteq> [] \<and> i32_ok (int (length (inner b))))"

lemma bg_update_ok:
  "bg_sender g \<Longrightarrow> i32_ok (int n) \<Longrightarrow> bg_update_window n g = g\<lparr>bg_updates := bg_updates g @ [int n]\<rparr>"
  by (simp add: bg_update_window_def usize_to_i32_def checked_i32_def)

lemma progress_inner [simp]: "inner (progress n b) = inner b"
  by (simp add: progress_def Let_def)

lemma bg_hand_out_spec:
  assumes "buffer_inv b" "view b \<noteq> []" "i32_ok (int (length (inner b)))" "bg_sender g" "bg_receiver g"
    "bg_buffer g = None"
  shows "\<exists>g'. bg_hand_out n b g = (Ready (Ok (take n (view b))), g') \<and> bg_inv g' \<and>
    view b = take n (view b) @ bg_unread g' \<and>
    sum_list (bg_updates g') + int (bg_held g') = sum_list (bg_updates g) + int (length (inner b))"
proof -
  let ?n = "min (available_for_read b) n"
  have len: "available_for_read b = length (view b)" using length_view [OF assms(1)] by simp
  then have read: "obind (as_ref b) (slice 0 ?n) = (Ok (take n (view b)) :: byte list io)"
    by (simp add: as_ref_view [OF assms(1)] min_def)
  note pr = progress_ops [OF assms(1), of ?n]
  have rest: "drop ?n (view b) = drop n (view b)" using len by (simp add: min_def)
  show ?thesis
  proof (cases "drop n (view b) = []")
    case True
    then have "available_for_read (progress ?n b) = 0"
      using pr length_view [OF pr(1)] rest by simp
    then have "bg_hand_out n b g =
        (Ready (Ok (take n (view b))), g\<lparr>bg_updates := bg_updates g @ [int (length (inner b))]\<rparr>)"
      using assms unfolding bg_hand_out_def Let_def read by (simp add: bg_update_ok)
    with True assms show ?thesis by (simp add: bg_inv_def bg_unread_def bg_held_def)
  next
    case False
    then have "available_for_read (progress ?n b) > 0"
      using pr length_view [OF pr(1)] rest by simp
    then have "bg_hand_out n b g = (Ready (Ok (take n (view b))), g\<lparr>bg_buffer := Some (progress ?n b)\<rparr>)"
      unfolding bg_hand_out_def Let_def read by simp
    with False assms pr rest show ?thesis by (simp add: bg_inv_def bg_unread_def bg_held_def)
  qed
qed

lemma bg_drop_buffer: "bg_buffer g = None \<Longrightarrow> g\<lparr>bg_buffer := None\<rparr> = g"
  by (cases g) simp

text \<open>One poll, with the next chunk of the queue when the reader asks for one.\<close>

lemma bg_poll_spec:
  assumes inv: "bg_inv g" and chunks: "\<forall>c\<in>set queue. i32_ok (int (length c))"
    and recv: "(recv, queue') = (if bg_wants g
      then (case queue of [] \<Rightarrow> (Pending, []) | c # cs \<Rightarrow> (Ready (Some c), cs)) else (Pending, queue))"
  obtains r g' where "bg_poll_read recv n g = (r, g')" "bg_inv g'"
    "bg_unread g @ concat queue =
       (case r of Ready (Ok bs) \<Rightarrow> bs | _ \<Rightarrow> []) @ bg_unread g' @ concat queue'"
    "sum_list (bg_updates g') + int (bg_held g') + int (length (concat queue')) =
       sum_list (bg_updates g) + int (bg_held g) + int (length (concat queue))"
    "set queue' \<subseteq> set queue"
proof (cases "bg_buffer g")
  case None
  then have want: "bg_wants g" using inv by (simp add: bg_wants_def bg_inv_def)
  note same = bg_drop_buffer [OF None]
  show thesis
  proof (cases queue)
    case Nil
    with recv want None inv same that [of Pending g] show thesis
      by (simp add: bg_poll_read_def bg_inv_def)
  next
    case (Cons c cs)
    then have c: "i32_ok (int (length c))" using chunks by simp
    have rq: "recv = Ready (Some c)" "queue' = cs" using recv want Cons by simp_all
    have none: "bg_unread g = []" "bg_held g = 0" using None by (simp_all add: bg_unread_def bg_held_def)
    note bf = buffer_from_ops [of c]
    show thesis
    proof (cases "c = []")
      case True
      then have "available_for_read (buffer_from c) = 0"
        using length_view [OF bf(1)] bf(2) by simp
      then have "bg_poll_read (Ready (Some c)) n g = (Ready (Ok []), g)"
        using None inv unfolding bg_poll_read_def Let_def same by (simp add: bg_inv_def)
      with True rq Cons inv that [of "Ready (Ok [])" g] show thesis by auto
    next
      case False
      obtain g' where g': "bg_hand_out n (buffer_from c) g = (Ready (Ok (take n c)), g')" "bg_inv g'"
        "c = take n c @ bg_unread g'"
        "sum_list (bg_updates g') + int (bg_held g') = sum_list (bg_updates g) + int (length c)"
        using bg_hand_out_spec [OF bf(1), of g n] bf(2,3) c False None inv
        by (auto simp: bg_inv_def buffer_capacity_def)
      have "available_for_read (buffer_from c) > 0"
        using False length_view [OF bf(1), symmetric] bf(2) by simp
      then have "bg_poll_read (Ready (Some c)) n g = (Ready (Ok (take n c)), g')"
        using None inv g'(1) unfolding bg_poll_read_def Let_def same by (simp add: bg_inv_def)
      moreover have "c @ concat cs = take n c @ bg_unread g' @ concat cs"
        using g'(3) by (metis append.assoc)
      ultimately show thesis
        using g'(2,4) none rq Cons that [of "Ready (Ok (take n c))" g'] by auto
    qed
  qed
next
  case (Some b)
  with inv have b: "buffer_inv b" "view b \<noteq> []" "i32_ok (int (length (inner b)))"
    and ends: "bg_sender g" "bg_receiver g" by (simp_all add: bg_inv_def)
  have avail: "available_for_read b > 0" using b(2) length_view [OF b(1), symmetric] by simp
  then have "\<not> bg_wants g" using Some by (simp add: bg_wants_def)
  then have q: "queue' = queue" using recv by simp
  let ?g = "g\<lparr>bg_buffer := None\<rparr>"
  obtain g' where g': "bg_hand_out n b ?g = (Ready (Ok (take n (view b))), g')" "bg_inv g'"
    "view b = take n (view b) @ bg_unread g'"
    "sum_list (bg_updates g') + int (bg_held g') = sum_list (bg_updates g) + int (length (inner b))"
    using bg_hand_out_spec [OF b, of ?g n] ends by auto
  have "bg_poll_read recv n g = (Ready (Ok (take n (view b))), g')"
    using Some avail g'(1) by (simp add: bg_poll_read_def)
  moreover have split: "view b @ concat queue = take n (view b) @ bg_unread g' @ concat queue"
    using g'(3) by (metis append.assoc)
  moreover have "bg_unread g = view b" "bg_held g = length (inner b)"
    using Some by (simp_all add: bg_unread_def bg_held_def)
  ultimately show thesis
    using g'(2,4) q that [of "Ready (Ok (take n (view b)))" g'] split by auto
qed

text \<open>
  Whatever sizes the handler reads with, it gets the bytes of the chunks in order, and the window
  reported back is exactly the length of the chunks it has finished.
\<close>

lemma bg_run_spec:
  "bg_inv g \<Longrightarrow> \<forall>c\<in>set queue. i32_ok (int (length c)) \<Longrightarrow>
   bg_run ns queue g = (got, queue', g') \<Longrightarrow>
   bg_inv g' \<and> bg_unread g @ concat queue = got @ bg_unread g' @ concat queue' \<and>
   sum_list (bg_updates g') + int (bg_held g') + int (length (concat queue')) =
     sum_list (bg_updates g) + int (bg_held g) + int (length (concat queue))"
proof (induction ns arbitrary: queue g got)
  case Nil
  then show ?case by simp
next
  case (Cons n ns)
  obtain recv q1 where recv: "(recv, q1) = (if bg_wants g
      then (case queue of [] \<Rightarrow> (Pending, []) | c # cs \<Rightarrow> (Ready (Some c), cs)) else (Pending, queue))"
    by (metis surj_pair)
  obtain r g1 where poll: "bg_poll_read recv n g = (r, g1)" "bg_inv g1"
    "bg_unread g @ concat queue = (case r of Ready (Ok bs) \<Rightarrow> bs | _ \<Rightarrow> []) @ bg_unread g1 @ concat q1"
    "sum_list (bg_updates g1) + int (bg_held g1) + int (length (concat q1)) =
       sum_list (bg_updates g) + int (bg_held g) + int (length (concat queue))"
    "set q1 \<subseteq> set queue"
    by (rule bg_poll_spec [OF Cons.prems(1,2) recv])
  obtain rest where rest: "bg_run ns q1 g1 = (rest, queue', g')"
    "got = (case r of Ready (Ok bs) \<Rightarrow> bs | _ \<Rightarrow> []) @ rest"
    using Cons.prems(3) poll(1) by (auto simp: recv [symmetric] Let_def split: prod.splits)
  have "\<forall>c\<in>set q1. i32_ok (int (length c))" using Cons.prems(2) poll(5) by blast
  from Cons.IH [OF poll(2) this rest(1)] poll(3,4) rest(2) show ?case by simp
qed

text \<open>
  What \<open>poll_recv\<close> answers while the stream task runs: the channel ends only when the stream
  drops its sender.
\<close>

definition body_recv :: "stream \<Rightarrow> byte list list \<Rightarrow> byte list option poll" where
  "body_recv s queue = (case queue of
     c # cs \<Rightarrow> Ready (Some c)
   | [] \<Rightarrow> if background_tx s then Pending else Ready None)"

fun run_events :: "event list \<Rightarrow> (stream, unit, h2_error) stateful" where
  "run_events [] = sret ()"
| "run_events (ev # evs) = sbind (main_select ev) (\<lambda>_. run_events evs)"

text \<open>
  An empty DATA frame, with END_STREAM or without, reads as the end of the body, also when more
  chunks are behind it.
\<close>

lemma empty_chunk_reads_as_end:
  assumes "bg_inv g" "bg_unread g = []"
  shows "bg_poll_read (body_recv s ([] # queue)) n g = (Ready (Ok []), g)"
proof -
  have "bg_buffer g = None" "bg_receiver g"
    using assms by (auto simp: bg_inv_def bg_unread_def split: option.splits)
  moreover have "available_for_read (buffer_from []) = 0"
    using length_view [of "buffer_from []"] by (simp add: buffer_ops)
  ultimately show ?thesis by (simp add: body_recv_def bg_poll_read_def bg_drop_buffer)
qed

lemma main_select_keeps_body:
  "main_select ev s = (r, s') \<Longrightarrow> background_tx s' = background_tx s"
  by (auto simp: main_select_def handle_req_def receive_body_def send_conn_def Let_def
      split: event.splits option.splits stream_req.splits if_splits)

lemma run_events_keep_body: "run_events evs s = (r, s') \<Longrightarrow> background_tx s' = background_tx s"
proof (induction evs arbitrary: s)
  case (Cons ev evs)
  then show ?case
    by (auto simp: sbind_def split: prod.splits outcome.splits dest: main_select_keeps_body)
qed simp

section \<open>Properties\<close>

text \<open>
  When \<open>send_body\<close> comes to its end, the DATA frames it sent carry exactly the bytes the body
  gave, in order, and the last of them is the empty frame with END_STREAM; however the reads of
  the body, the window grants and the other events of the stream are interleaved.
\<close>

lemma sent_body_is_the_body:
  assumes "send_body ins None (s, with_capacity cap) = (Ok (Ready ()), (s', b'))" "reads_fit cap ins"
  shows "\<exists>used rest new. ins = used @ rest \<and> sent s' = sent s @ new \<and> data_of new = bytes_read used \<and>
    last new = end_frame s"
proof -
  have "body_goal ins (s, with_capacity cap) (Ready ()) (s', b')"
    using send_body_goal [OF assms(1) _ _ assms(2)] by (simp add: buffer_ops)
  then show ?thesis by (auto simp: body_goal_def delivers_def buffer_ops end_frame_def)
qed



text \<open>
  The reader of an HTTP/2 request body is faithful to flow control: whatever sizes the handler
  reads with, it gets the bytes of the chunks in order, none lost and none twice, and the window
  it reports back is exactly the length of the chunks it has finished.
\<close>

lemma body_reader_conserves_window:
  assumes "\<forall>c\<in>set queue. length c < 2 ^ 24" "bg_run ns queue bg_new = (got, queue', g)"
  shows "concat queue = got @ bg_unread g @ concat queue' \<and>
    sum_list (bg_updates g) = int (length (concat queue)) - int (bg_held g) - int (length (concat queue'))"
proof -
  have "\<forall>c\<in>set queue. i32_ok (int (length c))"
    using assms(1) by (auto simp: i32_ok_def i32_max_def i32_min_def)
  moreover have "bg_inv bg_new" "bg_unread bg_new = []" "bg_held bg_new = 0" "bg_updates bg_new = []"
    by (simp_all add: bg_inv_def bg_new_def bg_unread_def bg_held_def)
  ultimately show ?thesis
    using bg_run_spec [of bg_new queue ns got queue' g] assms(2) by auto
qed

text \<open>
  C36. END_STREAM on the DATA frames of a request is never looked at: the stream keeps its end of
  the body channel, so that a handler that reads a body without a content length waits after the
  last byte, whatever frames have come.
\<close>

theorem body_never_ends:
  assumes "run_events evs (open_body False Chunked s0) = (Ok (), s)"
    and "bg_inv g" "bg_unread g = []"
  shows "bg_poll_read (body_recv s []) n g = (Pending, g)"
proof -
  have "background_tx s" using run_events_keep_body [OF assms(1)] by (simp add: open_body_def)
  moreover have "bg_buffer g = None" "bg_receiver g"
    using assms(2,3) by (auto simp: bg_inv_def bg_unread_def split: option.splits)
  ultimately show ?thesis by (simp add: body_recv_def bg_poll_read_def bg_drop_buffer)
qed

theorem body_never_ends_witness:
  "\<exists>s. run_events [Ev_Req (Some (RequestBody \<lparr>d_stream = 1, d_end_stream = True, d_data = [7]\<rparr>))]
      (open_body False Chunked (stream_new 1 Open 100 100)) = (Ok (), s) \<and>
    bg_poll_read (body_recv s []) 5 bg_new = (Pending, bg_new)"
proof -
  have "fst (run_events [Ev_Req (Some (RequestBody \<lparr>d_stream = 1, d_end_stream = True, d_data = [7]\<rparr>))]
      (open_body False Chunked (stream_new 1 Open 100 100))) = Ok ()"
    by code_simp
  then obtain s where
    s: "run_events [Ev_Req (Some (RequestBody \<lparr>d_stream = 1, d_end_stream = True, d_data = [7]\<rparr>))]
      (open_body False Chunked (stream_new 1 Open 100 100)) = (Ok (), s)"
    by (metis prod.collapse)
  with body_never_ends [OF s, of bg_new 5] show ?thesis
    by (auto simp: bg_inv_def bg_new_def bg_unread_def)
qed

end
