(* ===== verification/H2_Request.thy ===== *)
theory H2_Request
  imports H2_Settings Request
begin

text \<open>
  How \<open>read_request\<close> of \<open>src/src/http2/mod.rs\<close> turns a decoded header list into a request: the
  pseudo headers, which must come first, and the regular headers after them. The \<open>http\<close> crate,
  which checks methods, targets, names and values, is a parameter.
\<close>

type_synonym header_list = "(byte list \<times> byte list) list"

section \<open>The request\<close>


definition request_default :: "('m, 'u, 'n, 'v) http_crate \<Rightarrow> ('m, 'u, 'n, 'v) request" where
  "request_default C = \<lparr>rq_method = c_get C, rq_uri = c_root C, rq_version = HTTP_2, rq_headers = []\<rparr>"

definition add_header_line ::
  "('m, 'u, 'n, 'v) http_crate \<Rightarrow> byte list \<Rightarrow> byte list \<Rightarrow> ('m, 'u, 'n, 'v) request
    \<Rightarrow> ('m, 'u, 'n, 'v) request h2" where
  "add_header_line C key val req =
     obind (ok_or (StreamErr ProtocolError) (c_name C key)) (\<lambda>n.
     obind (ok_or (StreamErr ProtocolError) (c_value C val)) (\<lambda>v.
     Ok (req\<lparr>rq_headers := rq_headers req @ [(n, v)]\<rparr>)))"

text \<open>The four flags \<open>got_method\<close>, \<open>got_scheme\<close>, \<open>got_path\<close>, \<open>got_authority\<close>.\<close>

record got =
  got_method :: bool
  got_scheme :: bool
  got_path :: bool
  got_authority :: bool

definition is_pseudo :: "byte list \<Rightarrow> bool" where
  "is_pseudo key \<longleftrightarrow> take 1 key = [COLON]"

definition pseudo_header ::
  "('m, 'u, 'n, 'v) http_crate \<Rightarrow> byte list \<Rightarrow> byte list \<Rightarrow> got \<times> ('m, 'u, 'n, 'v) request
    \<Rightarrow> (got \<times> ('m, 'u, 'n, 'v) request) h2" where
  "pseudo_header C key val gr =
     (let (g, req) = gr in
      if key = bytes_of '':method'' then
        if got_method g then Err (StreamErr ProtocolError)
        else obind (ok_or (StreamErr ProtocolError) (c_method C val)) (\<lambda>m.
          Ok (g\<lparr>got_method := True\<rparr>, req\<lparr>rq_method := m\<rparr>))
      else if key = bytes_of '':scheme'' then
        if got_scheme g then Err (StreamErr ProtocolError) else Ok (g\<lparr>got_scheme := True\<rparr>, req)
      else if key = bytes_of '':path'' then
        if got_path g then Err (StreamErr ProtocolError)
        else obind (ok_or (StreamErr ProtocolError) (c_uri C val)) (\<lambda>u.
          Ok (g\<lparr>got_path := True\<rparr>, req\<lparr>rq_uri := u\<rparr>))
      else if key = bytes_of '':authority'' then
        if got_authority g then Err (StreamErr ProtocolError) else Ok (g\<lparr>got_authority := True\<rparr>, req)
      else Err (StreamErr ProtocolError))"

text \<open>What must have come before the first regular header.\<close>

definition pseudo_complete ::
  "('m, 'u, 'n, 'v) http_crate \<Rightarrow> got \<Rightarrow> ('m, 'u, 'n, 'v) request \<Rightarrow> bool" where
  "pseudo_complete C g req \<longleftrightarrow> got_method g \<and>
     (if c_is_connect C (rq_method req)
      then \<not> (got_scheme g \<or> got_path g \<or> \<not> got_authority g)
      else \<not> (\<not> got_scheme g \<or> \<not> got_path g))"

text \<open>The first loop: up to the first regular header, which it still adds.\<close>

fun pseudo_loop ::
  "('m, 'u, 'n, 'v) http_crate \<Rightarrow> header_list \<Rightarrow> got \<times> ('m, 'u, 'n, 'v) request
    \<Rightarrow> (header_list \<times> ('m, 'u, 'n, 'v) request) h2" where
  "pseudo_loop C [] gr = Ok ([], snd gr)"
| "pseudo_loop C ((key, val) # rest) gr =
     (if \<not> is_pseudo key
      then if pseudo_complete C (fst gr) (snd gr)
        then omap (Pair rest) (add_header_line C key val (snd gr))
        else Err (StreamErr ProtocolError)
      else obind (pseudo_header C key val gr) (pseudo_loop C rest))"

text \<open>The second loop: the regular headers.\<close>

definition regular_header ::
  "('m, 'u, 'n, 'v) http_crate \<Rightarrow> ('m, 'u, 'n, 'v) request \<Rightarrow> byte list \<times> byte list
    \<Rightarrow> ('m, 'u, 'n, 'v) request h2" where
  "regular_header C req kv =
     (if is_pseudo (fst kv) then Err (StreamErr ProtocolError)
      else add_header_line C (fst kv) (snd kv) req)"

definition request_of ::
  "('m, 'u, 'n, 'v) http_crate \<Rightarrow> header_list \<Rightarrow> ('m, 'u, 'n, 'v) request h2" where
  "request_of C hl =
     obind (pseudo_loop C hl (\<lparr>got_method = False, got_scheme = False, got_path = False,
       got_authority = False\<rparr>, request_default C)) (\<lambda>(rest, req).
     ofold (regular_header C) req rest)"

section \<open>Which header lists are requests\<close>

text \<open>
  The pseudo headers \<open>ps\<close> that are accepted: known ones, each at most once, with a method and a
  target the \<open>http\<close> crate takes. The regular headers \<open>rs\<close> that are accepted: none of them a pseudo
  header, and, if there are any, all mandatory pseudo headers before them.
\<close>

definition pseudo_ok :: "('m, 'u, 'n, 'v) http_crate \<Rightarrow> header_list \<Rightarrow> bool" where
  "pseudo_ok C ps \<longleftrightarrow> distinct (map fst ps) \<and>
     fst ` set ps \<subseteq> {bytes_of '':method'', bytes_of '':scheme'', bytes_of '':path'', bytes_of '':authority''} \<and>
     (\<forall>v. (bytes_of '':method'', v) \<in> set ps \<longrightarrow> c_method C v \<noteq> None) \<and>
     (\<forall>v. (bytes_of '':path'', v) \<in> set ps \<longrightarrow> c_uri C v \<noteq> None)"

definition the_method :: "('m, 'u, 'n, 'v) http_crate \<Rightarrow> header_list \<Rightarrow> 'm" where
  "the_method C ps = (case map_of ps (bytes_of '':method'') of Some v \<Rightarrow> the (c_method C v) | None \<Rightarrow> c_get C)"

definition the_uri :: "('m, 'u, 'n, 'v) http_crate \<Rightarrow> header_list \<Rightarrow> 'u" where
  "the_uri C ps = (case map_of ps (bytes_of '':path'') of Some v \<Rightarrow> the (c_uri C v) | None \<Rightarrow> c_root C)"

definition mandatory :: "('m, 'u, 'n, 'v) http_crate \<Rightarrow> header_list \<Rightarrow> bool" where
  "mandatory C ps \<longleftrightarrow> (let names = fst ` set ps in
     bytes_of '':method'' \<in> names \<and>
     (if c_is_connect C (the_method C ps)
      then bytes_of '':authority'' \<in> names \<and> bytes_of '':scheme'' \<notin> names \<and> bytes_of '':path'' \<notin> names
      else bytes_of '':scheme'' \<in> names \<and> bytes_of '':path'' \<in> names))"

definition line_ok :: "('m, 'u, 'n, 'v) http_crate \<Rightarrow> byte list \<times> byte list \<Rightarrow> bool" where
  "line_ok C kv \<longleftrightarrow> \<not> is_pseudo (fst kv) \<and> c_name C (fst kv) \<noteq> None \<and> c_value C (snd kv) \<noteq> None"

definition the_line :: "('m, 'u, 'n, 'v) http_crate \<Rightarrow> byte list \<times> byte list \<Rightarrow> 'n \<times> 'v" where
  "the_line C kv = (the (c_name C (fst kv)), the (c_value C (snd kv)))"

definition well_formed :: "('m, 'u, 'n, 'v) http_crate \<Rightarrow> header_list \<Rightarrow> header_list \<Rightarrow> bool" where
  "well_formed C ps rs \<longleftrightarrow>
     pseudo_ok C ps \<and> list_all (line_ok C) rs \<and> (rs = [] \<or> mandatory C ps)"

definition the_request ::
  "('m, 'u, 'n, 'v) http_crate \<Rightarrow> header_list \<Rightarrow> header_list \<Rightarrow> ('m, 'u, 'n, 'v) request" where
  "the_request C ps rs = \<lparr>rq_method = the_method C ps, rq_uri = the_uri C ps, rq_version = HTTP_2,
     rq_headers = map (the_line C) rs\<rparr>"

lemma pseudo_names [simp]:
  "bytes_of '':method'' \<noteq> bytes_of '':scheme''" "bytes_of '':method'' \<noteq> bytes_of '':path''"
  "bytes_of '':method'' \<noteq> bytes_of '':authority''" "bytes_of '':scheme'' \<noteq> bytes_of '':path''"
  "bytes_of '':scheme'' \<noteq> bytes_of '':authority''" "bytes_of '':path'' \<noteq> bytes_of '':authority''"
  "bytes_of '':scheme'' \<noteq> bytes_of '':method''" "bytes_of '':path'' \<noteq> bytes_of '':method''"
  "bytes_of '':authority'' \<noteq> bytes_of '':method''" "bytes_of '':path'' \<noteq> bytes_of '':scheme''"
  "bytes_of '':authority'' \<noteq> bytes_of '':scheme''" "bytes_of '':authority'' \<noteq> bytes_of '':path''"
  by (simp_all add: bytes_of_def)

text \<open>The state of the first loop after the pseudo headers \<open>ps\<close>.\<close>

definition after_pseudo ::
  "('m, 'u, 'n, 'v) http_crate \<Rightarrow> header_list \<Rightarrow> got \<times> ('m, 'u, 'n, 'v) request" where
  "after_pseudo C ps = (let names = fst ` set ps in
     (\<lparr>got_method = bytes_of '':method'' \<in> names, got_scheme = bytes_of '':scheme'' \<in> names,
       got_path = bytes_of '':path'' \<in> names, got_authority = bytes_of '':authority'' \<in> names\<rparr>,
      the_request C ps []))"

lemma map_of_snoc:
  "k \<notin> fst ` set ps \<Longrightarrow> map_of (ps @ [(k, v)]) x = (if x = k then Some v else map_of ps x)"
  by (auto simp: map_add_def dom_map_of_conv_image_fst split: option.splits dest: map_of_SomeD)
    (force dest: map_of_SomeD)

lemma pseudo_ok_snoc:
  "pseudo_ok C (ps @ [(k, v)]) \<longleftrightarrow> pseudo_ok C ps \<and> k \<notin> fst ` set ps \<and>
     (k = bytes_of '':method'' \<and> c_method C v \<noteq> None \<or> k = bytes_of '':scheme'' \<or>
      k = bytes_of '':path'' \<and> c_uri C v \<noteq> None \<or> k = bytes_of '':authority'')"
  unfolding pseudo_ok_def by (simp add: image_iff) (safe; simp; blast)

lemma pseudo_header_step:
  assumes "pseudo_ok C ps"
  shows "pseudo_header C k v (after_pseudo C ps) =
    (if pseudo_ok C (ps @ [(k, v)]) then Ok (after_pseudo C (ps @ [(k, v)])) else Err (StreamErr ProtocolError))"
proof (cases "k \<in> fst ` set ps")
  case True
  then have "k \<in> {bytes_of '':method'', bytes_of '':scheme'', bytes_of '':path'', bytes_of '':authority''}"
    using assms unfolding pseudo_ok_def by blast
  with True show ?thesis
    unfolding pseudo_ok_snoc by (elim insertE emptyE) (simp_all add: pseudo_header_def after_pseudo_def Let_def)
next
  case False
  note fresh = map_of_snoc [OF False, of v]
  have parts: "the_method C (ps @ [(k, v)]) = (if k = bytes_of '':method'' then the (c_method C v) else the_method C ps)"
    "the_uri C (ps @ [(k, v)]) = (if k = bytes_of '':path'' then the (c_uri C v) else the_uri C ps)"
    by (simp_all add: the_method_def the_uri_def fresh del: map_of_append)
  have names: "fst ` set (ps @ [(k, v)]) = insert k (fst ` set ps)" by simp
  note defs = pseudo_header_def after_pseudo_def Let_def the_request_def parts names ok_or_def
  consider "k = bytes_of '':method''" | "k = bytes_of '':scheme''" | "k = bytes_of '':path''"
    | "k = bytes_of '':authority''"
    | "k \<notin> {bytes_of '':method'', bytes_of '':scheme'', bytes_of '':path'', bytes_of '':authority''}"
    by blast
  then show ?thesis
    unfolding pseudo_ok_snoc defs using False assms
    by cases (simp_all split: option.split)
qed

lemma ofold_snoc: "ofold f s (xs @ [x]) = obind (ofold f s xs) (\<lambda>s'. f s' x)"
proof (induction xs arbitrary: s)
  case (Cons y ys)
  then show ?case by (cases "f s y") simp_all
next
  case Nil
  then show ?case by (cases "f s x") simp_all
qed

lemma pseudo_headers:
  "ofold (\<lambda>gr kv. pseudo_header C (fst kv) (snd kv) gr) (after_pseudo C []) ps =
   (if pseudo_ok C ps then Ok (after_pseudo C ps) else Err (StreamErr ProtocolError))"
proof (induction ps rule: rev_induct)
  case (snoc kv ps)
  have "pseudo_ok C (ps @ [kv]) \<Longrightarrow> pseudo_ok C ps"
    by (auto simp: pseudo_ok_def)
  with snoc show ?case
    by (cases kv) (auto simp: ofold_snoc pseudo_header_step)
qed (simp add: pseudo_ok_def)

lemma pseudo_loop_pseudo:
  "list_all (\<lambda>kv. is_pseudo (fst kv)) ps \<Longrightarrow>
   pseudo_loop C (ps @ rs) gr =
     obind (ofold (\<lambda>gr kv. pseudo_header C (fst kv) (snd kv) gr) gr ps) (pseudo_loop C rs)"
proof (induction ps arbitrary: gr)
  case (Cons kv ps)
  then show ?case
    by (cases kv; cases "pseudo_header C (fst kv) (snd kv) gr") simp_all
qed simp

lemma regular_headers:
  "ofold (regular_header C) req rs =
   (if list_all (line_ok C) rs then Ok (req\<lparr>rq_headers := rq_headers req @ map (the_line C) rs\<rparr>)
    else Err (StreamErr ProtocolError))"
proof (induction rs arbitrary: req)
  case (Cons kv rs)
  have "regular_header C req kv = (if line_ok C kv then Ok (req\<lparr>rq_headers := rq_headers req @ [the_line C kv]\<rparr>)
      else Err (StreamErr ProtocolError))"
    by (auto simp: regular_header_def line_ok_def add_header_line_def the_line_def ok_or_def split: option.splits)
  with Cons show ?case by simp
qed simp

lemma pseudo_loop_regular:
  assumes "\<not> is_pseudo k"
  shows "obind (pseudo_loop C ((k, v) # rs) gr) (\<lambda>(rest, req). ofold (regular_header C) req rest) =
    (if pseudo_complete C (fst gr) (snd gr) then ofold (regular_header C) (snd gr) ((k, v) # rs)
     else Err (StreamErr ProtocolError))"
  using assms by (cases "add_header_line C k v (snd gr)") (simp_all add: regular_header_def)

lemma pseudo_complete_iff:
  "pseudo_complete C (fst (after_pseudo C ps)) (snd (after_pseudo C ps)) \<longleftrightarrow> mandatory C ps"
  by (auto simp: pseudo_complete_def after_pseudo_def mandatory_def the_request_def Let_def)

lemma request_of_split:
  assumes "list_all (\<lambda>kv. is_pseudo (fst kv)) ps" "rs = [] \<or> \<not> is_pseudo (fst (hd rs))"
  shows "request_of C (ps @ rs) =
    (if well_formed C ps rs then Ok (the_request C ps rs) else Err (StreamErr ProtocolError))"
proof -
  have init: "(\<lparr>got_method = False, got_scheme = False, got_path = False, got_authority = False\<rparr>, request_default C) =
      after_pseudo C []"
    by (simp add: after_pseudo_def the_request_def the_method_def the_uri_def request_default_def)
  have headers: "(snd (after_pseudo C ps))\<lparr>rq_headers := rq_headers (snd (after_pseudo C ps)) @ map (the_line C) rs\<rparr>
      = the_request C ps rs"
    by (simp add: after_pseudo_def the_request_def Let_def)
  show ?thesis
  proof (cases rs)
    case Nil
    with headers show ?thesis
      unfolding request_of_def init pseudo_loop_pseudo [OF assms(1)] pseudo_headers by (simp add: well_formed_def)
  next
    case (Cons kv rest)
    then have "obind (pseudo_loop C rs (after_pseudo C ps)) (\<lambda>(rest, req). ofold (regular_header C) req rest) =
        (if mandatory C ps then ofold (regular_header C) (snd (after_pseudo C ps)) rs
         else Err (StreamErr ProtocolError))"
      using assms(2) pseudo_loop_regular [of "fst kv" C "snd kv" rest "after_pseudo C ps"]
      by (simp only: pseudo_complete_iff prod.collapse list.sel list.distinct) simp
    with Cons show ?thesis
      unfolding request_of_def init pseudo_loop_pseudo [OF assms(1)] pseudo_headers regular_headers headers
      by (auto simp: well_formed_def)
  qed
qed

lemma request_of_eq:
  "request_of C hl =
    (let ps = takeWhile (\<lambda>kv. is_pseudo (fst kv)) hl; rs = dropWhile (\<lambda>kv. is_pseudo (fst kv)) hl
     in if well_formed C ps rs then Ok (the_request C ps rs) else Err (StreamErr ProtocolError))"
proof -
  let ?p = "\<lambda>kv :: byte list \<times> byte list. is_pseudo (fst kv)"
  have "list_all ?p (takeWhile ?p hl)"
    by (auto simp: list_all_iff dest: set_takeWhileD)
  moreover have "dropWhile ?p hl = [] \<or> \<not> is_pseudo (fst (hd (dropWhile ?p hl)))"
    using hd_dropWhile [of ?p hl] by (auto simp: dropWhile_eq_Nil_conv)
  ultimately show ?thesis
    unfolding Let_def using request_of_split [of "takeWhile ?p hl" "dropWhile ?p hl" C] by simp
qed

lemma request_of_total: "request_of C hl \<noteq> Panic"
  by (simp add: request_of_eq Let_def)

text \<open>
  C19. \<open>read_request\<close> accepts a header list exactly when it is a run of pseudo headers, each of the
  four known ones at most once and with a valid method and target, followed by valid regular
  headers without a pseudo header among them; and only if there is a regular header must the
  mandatory pseudo headers be there. The request then has exactly these parts; every other list is
  a stream error.
\<close>

theorem request_accepted_iff:
  "request_of C hl =
    (let ps = takeWhile (\<lambda>kv. is_pseudo (fst kv)) hl; rs = dropWhile (\<lambda>kv. is_pseudo (fst kv)) hl
     in if well_formed C ps rs then Ok (the_request C ps rs) else Err (StreamErr ProtocolError))"
  by (rule request_of_eq)

end
