(* ===== verification/H2_Conn.thy ===== *)
theory H2_Conn
  imports H2_Stream H2_Request "HOL-Library.AList"
begin

text \<open>
  The connection task of \<open>src/src/http2/mod.rs\<close>: its state, the handshake, the handlers of
  \<open>main_loop\<close> (received frames, requests of the stream tasks, timers, shutdown), the distribution
  of the connection window, the request read from a header block and the response written as
  frames. The \<open>http\<close> crate, the HPACK coder and the peer are parameters.
\<close>

section \<open>The HPACK coder\<close>

text \<open>HPACK: a decoder may fail, an encoder does not; both keep a state.\<close>

type_synonym 'd hpack_decode = "'d \<Rightarrow> byte list \<Rightarrow> header_list option \<times> 'd"
type_synonym 'e hpack_encode = "'e \<Rightarrow> header_list \<Rightarrow> byte list \<times> 'e"

section \<open>The state\<close>

record h2_config =
  h2_settings :: settings
  h2_settings_timeout :: nat
  h2_ping_interval :: nat
  h2_ping_timeout :: nat
  h2_ping_payload :: u64
  h2_initial_global_window_size :: int
  request_header_buf_size :: nat

text \<open>\<open>StreamHandle\<close>: the sending end of a stream's channel, by the number of the channel.\<close>

record stream_handle =
  tx :: nat
  closed :: bool

text \<open>A task the connection has started, with what \<open>Stream::new\<close> and \<open>run\<close> were given.\<close>

record ('m, 'u, 'n, 'v) stream_task =
  t_chan :: nat
  t_stream :: stream
  t_request :: "('m, 'u, 'n, 'v) request"
  t_stream_end :: bool

text \<open>
  \<open>Connection\<close>. Instants are numbers. \<open>incoming\<close> is what the next calls of \<open>read_next_frame\<close> (in
  theory \<open>H2_Wire\<close>) return, in order: a call waits when it is used up. The stream channels are a store: \<open>mail c\<close> is what channel
  \<open>c\<close> holds, or \<open>None\<close> once its receiver is dropped. \<open>wire\<close> is what was given to the writer,
  \<open>writer_open\<close> whether writing still succeeds. The hash map of streams is an association list in
  the order of its iteration.
\<close>

record ('d, 'e, 'm, 'u, 'n, 'v) conn =
  cfg :: h2_config
  remote_settings :: settings
  local_settings :: settings
  last_frame_received :: nat
  settings_ack_timeout :: "nat option"
  ping_ack_timeout :: "nat option"
  incoming :: "frame h2 list"
  header_buffer :: buffer
  header_decoder :: 'd
  header_encoder :: 'e
  streams :: "(u32 \<times> stream_handle) list"
  biggest_open_stream :: u32
  open_streams :: u32
  global_window :: int
  peer_window :: int
  pending_window_req :: "(u32 \<times> int) list"
  pending_gracefull_shutdown :: bool
  wire :: "frame list"
  writer_open :: bool
  mail :: "nat \<Rightarrow> stream_req list option"
  next_chan :: nat
  tasks :: "('m, 'u, 'n, 'v) stream_task list"

definition conn_new ::
  "h2_config \<Rightarrow> 'd \<Rightarrow> 'e \<Rightarrow> frame h2 list \<Rightarrow> nat \<Rightarrow> ('d, 'e, 'm, 'u, 'n, 'v) conn" where
  "conn_new c d e reads now =
     \<lparr>cfg = c, remote_settings = settings_default, local_settings = h2_settings c,
      last_frame_received = now, settings_ack_timeout = None, ping_ack_timeout = None,
      incoming = reads,
      header_buffer = with_capacity (request_header_buf_size c),
      header_decoder = d, header_encoder = e, streams = [], biggest_open_stream = 0,
      open_streams = 0, global_window = 65535, peer_window = 65535, pending_window_req = [],
      pending_gracefull_shutdown = False, wire = [], writer_open = True,
      mail = (\<lambda>_. None), next_chan = 0, tasks = []\<rparr>"

type_synonym ('d, 'e, 'm, 'u, 'n, 'v, 'a) act =
  "(('d, 'e, 'm, 'u, 'n, 'v) conn, 'a, h2_error) stateful"

text \<open>A call whose result is kept as a value, \<open>let result = m; k(result)\<close>.\<close>

definition handing_over ::
  "('s, 'a, 'e) stateful \<Rightarrow> (('a, 'e) outcome \<Rightarrow> ('s, 'b, 'e) stateful) \<Rightarrow> ('s, 'b, 'e) stateful" where
  "handing_over m k s = (case m s of (r, s') \<Rightarrow> k r s')"

section \<open>Writing, and sending to streams\<close>

text \<open>\<open>self.write_frame(frame).await?\<close>: an I/O error becomes a connection error.\<close>

definition put_frame :: "frame \<Rightarrow> ('d, 'e, 'm, 'u, 'n, 'v, unit) act" where
  "put_frame f s =
     (if writer_open s then (Ok (), s\<lparr>wire := wire s @ [f]\<rparr>) else (Err (ConnErr ProtocolError), s))"

definition send_stream :: "h2_error \<Rightarrow> stream_handle \<Rightarrow> stream_req \<Rightarrow> ('d, 'e, 'm, 'u, 'n, 'v, unit) act" where
  "send_stream e h m s = (case mail s (tx h) of
     None \<Rightarrow> (Err e, s)
   | Some q \<Rightarrow> (Ok (), s\<lparr>mail := (mail s)(tx h := Some (q @ [m]))\<rparr>))"

definition update_window :: "int \<Rightarrow> stream_handle \<Rightarrow> ('d, 'e, 'm, 'u, 'n, 'v, unit) act" where
  "update_window amount h = send_stream (StreamErr StreamClosed) h (WindowUpdate amount)"

definition give_from_global_window :: "int \<Rightarrow> stream_handle \<Rightarrow> ('d, 'e, 'm, 'u, 'n, 'v, unit) act" where
  "give_from_global_window amount h = send_stream (ConnErr InternalError) h (AvailableWindow amount)"

definition send_data :: "data_frame \<Rightarrow> stream_handle \<Rightarrow> ('d, 'e, 'm, 'u, 'n, 'v, unit) act" where
  "send_data d h = send_stream (StreamErr StreamClosed) h (RequestBody d)"

text \<open>\<open>handle_possible_stream_error\<close>.\<close>

definition mark_closed :: "u32 \<Rightarrow> ('d, 'e, 'm, 'u, 'n, 'v) conn \<Rightarrow> ('d, 'e, 'm, 'u, 'n, 'v) conn" where
  "mark_closed i s = (case map_of (streams s) i of
     None \<Rightarrow> s
   | Some h \<Rightarrow> s\<lparr>streams := AList.update i (h\<lparr>closed := True\<rparr>) (streams s)\<rparr>)"

definition reset_stream :: "u32 \<Rightarrow> ('d, 'e, 'm, 'u, 'n, 'v) conn \<Rightarrow> ('d, 'e, 'm, 'u, 'n, 'v) conn" where
  "reset_stream i s = (case map_of (streams s) i of
     None \<Rightarrow> s
   | Some h \<Rightarrow>
       let s' = mark_closed i s in
       (case send_stream (ConnErr InternalError) h Reset s' of
          (Ok _, s'') \<Rightarrow> s''
        | (_, s'') \<Rightarrow> s''\<lparr>streams := AList.delete i (streams s'')\<rparr>))"

definition handle_possible_stream_error ::
  "unit h2 \<Rightarrow> u32 \<Rightarrow> ('d, 'e, 'm, 'u, 'n, 'v, unit) act" where
  "handle_possible_stream_error result i s = (case result of
     Err (StreamErr code) \<Rightarrow>
       if i = 0 then (Err (ConnErr InternalError), s)
       else put_frame (rst_stream_enc \<lparr>r_stream = i, r_error_code = Some code\<rparr>) (reset_stream i s)
   | r \<Rightarrow> (r, s))"

section \<open>The connection window\<close>

definition update_global_window :: "int \<Rightarrow> ('d, 'e, 'm, 'u, 'n, 'v, unit) act" where
  "update_global_window amount s = (case i32_checked_add (global_window s) amount of
     Some w \<Rightarrow> (Ok (), s\<lparr>global_window := w\<rparr>)
   | None \<Rightarrow> (Err (ConnErr InternalError), s))"

lemma give_and_take:
  "sbind (give_from_global_window amount h) (\<lambda>_. update_global_window (- amount)) s = (Ok u, s') \<Longrightarrow>
   \<exists>q. mail s (tx h) = Some q \<and> s' = s\<lparr>mail := (mail s)(tx h := Some (q @ [AvailableWindow amount])),
     global_window := global_window s - amount\<rparr>"
  by (auto simp: give_from_global_window_def send_stream_def update_global_window_def sbind_def
      split: option.splits)

text \<open>
  \<open>distribute_window\<close>: first in, first out. A partial grant leaves the rest of the request at the
  head of the queue, with the window used up.
\<close>

function distribute_window :: "('d, 'e, 'm, 'u, 'n, 'v, unit) act" where
  "distribute_window s =
     (if 0 \<ge> global_window s then (Ok (), s)
      else case pending_window_req s of
        [] \<Rightarrow> (Ok (), s)
      | (i, want) # rest \<Rightarrow>
          if 0 \<ge> want then distribute_window (s\<lparr>pending_window_req := rest\<rparr>)
          else case map_of (streams s) i of
            None \<Rightarrow> distribute_window (s\<lparr>pending_window_req := rest\<rparr>)
          | Some h \<Rightarrow>
              let amount = (if global_window s \<ge> want then want else global_window s);
                  remaining = (if global_window s \<ge> want then 0 else want - global_window s)
              in case sbind (give_from_global_window amount h)
                    (\<lambda>_. update_global_window (- amount)) s of
                (Ok _, s') \<Rightarrow>
                  if remaining > 0
                  then distribute_window (s'\<lparr>pending_window_req := (i, remaining) # rest\<rparr>)
                  else distribute_window (s'\<lparr>pending_window_req := rest\<rparr>)
              | (Err e, s') \<Rightarrow> (Err e, s')
              | (Panic, s') \<Rightarrow> (Panic, s'))"
  by pat_completeness auto

termination
  by (relation "measures [\<lambda>s. length (pending_window_req s), \<lambda>s. nat (global_window s)]")
    (auto dest!: sym [of "(Ok _, _)"] give_and_take)

declare distribute_window.simps [simp del]

section \<open>Reading a request\<close>

text \<open>\<open>read_request\<close>: the header buffer is emptied once the block is decoded.\<close>

definition read_request ::
  "('m, 'u, 'n, 'v) http_crate \<Rightarrow> 'd hpack_decode
    \<Rightarrow> ('d, 'e, 'm, 'u, 'n, 'v, ('m, 'u, 'n, 'v) request) act" where
  "read_request C decode s = (case as_ref (header_buffer s) of
     Ok block \<Rightarrow>
       (case decode (header_decoder s) block of
          (None, d) \<Rightarrow> (Err (ConnErr CompresssionError), s\<lparr>header_decoder := d\<rparr>)
        | (Some hl, d) \<Rightarrow>
            (request_of C hl, s\<lparr>header_decoder := d, header_buffer := buffer_reset (header_buffer s)\<rparr>))
   | Err e \<Rightarrow> (Err e, s)
   | Panic \<Rightarrow> (Panic, s))"

section \<open>Writing a response\<close>

text \<open>The fragments: HEADERS first, then CONTINUATION, at most 16384 bytes each.\<close>

definition FRAGMENT :: nat where "FRAGMENT = 16384"

definition fragment_frame :: "bool \<Rightarrow> u32 \<Rightarrow> bool \<Rightarrow> bool \<Rightarrow> byte list \<Rightarrow> frame" where
  "fragment_frame is_first i end_stream end_headers data =
     (if is_first
      then headers_enc \<lparr>h_stream = i, h_end_stream = end_stream, h_end_headers = end_headers,
        h_priority = None, h_data = data\<rparr>
      else continuation_enc \<lparr>c_stream = i, c_end_headers = end_headers, c_data = data\<rparr>)"

function write_fragments ::
  "bool \<Rightarrow> u32 \<Rightarrow> bool \<Rightarrow> byte list \<Rightarrow> ('d, 'e, 'm, 'u, 'n, 'v, unit) act" where
  "write_fragments is_first i end_stream data s =
     (if length data > FRAGMENT
      then case put_frame (fragment_frame is_first i end_stream False (take FRAGMENT data)) s of
          (Ok _, s') \<Rightarrow> write_fragments False i end_stream (drop FRAGMENT data) s'
        | r \<Rightarrow> r
      else put_frame (fragment_frame is_first i end_stream True data) s)"
  by pat_completeness auto
termination
  by (relation "measure (\<lambda>(first, i, es, data, s). length data)") (auto simp: FRAGMENT_def)

declare write_fragments.simps [simp del]

definition write_response ::
  "'e hpack_encode \<Rightarrow> resp_head \<Rightarrow> u32 \<Rightarrow> bool \<Rightarrow> ('d, 'e, 'm, 'u, 'n, 'v, unit) act" where
  "write_response encode resp i end_stream s =
     (let (status, headers) = resp;
          (data, e) = encode (header_encoder s) ((bytes_of '':status'', status) # headers)
      in write_fragments True i end_stream data (s\<lparr>header_encoder := e\<rparr>))"

section \<open>Requests of the streams\<close>

text \<open>The main loop goes on (\<open>continue\<close>) or ends without an error.\<close>

datatype flow = Continue | Exit

definition u32_checked_add :: "u32 \<Rightarrow> u32 \<Rightarrow> u32 option" where
  "u32_checked_add a b = (if unat a + unat b < 2 ^ 32 then Some (a + b) else None)"

definition u32_checked_sub :: "u32 \<Rightarrow> u32 \<Rightarrow> u32 option" where
  "u32_checked_sub a b = (if unat b \<le> unat a then Some (a - b) else None)"

definition window_update :: "u32 \<Rightarrow> u32 \<Rightarrow> frame" where
  "window_update i inc = window_update_enc \<lparr>w_stream = i, window_size_increment = inc\<rparr>"

definition update_peer_window :: "u32 \<Rightarrow> int \<Rightarrow> ('d, 'e, 'm, 'u, 'n, 'v, unit) act" where
  "update_peer_window i amount s = (case i32_checked_add (peer_window s) amount of
     None \<Rightarrow> (Err (ConnErr InternalError), s)
   | Some w \<Rightarrow>
       let s' = s\<lparr>peer_window := w\<rparr> in
       (case i32_to_u32 amount of
          None \<Rightarrow> (Err (ConnErr InternalError), s')
        | Some inc \<Rightarrow>
            sbind (put_frame (window_update 0 inc)) (\<lambda>_. put_frame (window_update i inc)) s'))"

definition stream_closing :: "u32 \<Rightarrow> h2_error option \<Rightarrow> ('d, 'e, 'm, 'u, 'n, 'v, flow) act" where
  "stream_closing i error =
     sbind (case error of
         Some e \<Rightarrow> handle_possible_stream_error (Err e) i
       | None \<Rightarrow> sret ()) (\<lambda>_ s.
     case u32_checked_sub (open_streams s) 1 of
       None \<Rightarrow> (Err (ConnErr InternalError), s)
     | Some n \<Rightarrow>
         let s' = s\<lparr>open_streams := n\<rparr> in
         if pending_gracefull_shutdown s' \<and> open_streams s' = 0 then (Ok Exit, s')
         else (Ok Continue, mark_closed i s'))"

definition on_conn_req ::
  "'e hpack_encode \<Rightarrow> conn_req \<Rightarrow> ('d, 'e, 'm, 'u, 'n, 'v, flow) act" where
  "on_conn_req encode req s =
     (let go = (\<lambda>m. sbind m (\<lambda>_. sret Continue)) in
      case req of
        CR_Frame f \<Rightarrow> go (put_frame f) s
      | CR_Response resp i end_stream \<Rightarrow> go (write_response encode resp i end_stream) s
      | CR_GetWindow i amount \<Rightarrow>
          go distribute_window (s\<lparr>pending_window_req := pending_window_req s @ [(i, amount)]\<rparr>)
      | CR_PutWindow amount \<Rightarrow> go (sbind (update_global_window amount) (\<lambda>_. distribute_window)) s
      | CR_UpdatePeerWindow i amount \<Rightarrow> go (update_peer_window i amount) s
      | CR_StreamClosing i error \<Rightarrow> stream_closing i error s
      | CR_StreamClosed i \<Rightarrow> (Ok Continue, s\<lparr>streams := AList.delete i (streams s)\<rparr>))"

section \<open>Received frames\<close>

definition debit_peer_window :: "int \<Rightarrow> ('d, 'e, 'm, 'u, 'n, 'v, unit) act" where
  "debit_peer_window amount s = (case i32_checked_sub (peer_window s) amount of
     None \<Rightarrow> (Err (ConnErr InternalError), s)
   | Some w \<Rightarrow> (Ok (), s\<lparr>peer_window := w\<rparr>))"

definition on_data :: "data_frame \<Rightarrow> ('d, 'e, 'm, 'u, 'n, 'v, unit) act" where
  "on_data d s = (case map_of (streams s) (d_stream d) of
     None \<Rightarrow> (Err (ConnErr ProtocolError), s)
   | Some h \<Rightarrow>
       (case usize_to_i32 (length (d_data d)) of
          None \<Rightarrow> (Err (ConnErr ProtocolError), s)
        | Some amount \<Rightarrow>
            if amount > peer_window s then (Err (ConnErr FlowControlError), s)
            else sbind (send_data d h) (\<lambda>_. debit_peer_window amount) s))"

text \<open>
  A header block. \<open>add_block\<close> puts a fragment into the header buffer; \<open>read_continuations\<close> is the
  loop after a HEADERS frame without END_HEADERS, \<open>Pending\<close> while it waits for the next frame.
\<close>

definition add_block :: "byte list \<Rightarrow> ('d, 'e, 'm, 'u, 'n, 'v, unit) act" where
  "add_block data s = (case buffer_write data (header_buffer s) of
     Ok (written, b) \<Rightarrow>
       (if written \<noteq> length data then Err (ConnErr ProtocolError) else Ok (), s\<lparr>header_buffer := b\<rparr>)
   | _ \<Rightarrow> (Panic, s))"

fun read_continuations ::
  "frame h2 list \<Rightarrow> u32 \<Rightarrow> ('d, 'e, 'm, 'u, 'n, 'v, unit poll) act" where
  "read_continuations [] i s = (Ok Pending, s\<lparr>incoming := []\<rparr>)"
| "read_continuations (r # rs) i s =
     sbind (slift r) (\<lambda>f.
     if ftype (header f) \<noteq> FT_Continuation then slift (Err (ConnErr ProtocolError))
     else sbind (slift (continuation_dec f)) (\<lambda>c.
     if c_stream c \<noteq> i then slift (Err (ConnErr ProtocolError))
     else sbind (add_block (c_data c)) (\<lambda>_.
     if c_end_headers c then sret (Ready ()) else read_continuations rs i))) (s\<lparr>incoming := rs\<rparr>)"

text \<open>\<open>Stream::new\<close> and \<open>run\<close>: a new channel, a new task, and the handle kept under the id.\<close>

definition spawn_stream ::
  "stream \<Rightarrow> ('m, 'u, 'n, 'v) request \<Rightarrow> bool
    \<Rightarrow> ('d, 'e, 'm, 'u, 'n, 'v) conn \<Rightarrow> ('d, 'e, 'm, 'u, 'n, 'v) conn" where
  "spawn_stream st req stream_end s =
     (let c = next_chan s in
      s\<lparr>next_chan := c + 1, mail := (mail s)(c := Some []),
        tasks := tasks s @ [\<lparr>t_chan = c, t_stream = st, t_request = req, t_stream_end = stream_end\<rparr>],
        streams := AList.update (s_id st) \<lparr>tx = c, closed = False\<rparr> (streams s)\<rparr>)"

definition open_stream ::
  "('m, 'u, 'n, 'v) request \<Rightarrow> u32 \<Rightarrow> bool \<Rightarrow> ('d, 'e, 'm, 'u, 'n, 'v, unit) act" where
  "open_stream req i stream_end s =
     (case (u32_to_i32 (initial_window_size (remote_settings s)),
            u32_to_i32 (initial_window_size (local_settings s))) of
        (Some w, Some pw) \<Rightarrow>
          let s' = (if i > biggest_open_stream s then s\<lparr>biggest_open_stream := i\<rparr> else s) in
          (case u32_checked_add (open_streams s') 1 of
             None \<Rightarrow> (Err (ConnErr InternalError), s')
           | Some n \<Rightarrow>
               (Ok (), spawn_stream (stream_new i Open w pw) req stream_end (s'\<lparr>open_streams := n\<rparr>)))
      | _ \<Rightarrow> (Err (ConnErr ProtocolError), s))"

definition refuse_stream :: "u32 \<Rightarrow> ('d, 'e, 'm, 'u, 'n, 'v, unit) act" where
  "refuse_stream i s = handle_possible_stream_error (Err (StreamErr RefusedStream)) i
     (s\<lparr>header_buffer := buffer_reset (header_buffer s)\<rparr>)"

text \<open>The header block is complete: refuse the stream, or read the request and open it.\<close>

definition refuses :: "('d, 'e, 'm, 'u, 'n, 'v) conn \<Rightarrow> bool" where
  "refuses s \<longleftrightarrow> pending_gracefull_shutdown s \<or>
     (case max_concurrent_streams (h2_settings (cfg s)) of
        Some n \<Rightarrow> open_streams s \<ge> n | None \<Rightarrow> False)"

definition headers_complete ::
  "('m, 'u, 'n, 'v) http_crate \<Rightarrow> 'd hpack_decode \<Rightarrow> u32 \<Rightarrow> bool
    \<Rightarrow> ('d, 'e, 'm, 'u, 'n, 'v, unit) act" where
  "headers_complete C decode i stream_end s =
     (if refuses s then refuse_stream i s
      else case read_request C decode s of
        (Ok req, s') \<Rightarrow> open_stream req i stream_end s'
      | (Err e, s') \<Rightarrow> handle_possible_stream_error (Err e) i s'
      | (Panic, s') \<Rightarrow> (Panic, s'))"

definition rest_of_block ::
  "('m, 'u, 'n, 'v) http_crate \<Rightarrow> 'd hpack_decode \<Rightarrow> headers_frame
    \<Rightarrow> ('d, 'e, 'm, 'u, 'n, 'v, unit poll) act" where
  "rest_of_block C decode h s =
     sbind (if h_end_headers h then sret (Ready ()) else read_continuations (incoming s) (h_stream h))
       (\<lambda>p. case p of
          Pending \<Rightarrow> sret Pending
        | Ready _ \<Rightarrow> sbind (headers_complete C decode (h_stream h) (h_end_stream h)) (\<lambda>_. sret (Ready ()))) s"

definition on_headers ::
  "('m, 'u, 'n, 'v) http_crate \<Rightarrow> 'd hpack_decode \<Rightarrow> headers_frame
    \<Rightarrow> ('d, 'e, 'm, 'u, 'n, 'v, unit poll) act" where
  "on_headers C decode h s =
     (let i = h_stream h in
      if i mod 2 = 0 then (Err (ConnErr ProtocolError), s)
      else if map_of (streams s) i = None \<and> biggest_open_stream s \<ge> i
      then (Err (ConnErr ProtocolError), s)
      else sbind (add_block (h_data h)) (\<lambda>_. rest_of_block C decode h) s)"

fun update_windows :: "int \<Rightarrow> stream_handle list \<Rightarrow> ('d, 'e, 'm, 'u, 'n, 'v, unit) act" where
  "update_windows dif [] = sret ()"
| "update_windows dif (h # hs) = sbind (update_window dif h) (\<lambda>_. update_windows dif hs)"

definition on_settings :: "settings_frame \<Rightarrow> ('d, 'e, 'm, 'u, 'n, 'v, unit) act" where
  "on_settings f s =
     (if \<not> sf_ack f
      then case apply_settings_frame f (remote_settings s) of
          (Ok dif, rs) \<Rightarrow>
            let s' = s\<lparr>remote_settings := rs\<rparr> in
            sbind (update_windows dif (map snd (streams s'))) (\<lambda>_.
            put_frame (settings_enc (settings_frame_default\<lparr>sf_ack := True\<rparr>))) s'
        | (Err e, rs) \<Rightarrow> (Err e, s\<lparr>remote_settings := rs\<rparr>)
        | (Panic, rs) \<Rightarrow> (Panic, s\<lparr>remote_settings := rs\<rparr>)
      else (Ok (), s\<lparr>settings_ack_timeout := None\<rparr>))"

definition on_ping :: "ping_frame \<Rightarrow> ('d, 'e, 'm, 'u, 'n, 'v, unit) act" where
  "on_ping p s =
     (if \<not> ping_ack p then put_frame (ping_enc (p\<lparr>ping_ack := True\<rparr>)) s
      else if ping_data p \<noteq> h2_ping_payload (cfg s) then (Err (ConnErr ProtocolError), s)
      else (Ok (), s\<lparr>ping_ack_timeout := None\<rparr>))"

definition on_window_update :: "window_update_frame \<Rightarrow> ('d, 'e, 'm, 'u, 'n, 'v, unit) act" where
  "on_window_update w s = (case u32_to_i32 (window_size_increment w) of
     None \<Rightarrow> (Err (ConnErr ProtocolError), s)
   | Some amount \<Rightarrow>
       sbind (if w_stream w = 0 then update_global_window amount
          else (case map_of (streams s) (w_stream w) of
              None \<Rightarrow> sret ()
            | Some h \<Rightarrow> handing_over (update_window amount h)
                (\<lambda>r. handle_possible_stream_error r (w_stream w))))
         (\<lambda>_. distribute_window) s)"

text \<open>The match of \<open>main_loop\<close>; \<open>Pending\<close> when a header block waits for more frames.\<close>

definition on_frame ::
  "('m, 'u, 'n, 'v) http_crate \<Rightarrow> 'd hpack_decode \<Rightarrow> frame
    \<Rightarrow> ('d, 'e, 'm, 'u, 'n, 'v, flow poll) act" where
  "on_frame C decode f =
     (let go = (\<lambda>m. sbind m (\<lambda>_. sret (Ready Continue))) in
      sbind (slift (dispatch f)) (\<lambda>r. case r of
        R_Data d \<Rightarrow> go (on_data d)
      | R_Headers h \<Rightarrow> sbind (on_headers C decode h) (\<lambda>p. case p of
          Pending \<Rightarrow> sret Pending | Ready _ \<Rightarrow> sret (Ready Continue))
      | R_Priority _ \<Rightarrow> sret (Ready Continue)
      | R_RstStream _ \<Rightarrow> sret (Ready Continue)
      | R_Settings sf \<Rightarrow> go (on_settings sf)
      | R_Ping p \<Rightarrow> go (on_ping p)
      | R_GoAway _ \<Rightarrow> sret (Ready Exit)
      | R_WindowUpdate w \<Rightarrow> go (on_window_update w)))"

section \<open>Timers, shutdown, and the main loop\<close>

definition on_shutdown :: "nat \<Rightarrow> ('d, 'e, 'm, 'u, 'n, 'v, flow) act" where
  "on_shutdown now s =
     (if open_streams s = 0 then (Ok Exit, s)
      else sbind (put_frame (settings_enc (settings_frame_default\<lparr>sf_max_concurrent_streams := Some 0\<rparr>)))
        (\<lambda>_ s'. (Ok Continue, s'\<lparr>settings_ack_timeout := Some (now + h2_settings_timeout (cfg s'))\<rparr>))
        (s\<lparr>pending_gracefull_shutdown := True\<rparr>))"

definition on_flush :: "bool \<Rightarrow> ('d, 'e, 'm, 'u, 'n, 'v, flow) act" where
  "on_flush buffered s =
     (if buffered \<and> \<not> writer_open s then (Err (ConnErr ProtocolError), s) else (Ok Continue, s))"

definition expired :: "nat \<Rightarrow> nat option \<Rightarrow> bool" where
  "expired now limit = (case limit of Some t \<Rightarrow> now > t | None \<Rightarrow> False)"

definition on_tick :: "nat \<Rightarrow> ('d, 'e, 'm, 'u, 'n, 'v, flow) act" where
  "on_tick now s =
     (if expired now (settings_ack_timeout s) then (Err (ConnErr SettingsTimeout), s)
      else if expired now (ping_ack_timeout s) then (Err (ConnErr ProtocolError), s)
      else if now > last_frame_received s + h2_ping_interval (cfg s)
      then sbind (put_frame (ping_enc \<lparr>ping_ack = False, ping_data = h2_ping_payload (cfg s)\<rparr>))
        (\<lambda>_ s'. (Ok Continue, s'\<lparr>ping_ack_timeout := Some (now + h2_ping_timeout (cfg s'))\<rparr>)) s
      else (Ok Continue, s))"

text \<open>
  What the \<open>select!\<close> of \<open>main_loop\<close> can take: the next frame (at an instant), the shutdown signal,
  the flush timer (does the writer hold bytes?), the timeout timer, a request of a stream.
\<close>

datatype conn_event =
  On_Frame nat | On_Shutdown nat | On_Flush bool | On_Tick nat | On_Req conn_req

definition on_event ::
  "('m, 'u, 'n, 'v) http_crate \<Rightarrow> 'd hpack_decode \<Rightarrow> 'e hpack_encode \<Rightarrow> conn_event
    \<Rightarrow> ('d, 'e, 'm, 'u, 'n, 'v, flow poll) act" where
  "on_event C decode encode ev s = (case ev of
     On_Frame now \<Rightarrow>
       (case incoming s of
          [] \<Rightarrow> (Ok Pending, s)
        | r # rs \<Rightarrow>
            sbind (slift r) (\<lambda>f s'. on_frame C decode f (s'\<lparr>last_frame_received := now\<rparr>))
              (s\<lparr>incoming := rs\<rparr>))
   | On_Shutdown now \<Rightarrow> sbind (on_shutdown now) (\<lambda>fl. sret (Ready fl)) s
   | On_Flush buffered \<Rightarrow> sbind (on_flush buffered) (\<lambda>fl. sret (Ready fl)) s
   | On_Tick now \<Rightarrow> sbind (on_tick now) (\<lambda>fl. sret (Ready fl)) s
   | On_Req req \<Rightarrow> sbind (on_conn_req encode req) (\<lambda>fl. sret (Ready fl)) s)"

text \<open>\<open>main_loop\<close> over the events in their order; \<open>Pending\<close> when it waits for more.\<close>

fun main_loop ::
  "('m, 'u, 'n, 'v) http_crate \<Rightarrow> 'd hpack_decode \<Rightarrow> 'e hpack_encode \<Rightarrow> conn_event list
    \<Rightarrow> ('d, 'e, 'm, 'u, 'n, 'v, unit poll) act" where
  "main_loop C decode encode [] = sret Pending"
| "main_loop C decode encode (ev # evs) =
     sbind (on_event C decode encode ev) (\<lambda>p. case p of
       Pending \<Rightarrow> sret Pending
     | Ready Exit \<Rightarrow> sret (Ready ())
     | Ready Continue \<Rightarrow> main_loop C decode encode evs)"

text \<open>
  \<open>handle_inner\<close>, given the result of \<open>read_preface\<close>, the instant of the handshake and the events
  of the main loop. The result says whether the connection is done.
\<close>

definition handshake :: "unit io \<Rightarrow> nat \<Rightarrow> ('d, 'e, 'm, 'u, 'n, 'v) conn
    \<Rightarrow> bool \<times> ('d, 'e, 'm, 'u, 'n, 'v) conn" where
  "handshake preface now s = (case preface of
     Ok _ \<Rightarrow>
       (case put_frame (settings_enc (settings_to_frame (local_settings s))) s of
          (Ok _, s1) \<Rightarrow>
            let w = h2_initial_global_window_size (cfg s1); s2 = s1\<lparr>peer_window := w\<rparr> in
            (case i32_checked_sub w 65535 of
               None \<Rightarrow> (False, s2)
             | Some inc \<Rightarrow>
                 (case i32_to_u32 inc of
                    None \<Rightarrow> (False, s2)
                  | Some u \<Rightarrow>
                      let (r, s3) = (if u > 0 then put_frame (window_update 0 u) s2 else (Ok (), s2)) in
                      if is_ok r
                      then (True, s3\<lparr>settings_ack_timeout := Some (now + h2_settings_timeout (cfg s3))\<rparr>)
                      else (False, s3)))
        | (_, s1) \<Rightarrow> (False, s1))
   | _ \<Rightarrow> (False, s))"

definition go_away :: "unit h2 \<Rightarrow> ('d, 'e, 'm, 'u, 'n, 'v) conn \<Rightarrow> ('d, 'e, 'm, 'u, 'n, 'v) conn" where
  "go_away result s =
     (let code = (case result of Err e \<Rightarrow> into_inner e | _ \<Rightarrow> NoError)
      in snd (put_frame (go_away_enc \<lparr>last_stream_id = biggest_open_stream s,
           go_error_code = Some code, debug_data = []\<rparr>) s))"

definition handle_inner ::
  "('m, 'u, 'n, 'v) http_crate \<Rightarrow> 'd hpack_decode \<Rightarrow> 'e hpack_encode \<Rightarrow> unit io \<Rightarrow> nat
    \<Rightarrow> conn_event list \<Rightarrow> ('d, 'e, 'm, 'u, 'n, 'v) conn \<Rightarrow> bool \<times> ('d, 'e, 'm, 'u, 'n, 'v) conn" where
  "handle_inner C decode encode preface now evs s = (case handshake preface now s of
     (False, s1) \<Rightarrow> (True, s1)
   | (True, s1) \<Rightarrow>
       (case main_loop C decode encode evs s1 of
          (Ok Pending, s2) \<Rightarrow> (False, s2)
        | (Ok (Ready _), s2) \<Rightarrow> (True, go_away (Ok ()) s2)
        | (Err e, s2) \<Rightarrow> (True, go_away (Err e) s2)
        | (Panic, s2) \<Rightarrow> (True, s2)))"

end
