(* ===== verification/H2_Conn_Inv.thy ===== *)
theory H2_Conn_Inv
  imports H2_Conn
begin

text \<open>
  What the operations of the connection task keep: one turn of the distribution of the window, the
  invariant of the connection, and the laws (locale \<open>conn_law\<close>) under which a predicate on the
  connection survives every handler of the main loop.
\<close>

section \<open>The connection window\<close>

text \<open>A grant puts \<open>AvailableWindow\<close> into a channel.\<close>

definition grant :: "nat \<times> int \<Rightarrow> (nat \<Rightarrow> stream_req list option) \<Rightarrow> (nat \<Rightarrow> stream_req list option)" where
  "grant g m = m(fst g := map_option (\<lambda>q. q @ [AvailableWindow (snd g)]) (m (fst g)))"

text \<open>The requests that are still worth something: a positive amount, of a stream there is.\<close>

fun wanted :: "(u32 \<times> stream_handle) list \<Rightarrow> (u32 \<times> int) list \<Rightarrow> (nat \<times> int) list" where
  "wanted hs [] = []"
| "wanted hs ((i, n) # rest) =
     (if 0 \<ge> n then wanted hs rest
      else case map_of hs i of None \<Rightarrow> wanted hs rest | Some h \<Rightarrow> (tx h, n) # wanted hs rest)"

text \<open>
  The grants \<open>gs\<close> serve the queue \<open>ws\<close> from its head and leave \<open>ws'\<close>: whole requests, and at most
  one, the last, in part.
\<close>

inductive serves :: "(nat \<times> int) list \<Rightarrow> (nat \<times> int) list \<Rightarrow> (nat \<times> int) list \<Rightarrow> bool" where
  none: "serves [] ws ws"
| whole: "serves gs ws ws' \<Longrightarrow> serves ((c, n) # gs) ((c, n) # ws) ws'"
| part: "0 < n \<Longrightarrow> 0 < r \<Longrightarrow> serves [(c, n)] ((c, n + r) # ws) ((c, r) # ws)"

definition granted_total :: "(nat \<times> int) list \<Rightarrow> int" where
  "granted_total gs = sum_list (map snd gs)"

lemma granted_total_simps [simp]:
  "granted_total [] = 0" "granted_total (g # gs) = snd g + granted_total gs"
  by (simp_all add: granted_total_def)

lemma give_and_take_ok:
  assumes "mail s (tx h) \<noteq> None" "i32_ok (global_window s - n)"
  shows "sbind (give_from_global_window n h) (\<lambda>_. update_global_window (- n)) s =
    (Ok (), s\<lparr>mail := grant (tx h, n) (mail s), global_window := global_window s - n\<rparr>)"
  using assms
  by (auto simp: give_from_global_window_def send_stream_def update_global_window_def grant_def i32_checked_add_def
      checked_i32_def sbind_def split: option.splits)

lemma mail_grants: "(fold grant gs m c = None) = (m c = None)"
  by (induction gs arbitrary: m) (auto simp: grant_def)

text \<open>What \<open>distribute_window\<close> may do to the state.\<close>

definition distributed ::
  "(nat \<times> int) list \<Rightarrow> ('d, 'e, 'm, 'u, 'n, 'v) conn \<Rightarrow> ('d, 'e, 'm, 'u, 'n, 'v) conn \<Rightarrow> bool" where
  "distributed gs s s' \<longleftrightarrow>
     s' = s\<lparr>mail := fold grant gs (mail s), global_window := global_window s - granted_total gs,
       pending_window_req := pending_window_req s'\<rparr> \<and>
     (\<forall>g\<in>set gs. 0 < snd g) \<and>
     serves gs (wanted (streams s) (pending_window_req s)) (wanted (streams s) (pending_window_req s'))"

definition channels_open :: "('d, 'e, 'm, 'u, 'n, 'v) conn \<Rightarrow> bool" where
  "channels_open s \<longleftrightarrow> (\<forall>h\<in>snd ` set (streams s). mail s (tx h) \<noteq> None)"

text \<open>One turn of the loop.\<close>

lemma distribute_stop:
  "global_window s \<le> 0 \<or> pending_window_req s = [] \<Longrightarrow> distribute_window s = (Ok (), s)"
  by (auto simp: distribute_window.simps [of s])

lemma distribute_drop:
  "0 < global_window s \<Longrightarrow> pending_window_req s = (i, n) # rest \<Longrightarrow> n \<le> 0 \<or> map_of (streams s) i = None \<Longrightarrow>
   distribute_window s = distribute_window (s\<lparr>pending_window_req := rest\<rparr>)"
  by (auto simp: distribute_window.simps [of s])

lemma i32_ok_less: "i32_ok w \<Longrightarrow> 0 \<le> n \<Longrightarrow> n \<le> w \<Longrightarrow> i32_ok (w - n)"
  by (simp add: i32_ok_def i32_min_def)

lemma distribute_whole:
  assumes "pending_window_req s = (i, n) # rest" "map_of (streams s) i = Some h" "mail s (tx h) \<noteq> None"
    and "0 < n" "n \<le> global_window s" "i32_ok (global_window s)"
  shows "distribute_window s = distribute_window (s\<lparr>mail := grant (tx h, n) (mail s),
    global_window := global_window s - n, pending_window_req := rest\<rparr>)"
  using assms give_and_take_ok [of s h n] i32_ok_less [of "global_window s" n]
  by (simp add: distribute_window.simps [of s])

lemma distribute_part:
  assumes "pending_window_req s = (i, n) # rest" "map_of (streams s) i = Some h" "mail s (tx h) \<noteq> None"
    and "global_window s < n" "0 < global_window s" "i32_ok (global_window s)"
  shows "distribute_window s = (Ok (), s\<lparr>mail := grant (tx h, global_window s) (mail s),
    global_window := 0, pending_window_req := (i, n - global_window s) # rest\<rparr>)"
  using assms give_and_take_ok [of s h "global_window s"] i32_ok_less [of "global_window s" "global_window s"]
  by (simp add: distribute_window.simps [of s] distribute_stop Let_def)

lemma channels_open_head:
  "channels_open s \<Longrightarrow> map_of (streams s) i = Some h \<Longrightarrow> mail s (tx h) \<noteq> None"
  by (force simp: channels_open_def dest: map_of_SomeD)

lemma distribute_window_spec:
  fixes s :: "('d, 'e, 'm, 'u, 'n, 'v) conn"
  shows "channels_open s \<Longrightarrow> i32_ok (global_window s) \<Longrightarrow>
   \<exists>s' gs. distribute_window s = (Ok (), s') \<and> distributed gs s s' \<and>
     (0 \<le> global_window s \<longrightarrow> 0 \<le> global_window s') \<and> (global_window s' \<le> 0 \<or> pending_window_req s' = [])"
proof (induction "pending_window_req s" arbitrary: s)
  case Nil
  then show ?case
    by (intro exI [of _ s] exI [of _ "[]"]) (simp add: distribute_stop distributed_def serves.none)
next
  case (Cons p rest)
  obtain i n where p: "pending_window_req s = (i, n) # rest" using Cons.hyps(2) by (metis surj_pair)
  have IH: "\<exists>t' gs. distribute_window t = (Ok (), t') \<and> distributed gs t t' \<and> (0 \<le> global_window t \<longrightarrow> 0 \<le> global_window t') \<and>
      (global_window t' \<le> 0 \<or> pending_window_req t' = [])"
    if "pending_window_req t = rest" "channels_open t" "i32_ok (global_window t)"
    for t :: "('d, 'e, 'm, 'u, 'n, 'v) conn"
    using Cons.hyps(1) [of t] that by simp
  consider (stop) "global_window s \<le> 0" | (drop) "0 < global_window s" "n \<le> 0 \<or> map_of (streams s) i = None"
    | (whole) h where "map_of (streams s) i = Some h" "0 < n" "n \<le> global_window s"
    | (part) h where "map_of (streams s) i = Some h" "0 < global_window s" "global_window s < n"
    by (cases "map_of (streams s) i"; cases "global_window s \<le> 0"; cases "n \<le> 0"; cases "n \<le> global_window s")
      (auto simp: not_le)
  then show ?case
  proof cases
    case stop
    then show ?thesis
      by (intro exI [of _ s] exI [of _ "[]"]) (simp add: distribute_stop distributed_def serves.none)
  next
    case drop
    let ?s = "s\<lparr>pending_window_req := rest\<rparr>"
    have "channels_open ?s" using Cons.prems(1) by (simp add: channels_open_def)
    with IH [of ?s] Cons.prems(2) obtain s' gs where s': "distribute_window ?s = (Ok (), s')" "distributed gs ?s s'"
      "0 \<le> global_window s \<longrightarrow> 0 \<le> global_window s'" "global_window s' \<le> 0 \<or> pending_window_req s' = []"
      by auto
    have "wanted (streams s) ((i, n) # rest) = wanted (streams s) rest"
      using drop by (auto split: option.splits)
    with s'(2) p have "distributed gs s s'" by (simp add: distributed_def)
    with s' distribute_drop [OF drop(1) p drop(2)] show ?thesis by metis
  next
    case whole
    let ?s = "s\<lparr>mail := grant (tx h, n) (mail s), global_window := global_window s - n, pending_window_req := rest\<rparr>"
    have "channels_open ?s" using Cons.prems(1) by (auto simp: channels_open_def grant_def)
    moreover have "i32_ok (global_window ?s)" using Cons.prems(2) whole by (simp add: i32_ok_less)
    ultimately obtain s' gs where s': "distribute_window ?s = (Ok (), s')" "distributed gs ?s s'"
      "0 \<le> global_window ?s \<longrightarrow> 0 \<le> global_window s'" "global_window s' \<le> 0 \<or> pending_window_req s' = []"
      using IH [of ?s] by auto
    have "distributed ((tx h, n) # gs) s s'"
      using s'(2) p whole by (auto simp: distributed_def diff_diff_eq intro: serves.whole)
    with s' distribute_whole [OF p whole(1) channels_open_head [OF Cons.prems(1) whole(1)] whole(2,3) Cons.prems(2)] whole
    show ?thesis by (intro exI [of _ s'] exI [of _ "(tx h, n) # gs"]) simp
  next
    case part
    let ?s = "s\<lparr>mail := grant (tx h, global_window s) (mail s), global_window := 0,
      pending_window_req := (i, n - global_window s) # rest\<rparr>"
    have "distributed [(tx h, global_window s)] s ?s"
      using p part serves.part [of "global_window s" "n - global_window s" "tx h" "wanted (streams s) rest"]
      by (simp add: distributed_def)
    with distribute_part [OF p part(1) channels_open_head [OF Cons.prems(1) part(1)] part(3,2) Cons.prems(2)]
    show ?thesis by (intro exI [of _ ?s] exI [of _ "[(tx h, global_window s)]"]) simp
  qed
qed

section \<open>The invariant of the connection\<close>

text \<open>
  The header buffer is sound, the remote settings are in their bounds, both windows are \<open>i32\<close>
  values, no identifier has two handles, channels that were not handed out yet are not there, and
  every handle has a channel that was. No frame that will come makes a decoder panic (theory
  \<open>H2_Frame\<close> shows which could).
\<close>

definition conn_ok :: "('d, 'e, 'm, 'u, 'n, 'v) conn \<Rightarrow> bool" where
  "conn_ok s \<longleftrightarrow> buffer_inv (header_buffer s) \<and> settings_inv (remote_settings s) \<and>
     i32_ok (global_window s) \<and> i32_ok (peer_window s) \<and> distinct (map fst (streams s)) \<and>
     (\<forall>h\<in>snd ` set (streams s). tx h < next_chan s) \<and> (\<forall>c\<ge>next_chan s. mail s c = None) \<and>
     Panic \<notin> set (incoming s) \<and>
     (\<forall>f. Ok f \<in> set (incoming s) \<longrightarrow> dispatch f \<noteq> Panic)"

lemma streams_update_keys:
  "distinct (map fst al) \<Longrightarrow> distinct (map fst (AList.update k v al))"
  by (rule distinct_update)

lemma set_updateD: "p \<in> set (AList.update k v al) \<Longrightarrow> snd p = v \<or> p \<in> set al"
  by (induction al) (auto split: if_splits)

lemma set_delete_subset: "set (AList.delete i al) \<subseteq> set al"
  by (simp add: AList.delete_eq)

lemma upholds_case_option [upholds_intros]:
  "upholds P m \<Longrightarrow> (\<And>x. upholds P (k x)) \<Longrightarrow> upholds P (case v of None \<Rightarrow> m | Some x \<Rightarrow> k x)"
  by (simp split: option.split)

lemma upholds_if [upholds_intros]: "upholds P m \<Longrightarrow> upholds P m' \<Longrightarrow> upholds P (if c then m else m')"
  by simp

text \<open>A handler that first changes a field \<open>conn_ok\<close> keeps.\<close>

lemma upholds_at: "upholds P m \<Longrightarrow> P t \<Longrightarrow> fst (m t) \<noteq> Panic \<and> P (snd (m t))"
  by (simp add: upholds_def)

lemma add_block_incoming: "incoming (snd (add_block data s)) = incoming s"
  by (simp add: add_block_def split: outcome.split prod.split)

lemma handing_over_ok [upholds_intros]:
  "upholds P m \<Longrightarrow> (\<And>r. r \<noteq> Panic \<Longrightarrow> upholds P (k r)) \<Longrightarrow> upholds P (handing_over m k)"
  by (auto simp: upholds_def handing_over_def split: prod.split)

lemma control_frames [simp]:
  "ftype (header (settings_enc sf)) = FT_Settings" "ftype (header (ping_enc p)) = FT_Ping"
  "ftype (header (window_update i n)) = FT_WindowUpdate" "ftype (header (rst_stream_enc r)) = FT_RstStream"
  "ftype (header (go_away_enc g)) = FT_GoAway" "ftype (header (fragment_frame fi i es eh d)) \<noteq> FT_Data"
  by (simp_all add: settings_enc_def ping_enc_def window_update_def window_update_enc_def rst_stream_enc_def
      go_away_enc_def fragment_frame_def headers_enc_def continuation_enc_def mk_frame_def)

lemma handle_known: "conn_ok s \<Longrightarrow> map_of (streams s) i = Some h \<Longrightarrow> tx h < next_chan s"
  by (force simp: conn_ok_def dest: map_of_SomeD)

section \<open>What survives the main loop\<close>

text \<open>
  A predicate on the connection, the invariant or more, that the handlers keep because it is kept
  by the changes they are made of: a frame other than DATA is written, a message other than a
  grant is sent to a stream, window is granted out of the connection window, and so on; a dozen
  fields do not matter. What raises the connection window and what writes DATA frames is left to
  whoever interprets the locale.
\<close>

fun is_grant :: "stream_req \<Rightarrow> bool" where
  "is_grant (AvailableWindow n) = True"
| "is_grant _ = False"

locale conn_law =
  fixes P :: "('d, 'e, 'm, 'u, 'n, 'v) conn \<Rightarrow> bool"
  assumes sound: "P s \<Longrightarrow> conn_ok s"
    and other: "P (s\<lparr>pending_window_req := ps\<rparr>) = P s" "P (s\<lparr>header_encoder := e\<rparr>) = P s"
      "P (s\<lparr>header_decoder := d\<rparr>) = P s" "P (s\<lparr>last_frame_received := now\<rparr>) = P s"
      "P (s\<lparr>settings_ack_timeout := lim\<rparr>) = P s" "P (s\<lparr>ping_ack_timeout := lim\<rparr>) = P s"
      "P (s\<lparr>open_streams := k\<rparr>) = P s" "P (s\<lparr>biggest_open_stream := k\<rparr>) = P s"
      "P (s\<lparr>pending_gracefull_shutdown := sd\<rparr>) = P s"
    and written: "P s \<Longrightarrow> ftype (header f) \<noteq> FT_Data \<Longrightarrow> P (s\<lparr>wire := wire s @ [f]\<rparr>)"
    and told: "P s \<Longrightarrow> mail s c = Some q \<Longrightarrow> \<not> is_grant m \<Longrightarrow> P (s\<lparr>mail := (mail s)(c := Some (q @ [m]))\<rparr>)"
    and granted: "P s \<Longrightarrow> mail s c = Some q \<Longrightarrow> 0 < n \<Longrightarrow> n \<le> global_window s \<Longrightarrow>
      P (s\<lparr>mail := (mail s)(c := Some (q @ [AvailableWindow n])), global_window := global_window s - n\<rparr>)"
    and debited: "P s \<Longrightarrow> i32_ok w \<Longrightarrow> P (s\<lparr>peer_window := w\<rparr>)"
    and handled: "P s \<Longrightarrow> tx h < next_chan s \<Longrightarrow> P (s\<lparr>streams := AList.update i h (streams s)\<rparr>)"
    and forgotten: "P s \<Longrightarrow> P (s\<lparr>streams := AList.delete i (streams s)\<rparr>)"
    and collected: "P s \<Longrightarrow> buffer_inv b \<Longrightarrow> P (s\<lparr>header_buffer := b\<rparr>)"
    and configured: "P s \<Longrightarrow> settings_inv ss \<Longrightarrow> P (s\<lparr>remote_settings := ss\<rparr>)"
    and arrived: "P s \<Longrightarrow> set rs \<subseteq> set (incoming s) \<Longrightarrow> P (s\<lparr>incoming := rs\<rparr>)"
    and spawned: "P s \<Longrightarrow> t_chan task = next_chan s \<Longrightarrow> available_window (t_stream task) = 0 \<Longrightarrow> P (s\<lparr>next_chan := next_chan s + 1, mail := (mail s)(next_chan s := Some []),
      tasks := tasks s @ [task]\<rparr>)"
begin

declare other [simp]

lemma put_frame_ok [upholds_intros]: "ftype (header f) \<noteq> FT_Data \<Longrightarrow> upholds P (put_frame f)"
  by (rule upholdsI) (simp add: put_frame_def written)

lemma send_stream_ok [upholds_intros]: "\<not> is_grant m \<Longrightarrow> upholds P (send_stream e h m)"
  by (rule upholdsI) (auto simp: send_stream_def told split: option.splits)

lemma to_streams_ok [upholds_intros]: "upholds P (update_window n h)" "upholds P (send_data d h)"
  by (rule upholdsI, simp add: update_window_def send_data_def upholdsD [OF send_stream_ok])+

lemma mark_closed_ok: "P s \<Longrightarrow> P (mark_closed i s)"
  by (auto simp: mark_closed_def handle_known sound intro!: handled split: option.splits)

lemma reset_stream_ok:
  assumes "P s"
  shows "P (reset_stream i s)"
proof (cases "map_of (streams s) i")
  case (Some h)
  obtain r t where sent: "send_stream (ConnErr InternalError) h Reset (mark_closed i s) = (r, t)" by fastforce
  then have "P t"
    using upholdsD(2) [OF send_stream_ok mark_closed_ok [OF assms], of Reset] by (metis is_grant.simps(4) snd_conv)
  with Some sent show ?thesis
    by (cases r) (simp_all add: reset_stream_def forgotten)
qed (simp add: reset_stream_def assms)

lemma handle_possible_stream_error_ok [upholds_intros]:
  "result \<noteq> Panic \<Longrightarrow> upholds P (handle_possible_stream_error result i)"
  by (rule upholdsI) (auto simp: handle_possible_stream_error_def upholdsD [OF put_frame_ok reset_stream_ok]
      split: outcome.splits h2_error.splits)

lemma distribute_window_step: "P s \<Longrightarrow> fst (distribute_window s) \<noteq> Panic \<and> P (snd (distribute_window s))"
proof (induction "pending_window_req s" arbitrary: s)
  case Nil
  then show ?case by (simp add: distribute_stop)
next
  case (Cons p rest)
  obtain i n where p: "pending_window_req s = (i, n) # rest" using Cons.hyps(2) by (metis surj_pair)
  have drop: ?case if "distribute_window s = distribute_window t" "P t" "pending_window_req t = rest" for t
    using Cons.hyps(1) [of t] that by simp
  have w: "i32_ok (global_window s)" using sound [OF Cons.prems] by (simp add: conn_ok_def)
  consider (stop) "global_window s \<le> 0" | (none) "0 < global_window s" "n \<le> 0 \<or> map_of (streams s) i = None"
    | (some) h where "map_of (streams s) i = Some h" "0 < n" "0 < global_window s"
    by (cases "map_of (streams s) i"; cases "global_window s \<le> 0"; cases "n \<le> 0") auto
  then show ?case
  proof cases
    case stop
    with Cons.prems show ?thesis by (simp add: distribute_stop)
  next
    case none
    with Cons.prems show ?thesis by (intro drop [of "s\<lparr>pending_window_req := rest\<rparr>"] distribute_drop [OF _ p]) simp_all
  next
    case some
    show ?thesis
    proof (cases "mail s (tx h)")
      case None
      with some p Cons.prems show ?thesis
        by (simp add: distribute_window.simps [of s] give_from_global_window_def send_stream_def sbind_def Let_def)
    next
      case (Some q)
      then have open_chan: "mail s (tx h) \<noteq> None" by simp
      have give: "P (s\<lparr>mail := grant (tx h, k) (mail s), global_window := global_window s - k\<rparr>)"
        if "0 < k" "k \<le> global_window s" for k
        using granted [OF Cons.prems Some that] Some by (simp add: grant_def)
      show ?thesis
      proof (cases "n \<le> global_window s")
        case True
        have "P (s\<lparr>mail := grant (tx h, n) (mail s), global_window := global_window s - n, pending_window_req := rest\<rparr>)"
          using give [OF some(2) True] other(1) [of rest "s\<lparr>mail := grant (tx h, n) (mail s), global_window := global_window s - n\<rparr>"]
          by simp
        with True show ?thesis
          by (intro drop [OF distribute_whole [OF p some(1) open_chan some(2) True w]]) simp_all
      next
        case False
        have "P (s\<lparr>mail := grant (tx h, global_window s) (mail s), global_window := 0,
            pending_window_req := (i, n - global_window s) # rest\<rparr>)"
          using give [OF some(3)] other(1) [of "(i, n - global_window s) # rest" "s\<lparr>mail := grant (tx h, global_window s) (mail s), global_window := 0\<rparr>"]
          by simp
        with False some w show ?thesis by (simp add: distribute_part [OF p some(1) open_chan])
      qed
    qed
  qed
qed

lemma distribute_window_ok [upholds_intros]: "upholds P distribute_window"
  by (rule upholdsI) (rule distribute_window_step)

lemma write_fragments_step:
  "P s \<Longrightarrow> fst (write_fragments fi i es data s) \<noteq> Panic \<and> P (snd (write_fragments fi i es data s))"
proof (induction fi i es data s rule: write_fragments.induct)
  case (1 fi i es data s)
  let ?f = "fragment_frame fi i es False (take FRAGMENT data)"
  obtain r t where rt: "put_frame ?f s = (r, t)" by fastforce
  with upholdsD [OF put_frame_ok 1(2), of ?f] have t: "r \<noteq> Panic" "P t" by simp_all
  show ?case
  proof (cases "length data > FRAGMENT")
    case True
    with 1(1) [OF True rt [symmetric]] t rt show ?thesis
      by (cases r) (simp_all add: write_fragments.simps [of fi i es data s])
  next
    case False
    with upholdsD [OF put_frame_ok 1(2)] show ?thesis
      by (simp add: write_fragments.simps [of fi i es data s])
  qed
qed

lemma write_fragments_ok [upholds_intros]: "upholds P (write_fragments fi i es data)"
  by (rule upholdsI) (rule write_fragments_step)

lemma write_response_ok [upholds_intros]: "upholds P (write_response encode resp i es)"
  by (rule upholdsI) (simp add: write_response_def upholdsD [OF write_fragments_ok] split: prod.splits)

lemma two_frames_ok:
  "ftype (header f) \<noteq> FT_Data \<Longrightarrow> ftype (header g) \<noteq> FT_Data \<Longrightarrow>
   upholds P (sbind (put_frame f) (\<lambda>_. put_frame g))"
  by (intro upholds_intros)

lemma update_peer_window_ok [upholds_intros]: "upholds P (update_peer_window i n)"
  by (rule upholdsI) (auto simp: update_peer_window_def Let_def debited upholdsD [OF two_frames_ok]
      split: option.splits)

lemma count_closed_ok:
  "upholds P (\<lambda>s. case u32_checked_sub (open_streams s) 1 of
       None \<Rightarrow> (Err (ConnErr InternalError), s)
     | Some n \<Rightarrow>
         let s' = s\<lparr>open_streams := n\<rparr> in
         if pending_gracefull_shutdown s' \<and> open_streams s' = 0 then (Ok Exit, s')
         else (Ok Continue, mark_closed i s'))"
  by (rule upholdsI) (simp add: Let_def mark_closed_ok split: option.splits)

lemma stream_closing_ok [upholds_intros]: "upholds P (stream_closing i err)"
proof -
  have "upholds P (case err of Some e \<Rightarrow> handle_possible_stream_error (Err e) i | None \<Rightarrow> sret ())"
    by (cases err) (simp_all add: handle_possible_stream_error_ok)
  then show ?thesis unfolding stream_closing_def by (rule upholds_sbind) (rule count_closed_ok)
qed

lemma go_ok: "upholds P m \<Longrightarrow> upholds P (sbind m (\<lambda>_. sret x))"
  by (intro upholds_intros)

text \<open>Every request of a stream but the two that are left out.\<close>

lemma on_conn_req_other:
  assumes "\<forall>f. req \<noteq> CR_Frame f" "\<forall>n. req \<noteq> CR_PutWindow n"
  shows "upholds P (on_conn_req encode req)"
proof (rule upholdsI)
  fix s assume "P s"
  with assms show "fst (on_conn_req encode req s) \<noteq> Panic \<and> P (snd (on_conn_req encode req s))"
    by (cases req) (simp_all add: on_conn_req_def Let_def upholds_at [OF go_ok] upholds_intros forgotten
        upholdsD [OF stream_closing_ok])
qed

lemma debit_peer_window_ok [upholds_intros]: "upholds P (debit_peer_window n)"
  by (rule upholdsI) (auto simp: debit_peer_window_def debited split: option.splits)

lemma send_and_debit_ok: "upholds P (sbind (send_data d h) (\<lambda>_. debit_peer_window n))"
  by (intro upholds_intros)

lemma on_data_ok [upholds_intros]: "upholds P (on_data d)"
  by (rule upholdsI) (simp add: on_data_def upholds_at [OF send_and_debit_ok] split: option.splits)

lemma add_block_ok [upholds_intros]: "upholds P (add_block data)"
proof (rule upholdsI)
  fix s
  assume s: "P s"
  then have "buffer_inv (header_buffer s)" using sound by (simp add: conn_ok_def)
  from buffer_write_ops [OF this, of data] obtain k b where "buffer_write data (header_buffer s) = Ok (k, b)" "buffer_inv b"
    by blast
  with s show "fst (add_block data s) \<noteq> Panic \<and> P (snd (add_block data s))"
    by (simp add: add_block_def collected)
qed

lemma no_panic_comes: "P s \<Longrightarrow> Panic \<notin> set (incoming s)"
  using sound by (simp add: conn_ok_def)

lemma read_continuations_ok:
  "P s \<Longrightarrow> set rs \<subseteq> set (incoming s) \<Longrightarrow>
   fst (read_continuations rs i s) \<noteq> Panic \<and> P (snd (read_continuations rs i s))"
proof (induction rs arbitrary: s)
  case (Cons r rs)
  let ?s = "s\<lparr>incoming := rs\<rparr>"
  have s: "P ?s" using Cons.prems by (intro arrived) auto
  show ?case
  proof (cases r)
    case (Ok f)
    have dec: "continuation_dec f \<noteq> Panic" by (simp add: continuation_dec_def expect_def)
    show ?thesis
    proof (cases "continuation_dec f")
      case c: (Ok c)
      obtain q t where added: "add_block (c_data c) ?s = (q, t)" by fastforce
      then have t: "q \<noteq> Panic" "P t" "set rs \<subseteq> set (incoming t)"
        using upholdsD [OF add_block_ok s, of "c_data c"] add_block_incoming [of "c_data c" ?s] by simp_all
      show ?thesis
        using Ok c s added t Cons.IH [OF t(2,3)] by (cases q) simp_all
    qed (use Ok dec s in simp_all)
  next
    case Panic
    with Cons.prems no_panic_comes [of s] show ?thesis by auto
  qed (simp add: s)
qed (simp add: arrived)

lemma spawn_stream_ok:
  assumes "P s" "available_window st = 0"
  shows "P (spawn_stream st req es s)"
proof -
  let ?t = "\<lparr>t_chan = next_chan s, t_stream = st, t_request = req, t_stream_end = es\<rparr>"
  have "P (s\<lparr>next_chan := next_chan s + 1, mail := (mail s)(next_chan s := Some []), tasks := tasks s @ [?t]\<rparr>)"
    using assms by (intro spawned) simp_all
  from handled [OF this, of "\<lparr>tx = next_chan s, closed = False\<rparr>" "s_id st"]
  show ?thesis by (simp add: spawn_stream_def Let_def)
qed

lemma open_stream_ok [upholds_intros]: "upholds P (open_stream req i es)"
  by (rule upholdsI) (simp add: open_stream_def Let_def spawn_stream_ok stream_new_def split: option.splits)

lemma empty_header_buffer_ok: "P s \<Longrightarrow> P (s\<lparr>header_buffer := buffer_reset (header_buffer s)\<rparr>)"
  using sound by (intro collected) (auto simp: conn_ok_def buffer_ops)

lemma refuse_stream_ok [upholds_intros]: "upholds P (refuse_stream i)"
  by (rule upholdsI)
    (simp add: refuse_stream_def empty_header_buffer_ok upholdsD [OF handle_possible_stream_error_ok])

lemma read_request_ok [upholds_intros]: "upholds P (read_request C decode)"
proof (rule upholdsI)
  fix s
  assume s: "P s"
  then have "as_ref (header_buffer s) = (Ok (view (header_buffer s)) :: byte list h2)"
    using sound by (simp add: conn_ok_def as_ref_view)
  moreover have "P (s\<lparr>header_decoder := d, header_buffer := buffer_reset (header_buffer s)\<rparr>)" for d
    using empty_header_buffer_ok [of "s\<lparr>header_decoder := d\<rparr>"] s by simp
  ultimately show "fst (read_request C decode s) \<noteq> Panic \<and> P (snd (read_request C decode s))"
    using s by (simp add: read_request_def request_of_total split: prod.split option.split)
qed

lemma headers_complete_ok [upholds_intros]: "upholds P (headers_complete C decode i es)"
proof (rule upholdsI)
  fix s
  assume s: "P s"
  obtain r t where req: "read_request C decode s = (r, t)" by fastforce
  with upholdsD [OF read_request_ok s, of C decode] have "r \<noteq> Panic" "P t" by simp_all
  with req s show "fst (headers_complete C decode i es s) \<noteq> Panic \<and> P (snd (headers_complete C decode i es s))"
    by (cases r) (simp_all add: headers_complete_def upholdsD [OF refuse_stream_ok] upholdsD [OF open_stream_ok]
        upholdsD [OF handle_possible_stream_error_ok])
qed

lemma after_block_ok: "upholds P (sbind (headers_complete C decode i es) (\<lambda>_. sret (Ready ())))"
  by (intro upholds_intros)

lemma rest_of_block_ok [upholds_intros]: "upholds P (rest_of_block C decode h)"
proof (rule upholdsI, goal_cases)
  case (1 s)
  obtain q t where first: "(if h_end_headers h then sret (Ready ()) else read_continuations (incoming s) (h_stream h)) s = (q, t)"
    by fastforce
  then have "q \<noteq> Panic" "P t"
    using 1 read_continuations_ok [OF 1 subset_refl, of "h_stream h"] by (auto split: if_splits)
  with first show ?case
    by (cases q) (simp_all add: rest_of_block_def upholdsD [OF after_block_ok] split: poll.split)
qed

lemma whole_block_ok: "upholds P (sbind (add_block data) (\<lambda>_. rest_of_block C decode h))"
  by (intro upholds_intros)

lemma on_headers_ok [upholds_intros]: "upholds P (on_headers C decode h)"
  by (rule upholdsI) (simp add: on_headers_def Let_def upholdsD [OF whole_block_ok])

lemma update_windows_ok [upholds_intros]: "upholds P (update_windows n hs)"
  by (induction hs) (auto simp only: update_windows.simps intro: upholds_intros)

lemma update_and_ack_ok:
  "ftype (header g) \<noteq> FT_Data \<Longrightarrow> upholds P (sbind (update_windows dif hs) (\<lambda>_. put_frame g))"
  by (intro upholds_intros)

lemma on_settings_ok [upholds_intros]: "upholds P (on_settings f)"
proof (rule upholdsI)
  fix s
  assume s: "P s"
  obtain r ss where applied: "apply_settings_frame f (remote_settings s) = (r, ss)" by fastforce
  have "settings_inv (remote_settings s)" using s sound by (simp add: conn_ok_def)
  with applied have "r \<noteq> Panic" "settings_inv ss"
    using apply_in_range [of "remote_settings s" f] apply_out_of_range [of "remote_settings s" f]
      keepsD [OF apply_keeps_inv [of f], of "remote_settings s"] by (cases "frame_in_range f"; auto)+
  then have "P (s\<lparr>remote_settings := ss\<rparr>)" using s by (simp add: configured)
  with s applied \<open>r \<noteq> Panic\<close> show "fst (on_settings f s) \<noteq> Panic \<and> P (snd (on_settings f s))"
    by (cases r) (simp_all add: on_settings_def Let_def upholds_at [OF update_and_ack_ok])
qed

lemma on_ping_ok [upholds_intros]: "upholds P (on_ping p)"
  by (rule upholdsI) (simp add: on_ping_def upholdsD [OF put_frame_ok])

lemma stream_window_ok:
  "upholds P (sbind (case v of None \<Rightarrow> sret ()
     | Some h \<Rightarrow> handing_over (update_window n h) (\<lambda>r. handle_possible_stream_error r i)) (\<lambda>_. distribute_window))"
  by (intro upholds_intros)

text \<open>A WINDOW_UPDATE on a stream; on the connection it raises the connection window.\<close>

lemma on_window_update_stream: "w_stream w \<noteq> 0 \<Longrightarrow> upholds P (on_window_update w)"
  by (rule upholdsI) (simp add: on_window_update_def upholds_at [OF stream_window_ok] split: option.split)

lemma on_window_update_general:
  assumes "\<And>n. upholds P (update_global_window n)"
  shows "upholds P (on_window_update w)"
proof (cases "w_stream w = 0")
  case True
  have "upholds P (sbind (update_global_window n) (\<lambda>_. distribute_window))" for n
    using assms by (intro upholds_intros)
  from upholds_at [OF this] True show ?thesis
    by (intro upholdsI) (simp add: on_window_update_def split: option.split)
qed (rule on_window_update_stream)

lemma headers_then_ok:
  "upholds P (sbind (on_headers C decode h) (\<lambda>p. case p of
     Pending \<Rightarrow> sret Pending | Ready _ \<Rightarrow> sret (Ready Continue)))"
  by (intro upholds_sbind on_headers_ok) (simp split: poll.split)

lemma on_frame_with:
  assumes "dispatch f \<noteq> Panic" "\<And>w. dispatch f = Ok (R_WindowUpdate w) \<Longrightarrow> upholds P (on_window_update w)"
  shows "upholds P (on_frame C decode f)"
proof (rule upholdsI)
  fix s assume s: "P s"
  show "fst (on_frame C decode f s) \<noteq> Panic \<and> P (snd (on_frame C decode f s))"
  proof (cases "dispatch f")
    case (Ok r)
    note go = upholds_at [OF go_ok]
    show ?thesis
    proof (cases r)
      case (R_WindowUpdate w)
      with Ok have "upholds P (on_window_update w)" by (intro assms(2)) simp
      from go [OF this s] Ok R_WindowUpdate show ?thesis by (simp add: on_frame_def)
    qed (use Ok s in \<open>simp_all add: on_frame_def go upholds_intros upholds_at [OF headers_then_ok]\<close>)
  next
    case (Err e)
    with s show ?thesis by (simp add: on_frame_def)
  next
    case Panic
    with assms show ?thesis by simp
  qed
qed

lemma on_shutdown_ok [upholds_intros]: "upholds P (on_shutdown now)"
  using written [of "s\<lparr>pending_gracefull_shutdown := True\<rparr>" for s]
  by (intro upholdsI) (simp add: on_shutdown_def sbind_def put_frame_def)

lemma on_flush_ok [upholds_intros]: "upholds P (on_flush buffered)"
  by (rule upholdsI) (simp add: on_flush_def)

lemma on_tick_ok [upholds_intros]: "upholds P (on_tick now)"
  by (rule upholdsI) (simp add: on_tick_def sbind_def put_frame_def written)

lemma ready_ok: "upholds P m \<Longrightarrow> upholds P (sbind m (\<lambda>fl. sret (Ready fl)))"
  by (intro upholds_intros)

text \<open>
  One event of the main loop, when the two things left out are kept too: a WINDOW_UPDATE that
  comes, and the request it takes.
\<close>

lemma on_event_with:
  assumes "P s"
    and "\<And>now f rs w. ev = On_Frame now \<Longrightarrow> incoming s = Ok f # rs \<Longrightarrow> dispatch f = Ok (R_WindowUpdate w) \<Longrightarrow>
      upholds P (on_window_update w)"
    and "\<And>req. ev = On_Req req \<Longrightarrow> upholds P (on_conn_req encode req)"
  shows "fst (on_event C decode encode ev s) \<noteq> Panic \<and> P (snd (on_event C decode encode ev s))"
proof (cases ev)
  case (On_Frame now)
  show ?thesis
  proof (cases "incoming s")
    case Nil
    with assms(1) On_Frame show ?thesis by (simp add: on_event_def)
  next
    case (Cons r rs)
    then have rest: "P (s\<lparr>incoming := rs\<rparr>)" using assms(1) by (intro arrived) auto
    show ?thesis
    proof (cases r)
      case (Ok f)
      with Cons have "dispatch f \<noteq> Panic" using sound [OF assms(1)] by (auto simp: conn_ok_def)
      with assms(2) On_Frame Ok Cons have "upholds P (on_frame C decode f)" by (intro on_frame_with) auto
      from upholds_at [OF this] rest have "fst (on_frame C decode f (s\<lparr>incoming := rs, last_frame_received := now\<rparr>)) \<noteq> Panic \<and>
          P (snd (on_frame C decode f (s\<lparr>incoming := rs, last_frame_received := now\<rparr>)))"
        using other(4) [of now "s\<lparr>incoming := rs\<rparr>"] by simp
      with On_Frame Cons Ok show ?thesis by (simp add: on_event_def)
    next
      case (Err e)
      with On_Frame Cons rest show ?thesis by (simp add: on_event_def)
    next
      case Panic
      with Cons no_panic_comes [OF assms(1)] show ?thesis by simp
    qed
  qed
next
  case (On_Req req)
  from upholds_at [OF ready_ok [OF assms(3) [OF this]] assms(1)] On_Req show ?thesis by (simp add: on_event_def)
qed (use assms(1) in \<open>simp_all add: on_event_def upholds_at [OF ready_ok] upholds_intros\<close>)

end

section \<open>The invariant is kept\<close>

lemma conn_ok_streams:
  "conn_ok s \<Longrightarrow> tx h < next_chan s \<Longrightarrow> conn_ok (s\<lparr>streams := AList.update i h (streams s)\<rparr>)"
  "conn_ok s \<Longrightarrow> conn_ok (s\<lparr>streams := AList.delete i (streams s)\<rparr>)"
  using set_delete_subset [of i "streams s"]
  by (auto simp: conn_ok_def distinct_update distinct_delete dest!: set_updateD)

interpretation ok: conn_law conn_ok
  by unfold_locales (simp_all only: conn_ok_streams, auto simp: conn_ok_def less_Suc_eq i32_ok_less)

lemma update_global_window_ok: "upholds conn_ok (update_global_window n)"
  by (rule upholdsI) (auto simp: update_global_window_def conn_ok_def split: option.splits)

lemma on_conn_req_ok: "upholds conn_ok (on_conn_req encode req)"
proof (cases req)
  case (CR_Frame f)
  have "upholds conn_ok (put_frame f)"
    by (rule upholdsI) (simp add: put_frame_def conn_ok_def)
  from upholds_at [OF ok.go_ok [OF this]] CR_Frame show ?thesis
    by (intro upholdsI) (simp add: on_conn_req_def)
next
  case (CR_PutWindow n)
  have "upholds conn_ok (sbind (update_global_window n) (\<lambda>_. distribute_window))"
    by (intro upholds_sbind update_global_window_ok ok.distribute_window_ok)
  from upholds_at [OF ok.go_ok [OF this]] CR_PutWindow show ?thesis
    by (intro upholdsI) (simp add: on_conn_req_def)
qed (rule ok.on_conn_req_other; simp)+

lemma on_event_ok: "upholds conn_ok (on_event C decode encode ev)"
  by (intro upholdsI ok.on_event_with ok.on_window_update_general update_global_window_ok on_conn_req_ok)

lemma main_loop_ok: "upholds conn_ok (main_loop C decode encode evs)"
proof (induction evs)
  case (Cons ev evs)
  then have "upholds conn_ok (case p of Pending \<Rightarrow> sret Pending | Ready Exit \<Rightarrow> sret (Ready ())
      | Ready Continue \<Rightarrow> main_loop C decode encode evs)" for p
    by (simp split: poll.split flow.split del: sret_apply)
  then show ?case
    unfolding main_loop.simps by (intro upholds_sbind on_event_ok)
qed (simp only: main_loop.simps upholds_sret)

text \<open>A frame the wire can bring: read in full and past the header checks, and not of the one
  kind whose decoder can panic.\<close>

definition arrives :: "frame \<Rightarrow> bool" where
  "arrives f \<longleftrightarrow> (\<exists>raw pl. frame_from_header_and_payload raw pl = Ok f \<and> announced raw pl) \<and>
     \<not> (ftype (header f) = FT_Headers \<and> contains (fflags (header f)) PADDED \<and> contains (fflags (header f)) PRIORITY)"

lemma arrives_dispatch: "arrives f \<Longrightarrow> dispatch f \<noteq> Panic"
  unfolding arrives_def using dispatch_total by blast

lemma handshake_spec:
  assumes "Panic \<notin> set reads" "\<forall>f. Ok f \<in> set reads \<longrightarrow> arrives f" "i32_ok (h2_initial_global_window_size c)"
    and "handshake preface now (conn_new c d e reads t) = (True, s)"
  shows "\<exists>w a. s = (conn_new c d e reads t)\<lparr>peer_window := h2_initial_global_window_size c, wire := w,
      settings_ack_timeout := a\<rparr> \<and> (\<forall>f\<in>set w. ftype (header f) \<noteq> FT_Data) \<and> conn_ok s"
proof -
  have new: "conn_ok ((conn_new c d e reads t)\<lparr>peer_window := h2_initial_global_window_size c, wire := w,
      settings_ack_timeout := a\<rparr>)" for w a
    using assms(1-3) by (auto simp: conn_ok_def conn_new_def buffer_ops settings_default_inv arrives_dispatch
        i32_ok_def i32_min_def i32_max_def)
  have "\<exists>w a. s = (conn_new c d e reads t)\<lparr>peer_window := h2_initial_global_window_size c, wire := w,
      settings_ack_timeout := a\<rparr> \<and> (\<forall>f\<in>set w. ftype (header f) \<noteq> FT_Data)"
    using assms(4) by (auto simp: handshake_def put_frame_def Let_def conn_new_def split: outcome.splits
        option.splits if_splits)
  with new show ?thesis by blast
qed

end
