(* ===== verification/H2_Conn_Laws.thy ===== *)
theory H2_Conn_Laws
  imports H2_Conn_Inv
begin

text \<open>
  The properties of the connection task: the fragments of a response, the distribution of the
  connection window, the handlers of received frames and of the timers, the invariant.
\<close>

section \<open>The fragments of a response\<close>

text \<open>
  \<open>fs\<close> carries \<open>data\<close>: one HEADERS frame (unless it is a rest), then CONTINUATION frames, none
  larger than 16384 bytes, all on stream \<open>i\<close>, END_HEADERS on the last one only.
\<close>

definition fragmented :: "bool \<Rightarrow> u32 \<Rightarrow> bool \<Rightarrow> byte list \<Rightarrow> frame list \<Rightarrow> bool" where
  "fragmented is_first i end_stream data fs \<longleftrightarrow>
     concat (map payload fs) = data \<and>
     (\<forall>f\<in>set fs. length (payload f) \<le> 16384 \<and> fstream (header f) = i) \<and>
     (\<exists>n. map (\<lambda>f. ftype (header f)) fs = (if is_first then FT_Headers else FT_Continuation) # replicate n FT_Continuation \<and>
          map (\<lambda>f. contains (fflags (header f)) END_HEADERS) fs = replicate n False @ [True] \<and>
          map (\<lambda>f. contains (fflags (header f)) END_STREAM) fs = (is_first \<and> end_stream) # replicate n False)"

lemma fragment_frame_simps [simp]:
  "payload (fragment_frame fi i es eh d) = d" "fstream (header (fragment_frame fi i es eh d)) = i"
  "ftype (header (fragment_frame fi i es eh d)) = (if fi then FT_Headers else FT_Continuation)"
  "contains (fflags (header (fragment_frame fi i es eh d))) END_HEADERS = eh"
  "contains (fflags (header (fragment_frame fi i es eh d))) END_STREAM = (fi \<and> es)"
  by (simp_all add: fragment_frame_def headers_enc_def continuation_enc_def mk_frame_def flag_if_def
      contains_def END_HEADERS_def END_STREAM_def)

lemma put_frame_open: "writer_open s \<Longrightarrow> put_frame f s = (Ok (), s\<lparr>wire := wire s @ [f]\<rparr>)"
  by (simp add: put_frame_def)

lemma write_fragments_spec:
  "writer_open s \<Longrightarrow> \<exists>fs. write_fragments fi i es data s = (Ok (), s\<lparr>wire := wire s @ fs\<rparr>) \<and>
     fragmented fi i es data fs"
proof (induction fi i es data s rule: write_fragments.induct)
  case (1 fi i es data s)
  show ?case
  proof (cases "length data > FRAGMENT")
    case True
    let ?f = "fragment_frame fi i es False (take FRAGMENT data)"
    let ?s = "s\<lparr>wire := wire s @ [?f]\<rparr>"
    obtain fs where fs: "write_fragments False i es (drop FRAGMENT data) ?s = (Ok (), ?s\<lparr>wire := wire ?s @ fs\<rparr>)"
      "fragmented False i es (drop FRAGMENT data) fs"
      using 1 True by (fastforce simp: put_frame_open)
    from fs(2) have "fragmented fi i es data (?f # fs)"
      by (auto simp: fragmented_def FRAGMENT_def intro: exI [of _ "Suc n" for n])
    with fs(1) True 1(2) show ?thesis
      by (intro exI [of _ "?f # fs"]) (simp add: write_fragments.simps [of fi i es data s] put_frame_open)
  next
    case False
    with 1(2) show ?thesis
      by (intro exI [of _ "[fragment_frame fi i es True data]"])
        (simp add: write_fragments.simps [of fi i es data s] put_frame_open fragmented_def FRAGMENT_def)
  qed
qed

section \<open>The timers\<close>

text \<open>Instants in order, no two neighbours more than \<open>d\<close> apart.\<close>

fun spaced :: "nat \<Rightarrow> nat list \<Rightarrow> bool" where
  "spaced d (t # u # ts) \<longleftrightarrow> t \<le> u \<and> u \<le> t + d \<and> spaced d (u # ts)"
| "spaced d ts \<longleftrightarrow> True"

text \<open>The deadline of an unanswered PING is not reached at the next tick, since that tick moves it.\<close>

definition deadline_ahead :: "nat list \<Rightarrow> ('d, 'e, 'm, 'u, 'n, 'v) conn \<Rightarrow> bool" where
  "deadline_ahead ts s \<longleftrightarrow> (case ts of
     [] \<Rightarrow> True
   | t # _ \<Rightarrow> (case ping_ack_timeout s of None \<Rightarrow> True
       | Some p \<Rightarrow> t \<le> p \<and> last_frame_received s + h2_ping_interval (cfg s) < t))"

lemma on_tick_ping:
  assumes "writer_open s" "settings_ack_timeout s = None" "deadline_ahead (t # ts) s"
  shows "on_tick t s = (Ok Continue,
    if last_frame_received s + h2_ping_interval (cfg s) < t
    then s\<lparr>wire := wire s @ [ping_enc \<lparr>ping_ack = False, ping_data = h2_ping_payload (cfg s)\<rparr>],
           ping_ack_timeout := Some (t + h2_ping_timeout (cfg s))\<rparr>
    else s)"
  using assms
  by (auto simp: on_tick_def expired_def deadline_ahead_def put_frame_open split: option.splits)

lemma ticks_never_close:
  "writer_open s \<Longrightarrow> settings_ack_timeout s = None \<Longrightarrow> spaced (h2_ping_timeout (cfg s)) ts \<Longrightarrow>
   deadline_ahead ts s \<Longrightarrow>
   \<exists>s'. main_loop C decode encode (map On_Tick ts) s = (Ok Pending, s') \<and>
     wire s' = wire s @ replicate (length (filter (\<lambda>t. last_frame_received s + h2_ping_interval (cfg s) < t) ts))
       (ping_enc \<lparr>ping_ack = False, ping_data = h2_ping_payload (cfg s)\<rparr>)"
proof (induction ts arbitrary: s)
  case (Cons t ts)
  let ?late = "\<lambda>t. last_frame_received s + h2_ping_interval (cfg s) < t"
  let ?ping = "ping_enc \<lparr>ping_ack = False, ping_data = h2_ping_payload (cfg s)\<rparr>"
  let ?s = "if ?late t then s\<lparr>wire := wire s @ [?ping], ping_ack_timeout := Some (t + h2_ping_timeout (cfg s))\<rparr> else s"
  have spaced: "spaced (h2_ping_timeout (cfg s)) ts"
    using Cons.prems(3) by (cases ts) auto
  have "deadline_ahead ts ?s"
    using Cons.prems(3,4) by (cases ts) (auto simp: deadline_ahead_def split: option.splits)
  with Cons.prems(1,2) spaced obtain s' where s': "main_loop C decode encode (map On_Tick ts) ?s = (Ok Pending, s')"
    "wire s' = wire ?s @ replicate (length (filter ?late ts)) ?ping"
    using Cons.IH [of ?s] by (auto split: if_splits)
  have "on_event C decode encode (On_Tick t) s = (Ok (Ready Continue), ?s)"
    using on_tick_ping [OF Cons.prems(1,2,4)] by (simp add: on_event_def)
  with s' show ?case by (simp add: sbind_def)
qed simp

section \<open>Small facts the properties use\<close>

lemma update_windows_closed:
  "h \<in> set hs \<Longrightarrow> mail s (tx h) = None \<Longrightarrow> fst (update_windows n hs s) = Err (StreamErr StreamClosed)"
proof (induction hs arbitrary: s)
  case (Cons g hs)
  show ?case
  proof (cases "mail s (tx g)")
    case None
    then show ?thesis by (simp add: update_window_def send_stream_def sbind_def)
  next
    case (Some q)
    let ?s = "s\<lparr>mail := (mail s)(tx g := Some (q @ [WindowUpdate n]))\<rparr>"
    have "update_window n g s = (Ok (), ?s)"
      using Some by (simp add: update_window_def send_stream_def)
    moreover have "h \<in> set hs" "mail ?s (tx h) = None" using Cons.prems Some by auto
    then have "fst (update_windows n hs ?s) = Err (StreamErr StreamClosed)" by (rule Cons.IH)
    ultimately show ?thesis by simp
  qed
qed simp

section \<open>Properties\<close>

text \<open>A connection with one stream, 7, on channel 0, for the examples.\<close>

definition example_config :: h2_config where
  "example_config = \<lparr>h2_settings = settings_default, h2_settings_timeout = 5000, h2_ping_interval = 60000,
     h2_ping_timeout = 5000, h2_ping_payload = 42, h2_initial_global_window_size = 65535,
     request_header_buf_size = 4096\<rparr>"

definition example_conn ::
  "stream_req list option \<Rightarrow> (u32 \<times> int) list \<Rightarrow> (unit, unit, unit, unit, unit, unit) conn" where
  "example_conn m ps = (conn_new example_config () () [] 0)
     \<lparr>streams := [(7, \<lparr>tx = 0, closed = False\<rparr>)], mail := [0 \<mapsto> []](0 := m), next_chan := 1,
      biggest_open_stream := 7, open_streams := 1, pending_window_req := ps\<rparr>"

definition example_crate :: "(unit, unit, unit, unit) http_crate" where
  "example_crate = \<lparr>c_method = (\<lambda>_. Some ()), c_uri = (\<lambda>_. Some ()), c_name = (\<lambda>_. Some ()),
     c_value = (\<lambda>_. Some ()), c_is_connect = (\<lambda>_. False), c_get = (), c_root = ()\<rparr>"

lemmas example_defs = example_conn_def example_config_def conn_new_def

text \<open>
  C17. \<open>distribute_window\<close> succeeds while the streams listen, hands the window out in the order of
  the requests and to nobody else, takes exactly what it hands out from the connection window
  without going below zero, and stops only when the window or the queue is used up.
\<close>

theorem window_distributed_in_order:
  assumes "channels_open s" "i32_ok (global_window s)"
  shows "\<exists>s' gs. distribute_window s = (Ok (), s') \<and>
    global_window s' = global_window s - granted_total gs \<and> (\<forall>g\<in>set gs. 0 < snd g) \<and>
    mail s' = fold grant gs (mail s) \<and>
    serves gs (wanted (streams s) (pending_window_req s)) (wanted (streams s) (pending_window_req s')) \<and>
    (0 \<le> global_window s \<longrightarrow> 0 \<le> global_window s') \<and> (global_window s' \<le> 0 \<or> pending_window_req s' = [])"
proof -
  obtain s' gs where s': "distribute_window s = (Ok (), s')" "distributed gs s s'"
    "0 \<le> global_window s \<longrightarrow> 0 \<le> global_window s'" "global_window s' \<le> 0 \<or> pending_window_req s' = []"
    using distribute_window_spec [OF assms] by blast
  from s'(2) have eq: "s' = s\<lparr>mail := fold grant gs (mail s), global_window := global_window s - granted_total gs,
      pending_window_req := pending_window_req s'\<rparr>"
    by (simp add: distributed_def)
  have "global_window s' = global_window s - granted_total gs" "mail s' = fold grant gs (mail s)"
    by (subst eq, simp)+
  with s' show ?thesis unfolding distributed_def by blast
qed

theorem window_distributed_in_order_witness:
  "\<exists>s' gs. distribute_window (example_conn (Some []) [(9, 10), (7, 100000)]) = (Ok (), s') \<and>
    global_window s' = 65535 - granted_total gs \<and> mail s' = fold grant gs (mail (example_conn (Some []) []))"
  using window_distributed_in_order [of "example_conn (Some []) [(9, 10), (7, 100000)]"]
  by (fastforce simp: example_defs channels_open_def i32_ok_def i32_min_def i32_max_def)

text \<open>
  C18. A response is written as one HEADERS frame and as many CONTINUATION frames as it takes, all
  on its stream and none larger than the 16384 bytes every peer accepts; together they carry the
  encoded header list, END_HEADERS is on the last one only and END_STREAM as asked on the first.
\<close>

theorem response_fragments:
  assumes "writer_open s" "encode (header_encoder s) ((bytes_of '':status'', status) # headers) = (data, e)"
  shows "\<exists>fs. write_response encode (status, headers) i end_stream s =
      (Ok (), s\<lparr>header_encoder := e, wire := wire s @ fs\<rparr>) \<and> fragmented True i end_stream data fs"
  using assms write_fragments_spec [of "s\<lparr>header_encoder := e\<rparr>" True i end_stream data]
  by (auto simp: write_response_def)

theorem response_fragments_witness:
  "\<exists>fs. write_response (\<lambda>e _. (replicate 20000 1, e)) (bytes_of ''200'', []) 7 False (example_conn None []) =
      (Ok (), (example_conn None [])\<lparr>header_encoder := (), wire := fs\<rparr>) \<and>
    fragmented True 7 False (replicate 20000 1) fs"
  using response_fragments [of "example_conn None []" "\<lambda>e _. (replicate 20000 1, e)" "bytes_of ''200''" "[]"
      "replicate 20000 1" "()" 7 False]
  by (simp add: example_defs)

text \<open>
  C20. A peer that has gone silent is never noticed: as long as the timer ticks at least once
  within the ping timeout, every tick sends another PING and moves the deadline, so that the
  connection neither closes nor ends, however long the peer stays away.
\<close>

theorem silent_peer_never_noticed:
  assumes "writer_open s" "settings_ack_timeout s = None" "ping_ack_timeout s = None"
    and "spaced (h2_ping_timeout (cfg s)) ts"
  shows "\<exists>s'. main_loop C decode encode (map On_Tick ts) s = (Ok Pending, s') \<and>
    wire s' = wire s @ replicate (length (filter (\<lambda>t. last_frame_received s + h2_ping_interval (cfg s) < t) ts))
      (ping_enc \<lparr>ping_ack = False, ping_data = h2_ping_payload (cfg s)\<rparr>)"
proof -
  have "deadline_ahead ts s" using assms(3) by (cases ts) (simp_all add: deadline_ahead_def)
  with ticks_never_close assms show ?thesis by blast
qed

theorem silent_peer_never_noticed_witness:
  "\<exists>s'. main_loop example_crate (\<lambda>d _. (None, d)) (\<lambda>e _. ([], e)) (map On_Tick [59000, 61000, 62000, 67000]) (example_conn (Some []) []) =
      (Ok Pending, s') \<and>
    wire s' = replicate 3 (ping_enc \<lparr>ping_ack = False, ping_data = 42\<rparr>)"
  using silent_peer_never_noticed [of "example_conn (Some []) []" "[59000, 61000, 62000, 67000]" example_crate
      "\<lambda>d _. (None, d)" "\<lambda>e _. ([], e)"]
  by (simp add: example_defs numeral_3_eq_3)



text \<open>
  A refused stream (too many are open, or the connection shuts down) is answered with
  RST_STREAM and its header block is thrown away without the HPACK decoder having seen it: the
  decoder stays where it was, while the encoder of the peer has moved on.
\<close>

lemma refused_block_skips_hpack:
  assumes "refuses s" "writer_open s" "i \<noteq> 0" "map_of (streams s) i = None"
  shows "headers_complete C decode i es s =
    (Ok (), s\<lparr>header_buffer := buffer_reset (header_buffer s),
      wire := wire s @ [rst_stream_enc \<lparr>r_stream = i, r_error_code = Some RefusedStream\<rparr>]\<rparr>)"
  using assms by (simp add: headers_complete_def refuse_stream_def handle_possible_stream_error_def
      reset_stream_def put_frame_open)

text \<open>
  The trailers of a request reset it: a header block on a stream that is still there is always
  read as a new request, and since trailers have no pseudo headers the stream gets an
  RST_STREAM and its task a \<open>Reset\<close>.
\<close>

lemma trailers_reset_stream:
  assumes "map_of (streams s) i = Some h" "mail s (tx h) = Some q" "writer_open s" "i \<noteq> 0" "\<not> refuses s"
    and "buffer_inv (header_buffer s)" "decode (header_decoder s) (view (header_buffer s)) = (Some ((k, v) # rest), dec)"
    and "\<not> is_pseudo k"
  shows "\<exists>s'. headers_complete C decode i es s = (Ok (), s') \<and>
    wire s' = wire s @ [rst_stream_enc \<lparr>r_stream = i, r_error_code = Some ProtocolError\<rparr>] \<and>
    mail s' (tx h) = Some (q @ [Reset])"
proof -
  have "request_of C ((k, v) # rest) = Err (StreamErr ProtocolError)"
    using assms(8) by (simp add: request_of_eq well_formed_def mandatory_def)
  then have "read_request C decode s = (Err (StreamErr ProtocolError),
      s\<lparr>header_decoder := dec, header_buffer := buffer_reset (header_buffer s)\<rparr>)"
    using assms(6,7) by (simp add: read_request_def as_ref_view)
  with assms show ?thesis
    by (simp add: headers_complete_def handle_possible_stream_error_def reset_stream_def mark_closed_def
        send_stream_def put_frame_def)
qed



end
