(* ===== verification/H2_System.thy ===== *)
theory H2_System
  imports H2_Conn_Laws
begin

text \<open>
  The connection task and its stream tasks together: a step relation in which they take turns in
  any order, and the account of the connection-level window across all of them. A byte of window
  is in one of six places: on the wire as data, in the connection window, in the mail of a stream,
  in the hands of a stream, in a DATA frame that waits for the connection task, or in a request
  that gives it back.
\<close>

section \<open>The account of the connection\<close>

definition data_bytes :: "frame list \<Rightarrow> int" where
  "data_bytes fs = int (length (data_of (map CR_Frame fs)))"

fun grant_of :: "stream_req \<Rightarrow> int" where
  "grant_of (AvailableWindow n) = n"
| "grant_of _ = 0"

definition in_mail :: "stream_req list option \<Rightarrow> int" where
  "in_mail q = (case q of None \<Rightarrow> 0 | Some ms \<Rightarrow> sum_list (map grant_of ms))"

definition banked :: "('d, 'e, 'm, 'u, 'n, 'v) conn \<Rightarrow> int" where
  "banked s = (\<Sum>c<next_chan s. in_mail (mail s c))"

definition ledger :: "('d, 'e, 'm, 'u, 'n, 'v) conn \<Rightarrow> int" where
  "ledger s = data_bytes (wire s) + global_window s + banked s"

definition grants_ok :: "('d, 'e, 'm, 'u, 'n, 'v) conn \<Rightarrow> bool" where
  "grants_ok s \<longleftrightarrow> (\<forall>c q. mail s c = Some q \<longrightarrow> (\<forall>m\<in>set q. 0 \<le> grant_of m))"

text \<open>
  The connection is sound, it holds \<open>k\<close> in all, and since there were the tasks \<open>ts\<close> and \<open>n\<close>
  channels it has only started tasks on channels of their own, without window.
\<close>

definition fair :: "int \<Rightarrow> ('m, 'u, 'n, 'v) stream_task list \<Rightarrow> nat \<Rightarrow> ('d, 'e, 'm, 'u, 'n, 'v) conn \<Rightarrow> bool" where
  "fair k ts n s \<longleftrightarrow> conn_ok s \<and> 0 \<le> global_window s \<and> grants_ok s \<and> ledger s = k \<and> n \<le> next_chan s \<and>
     (\<exists>new. tasks s = ts @ new \<and>
       (\<forall>t\<in>set new. n \<le> t_chan t \<and> t_chan t < next_chan s \<and> available_window (t_stream t) = 0))"

lemma data_bytes_simps [simp]:
  "data_bytes [] = 0" "data_bytes (fs @ [f]) = data_bytes fs + int (length (frame_data (CR_Frame f)))"
  by (simp_all add: data_bytes_def)

lemma frame_data_control: "ftype (header f) \<noteq> FT_Data \<Longrightarrow> frame_data (CR_Frame f) = []"
  by (simp add: frame_data.simps)

lemma in_mail_simps [simp]:
  "in_mail None = 0" "in_mail (Some []) = 0" "in_mail (Some (q @ [m])) = in_mail (Some q) + grant_of m"
  "in_mail (Some (m # q)) = grant_of m + in_mail (Some q)"
  by (simp_all add: in_mail_def)

lemma sum_fun_upd:
  fixes g :: "'a \<Rightarrow> int"
  assumes "c < (k :: nat)"
  shows "(\<Sum>x<k. g ((m(c := v)) x)) = (\<Sum>x<k. g (m x)) - g (m c) + g v"
proof -
  have "(\<Sum>x<k. g ((m(c := v)) x)) = g v + (\<Sum>x\<in>{..<k} - {c}. g ((m(c := v)) x))"
    using assms by (subst sum.remove [of _ c]) auto
  also have "(\<Sum>x\<in>{..<k} - {c}. g ((m(c := v)) x)) = (\<Sum>x\<in>{..<k} - {c}. g (m x))"
    by (rule sum.cong) auto
  also have "\<dots> = (\<Sum>x<k. g (m x)) - g (m c)"
    using assms by (subst (2) sum.remove [of _ c]) auto
  finally show ?thesis by simp
qed

lemma mail_channel: "conn_ok s \<Longrightarrow> mail s c = Some q \<Longrightarrow> c < next_chan s"
  by (rule ccontr) (simp add: conn_ok_def)

lemma banked_mail:
  "c < next_chan s \<Longrightarrow> banked (s\<lparr>mail := (mail s)(c := v)\<rparr>) = banked s - in_mail (mail s c) + in_mail v"
  using sum_fun_upd [of c "next_chan s" in_mail "mail s" v] by (simp add: banked_def)

lemma is_grant_grant_of: "\<not> is_grant m \<Longrightarrow> grant_of m = 0"
  by (cases m) simp_all

lemma fair_other [simp]:
  "fair k ts n (s\<lparr>pending_window_req := ps\<rparr>) = fair k ts n s" "fair k ts n (s\<lparr>header_encoder := e\<rparr>) = fair k ts n s"
  "fair k ts n (s\<lparr>header_decoder := d\<rparr>) = fair k ts n s" "fair k ts n (s\<lparr>last_frame_received := now\<rparr>) = fair k ts n s"
  "fair k ts n (s\<lparr>settings_ack_timeout := lim\<rparr>) = fair k ts n s" "fair k ts n (s\<lparr>ping_ack_timeout := lim\<rparr>) = fair k ts n s"
  "fair k ts n (s\<lparr>open_streams := i\<rparr>) = fair k ts n s" "fair k ts n (s\<lparr>biggest_open_stream := i\<rparr>) = fair k ts n s"
  "fair k ts n (s\<lparr>pending_gracefull_shutdown := sd\<rparr>) = fair k ts n s"
  by (simp_all add: fair_def grants_ok_def ledger_def banked_def)

lemma fair_ok: "fair k ts n s \<Longrightarrow> conn_ok s"
  by (simp add: fair_def)

text \<open>A change that leaves the account and the tasks alone.\<close>

lemma fair_cong:
  "fair k ts n s \<Longrightarrow> conn_ok t \<Longrightarrow> wire t = wire s \<Longrightarrow> global_window t = global_window s \<Longrightarrow> mail t = mail s \<Longrightarrow>
   next_chan t = next_chan s \<Longrightarrow> tasks t = tasks s \<Longrightarrow> fair k ts n t"
  by (simp add: fair_def grants_ok_def ledger_def banked_def)

lemma fair_mail:
  assumes "fair k ts n s" "mail s c = Some q" "0 \<le> grant_of m" "conn_ok t" "0 \<le> global_window t"
    and "t = s\<lparr>mail := (mail s)(c := Some (q @ [m])), global_window := global_window s - grant_of m\<rparr>"
  shows "fair k ts n t"
proof -
  have "c < next_chan s" using assms(1,2) by (auto simp: fair_def intro: mail_channel)
  from banked_mail [OF this, of "Some (q @ [m])"] assms(2)
  have "banked (s\<lparr>mail := (mail s)(c := Some (q @ [m]))\<rparr>) = banked s + grant_of m" by simp
  then have "ledger t = ledger s" using assms(6) by (simp add: ledger_def banked_def)
  moreover have "grants_ok t"
    using assms(1,2,3,6) by (auto simp: fair_def grants_ok_def)
  ultimately show ?thesis using assms(1,4-6) by (auto simp: fair_def)
qed

lemma fair_spawn:
  assumes "fair k ts n s" "t_chan task = next_chan s" "available_window (t_stream task) = 0"
  shows "fair k ts n (s\<lparr>next_chan := next_chan s + 1, mail := (mail s)(next_chan s := Some []), tasks := tasks s @ [task]\<rparr>)"
    (is "fair k ts n ?t")
proof -
  have "mail s (next_chan s) = None" using assms(1) by (simp add: fair_def conn_ok_def)
  then have "banked ?t = banked s" by (simp add: banked_def)
  moreover have "conn_ok ?t" using assms(1) by (intro ok.spawned assms(2,3)) (simp add: fair_def)
  ultimately show ?thesis
    using assms by (auto simp: fair_def ledger_def grants_ok_def less_Suc_eq)
qed

interpretation fair: conn_law "fair k ts n" for k ts n
proof (unfold_locales, goal_cases)
  case 1 then show ?case by (simp add: fair_def)
next
  case (11 s f)
  then show ?case
    using ok.written [of s f] by (auto simp: fair_def grants_ok_def ledger_def banked_def frame_data_control)
next
  case (12 s c q m)
  then have "conn_ok (s\<lparr>mail := (mail s)(c := Some (q @ [m]))\<rparr>)" "0 \<le> global_window s"
    by (simp_all add: fair_def ok.told)
  with fair_mail [OF 12(1,2), of m "s\<lparr>mail := (mail s)(c := Some (q @ [m]))\<rparr>"] 12(3)
  show ?case by (simp add: is_grant_grant_of)
next
  case (13 s c q m)
  then have "conn_ok (s\<lparr>mail := (mail s)(c := Some (q @ [AvailableWindow m])), global_window := global_window s - m\<rparr>)"
    by (intro ok.granted) (simp_all add: fair_def)
  with fair_mail [OF 13(1,2), of "AvailableWindow m"] 13(3,4) show ?case by simp
next
  case (20 s task)
  then show ?case by (rule fair_spawn)
qed ((simp; fail) | (rule fair_cong, assumption,
     auto intro: ok.debited ok.handled ok.forgotten ok.collected ok.configured ok.arrived dest: fair_ok))+

text \<open>What a received frame adds to the connection window: a WINDOW_UPDATE on stream 0.\<close>

definition received_credit :: "conn_event \<Rightarrow> ('d, 'e, 'm, 'u, 'n, 'v) conn \<Rightarrow> int" where
  "received_credit ev s = (case ev of
     On_Frame _ \<Rightarrow> (case incoming s of
         Ok f # _ \<Rightarrow> (case dispatch f of
             Ok (R_WindowUpdate w) \<Rightarrow> if w_stream w = 0 then uint (window_size_increment w) else 0
           | _ \<Rightarrow> 0)
       | _ \<Rightarrow> 0)
   | _ \<Rightarrow> 0)"

text \<open>What a message of a stream holds of the connection window.\<close>

fun queued :: "conn_req \<Rightarrow> int" where
  "queued (CR_Frame f) = int (length (frame_data (CR_Frame f)))"
| "queued (CR_PutWindow n) = n"
| "queued _ = 0"

lemma fair_raise:
  assumes "fair k ts n s" "0 \<le> a" "update_global_window a s = (Ok u, t)"
  shows "fair (k + a) ts n t"
proof -
  have "conn_ok t"
    using upholdsD(2) [OF update_global_window_ok fair_ok [OF assms(1)], of a] assms(3) by simp
  moreover have "t = s\<lparr>global_window := global_window s + a\<rparr>"
    using assms(3) by (auto simp: update_global_window_def split: option.splits)
  ultimately show ?thesis
    using assms(1,2) by (auto simp: fair_def ledger_def grants_ok_def banked_def)
qed

lemma fair_raise_distribute:
  assumes "fair k ts n s" "0 \<le> a" "sbind (update_global_window a) (\<lambda>_. distribute_window) s = (Ok u, t)"
  shows "fair (k + a) ts n t"
proof -
  obtain t1 where t1: "update_global_window a s = (Ok (), t1)" "distribute_window t1 = (Ok u, t)"
    using assms(3) by (auto simp: sbind_def split: prod.splits outcome.splits)
  with fair_raise [OF assms(1,2)] have "fair (k + a) ts n t1" by blast
  with t1(2) upholdsD(2) [OF fair.distribute_window_ok] show ?thesis by (metis snd_conv)
qed

lemma fair_event:
  assumes "fair k ts n s" "on_event C decode encode ev s = (Ok x, t)" "\<forall>req. ev \<noteq> On_Req req"
  shows "fair (k + received_credit ev s) ts n t"
proof (cases "\<exists>now f rs w. ev = On_Frame now \<and> incoming s = Ok f # rs \<and> dispatch f = Ok (R_WindowUpdate w) \<and> w_stream w = 0")
  case True
  then obtain now f rs w where f: "ev = On_Frame now" "incoming s = Ok f # rs" "dispatch f = Ok (R_WindowUpdate w)"
    "w_stream w = 0" by blast
  let ?s = "s\<lparr>incoming := rs, last_frame_received := now\<rparr>"
  have "fair k ts n (s\<lparr>incoming := rs\<rparr>)"
    using assms(1) f(2) by (intro fair.arrived) auto
  then have s: "fair k ts n ?s" by (simp add: fair_def grants_ok_def ledger_def banked_def)
  have "sbind (update_global_window (uint (window_size_increment w))) (\<lambda>_. distribute_window) ?s = (Ok (), t)"
    using assms(2) f by (auto simp: on_event_def on_frame_def on_window_update_def sbind_def
        split: prod.splits outcome.splits option.splits)
  from fair_raise_distribute [OF s _ this] f show ?thesis by (simp add: received_credit_def)
next
  case False
  have "fair k ts n (snd (on_event C decode encode ev s))"
    using assms(1,3) False by (intro fair.on_event_with [THEN conjunct2] fair.on_window_update_stream) auto
  moreover have "received_credit ev s = 0"
    using False by (auto simp: received_credit_def split: conn_event.splits list.splits outcome.splits received.splits)
  ultimately show ?thesis using assms(2) by simp
qed

lemma fair_request:
  assumes "fair k ts n s" "on_event C decode encode (On_Req req) s = (Ok x, t)" "\<forall>a. req = CR_PutWindow a \<longrightarrow> 0 \<le> a"
  shows "fair (k + queued req) ts n t"
proof -
  obtain fl where req: "on_conn_req encode req s = (Ok fl, t)"
    using assms(2) by (auto simp: on_event_def sbind_def split: prod.splits outcome.splits)
  show ?thesis
  proof (cases "(\<exists>f. req = CR_Frame f) \<or> (\<exists>a. req = CR_PutWindow a)")
    case True
    then show ?thesis
    proof (elim disjE exE)
      fix f assume f: "req = CR_Frame f"
      then have t: "t = s\<lparr>wire := wire s @ [f]\<rparr>"
        using req by (auto simp: on_conn_req_def put_frame_def sbind_def split: if_splits)
      have "conn_ok t" using assms(1) t by (simp add: fair_def conn_ok_def)
      with assms(1) f t show ?thesis by (auto simp: fair_def grants_ok_def ledger_def banked_def)
    next
      fix a assume a: "req = CR_PutWindow a"
      then have "sbind (update_global_window a) (\<lambda>_. distribute_window) s = (Ok (), t)"
        using req by (auto simp: on_conn_req_def Let_def sbind_def [of _ "\<lambda>_. sret Continue"] split: prod.splits outcome.splits)
      from fair_raise_distribute [OF assms(1) _ this] a assms(3) show ?thesis by simp
    qed
  next
    case False
    then have "fair k ts n (snd (on_conn_req encode req s))"
      using upholdsD(2) [OF fair.on_conn_req_other assms(1)] by blast
    with req False show ?thesis by (cases req) auto
  qed
qed

section \<open>The tasks\<close>

text \<open>
  One step of a stream task that does not end it, with the message it takes from its mail, if any:
  \<open>main_select\<close>, an iteration of \<open>send_body\<close>, the head of the response, the body channel, the end of
  the body, what the handler does with the channel (it takes chunks or drops its end). The relation allows these in every order.
\<close>

inductive task_step :: "stream_req option \<Rightarrow> stream \<Rightarrow> stream \<Rightarrow> bool" where
  takes: "main_select (Ev_Req (Some m)) s = (Ok (), s') \<Longrightarrow> task_step (Some m) s s'"
| consumed: "main_select (Ev_Window w) s = (Ok (), s') \<Longrightarrow> task_step None s s'"
| opens: "task_step None s (open_body es bt s)"
| responds: "send_conn e (CR_Response r (s_id s) es) s = (Ok (), s') \<Longrightarrow> task_step None s s'"
| sends: "body_step needed (s, b) = (Ok st, (s', b')) \<Longrightarrow> buffer_inv b \<Longrightarrow> task_step None s s'"
| finishes: "end_of_body s = (Ok (), s') \<Longrightarrow> task_step None s s'"
| handled: "task_step None s (s\<lparr>body_queue := q, body_open := opened\<rparr>)"

definition new_messages :: "stream \<Rightarrow> stream \<Rightarrow> conn_req list" where
  "new_messages s s' = drop (length (sent s)) (sent s')"

definition taken :: "stream_req option \<Rightarrow> int" where
  "taken m = (case m of None \<Rightarrow> 0 | Some r \<Rightarrow> grant_of r)"

fun no_put :: "conn_req \<Rightarrow> bool" where
  "no_put (CR_PutWindow n) = False"
| "no_put _ = True"

text \<open>What a step puts out and keeps is what it had and took.\<close>

definition accounts :: "stream_req option \<Rightarrow> stream \<Rightarrow> stream \<Rightarrow> bool" where
  "accounts m s s' \<longleftrightarrow> list_all no_put (new_messages s s') \<and>
     available_window s' + sum_list (map queued (new_messages s s')) = available_window s + taken m \<and>
     (0 \<le> available_window s \<longrightarrow> 0 \<le> taken m \<longrightarrow> 0 \<le> available_window s')"

lemma queued_data: "list_all no_put ms \<Longrightarrow> sum_list (map queued ms) = int (length (data_of ms))"
proof (induction ms)
  case (Cons m ms)
  then show ?case by (cases m) (simp_all add: data_of_def)
qed simp

text \<open>The responses among the messages of a stream.\<close>

fun is_response :: "conn_req \<Rightarrow> bool" where
  "is_response (CR_Response r i es) = True"
| "is_response _ = False"

definition responses :: "conn_req list \<Rightarrow> conn_req list" where
  "responses ms = filter is_response ms"

lemma responses_simps [simp]: "responses [] = []" "responses (ms @ ns) = responses ms @ responses ns"
  "responses (m # ms) = (if is_response m then m # responses ms else responses ms)"
  by (simp_all add: responses_def)

lemma body_step_messages:
  assumes "body_step needed (s, b) = (Ok st, (s', b'))"
  shows "list_all no_put (new_messages s s') \<and> responses (new_messages s s') = []"
proof -
  have req: "\<exists>ms. sent s1 = sent s @ ms \<and> list_all no_put ms \<and> responses ms = []" if "request_window needed s = (Ok n, s1)" for n s1
    using that by (auto simp: request_window_def send_conn_def sbind_def Let_def split: if_splits)
  have snd: "\<exists>ms. sent s2 = sent s1 @ ms \<and> list_all no_put ms \<and> responses ms = []" if "send_available (s1, b) = (Ok (), (s2, b2))" for s1 s2 b2
    using that by (auto simp: send_available_def send_conn_def Let_def split: outcome.splits option.splits if_splits)
  show ?thesis
  proof (cases "available_for_read b = 0")
    case True
    with assms show ?thesis by (simp add: body_step_def new_messages_def)
  next
    case False
    with assms obtain n s1 where r: "request_window needed s = (Ok n, s1)"
      by (auto simp: body_step_def split: prod.splits outcome.splits)
    from req [OF this] obtain ms where ms: "sent s1 = sent s @ ms" "list_all no_put ms" "responses ms = []" by blast
    show ?thesis
    proof (cases "available_window s1 > 0")
      case True
      then have "send_available (s1, b) = (Ok (), (s', b'))"
        using assms False r by (auto simp: body_step_def sbind_def split: prod.splits outcome.splits)
      from snd [OF this] ms show ?thesis by (auto simp: new_messages_def)
    next
      case no: False
      with assms False r ms show ?thesis by (simp add: body_step_def new_messages_def)
    qed
  qed
qed

lemma task_step_accounts: "task_step m s s' \<Longrightarrow> accounts m s s'"
proof (induction rule: task_step.induct)
  case (takes m s s')
  then show ?case
    by (cases m) (auto simp: accounts_def new_messages_def taken_def main_select_def handle_req_def receive_body_def
        send_conn_def Let_def split: option.splits if_splits)
next
  case (consumed w s s')
  then show ?case
    by (auto simp: accounts_def new_messages_def taken_def main_select_def send_conn_def split: option.splits if_splits)
next
  case (opens s es bt)
  then show ?case
    by (auto simp: accounts_def new_messages_def taken_def open_body_def split: body_type.splits)
next
  case (responds e r s es s')
  then show ?case
    by (auto simp: accounts_def new_messages_def taken_def send_conn_def split: if_splits)
next
  case (sends needed s b st s' b')
  from body_step_sends [OF sends] obtain ms where ms: "pays s s' ms"
    by (auto simp: H2_Stream.sends_def intro: pays_refl)
  then have "new_messages s s' = ms" by (simp add: pays_def new_messages_def)
  with ms body_step_messages [OF sends(1)] show ?case
    by (auto simp: accounts_def queued_data taken_def pays_def)
next
  case (finishes s s')
  then show ?case
    by (auto simp: accounts_def new_messages_def taken_def end_of_body_def send_conn_def
        split: if_splits)
next
  case (handled s q opened)
  then show ?case by (simp add: accounts_def new_messages_def taken_def)
qed

lemma run_inner_end_messages:
  assumes "0 \<le> available_window s"
  shows "(\<forall>n. CR_PutWindow n \<in> set (new_messages s (run_inner_end r s)) \<longrightarrow> 0 \<le> n) \<and>
    sum_list (map queued (new_messages s (run_inner_end r s))) \<le> available_window s"
  using assms by (auto simp: run_inner_end_def new_messages_def send_conn_def Let_def sbind_def)

section \<open>The system\<close>

text \<open>
  The connection, the running tasks by their channel, the messages that wait for the connection,
  and, as a ghost, the window the peer has given so far by WINDOW_UPDATE on stream 0.
\<close>

record ('d, 'e, 'm, 'u, 'n, 'v) sys =
  conn_of :: "('d, 'e, 'm, 'u, 'n, 'v) conn"
  running :: "nat \<Rightarrow> stream option"
  waiting :: "conn_req list"
  credit :: int

fun start :: "('m, 'u, 'n, 'v) stream_task list \<Rightarrow> (nat \<Rightarrow> stream option) \<Rightarrow> (nat \<Rightarrow> stream option)" where
  "start [] run = run"
| "start (t # ts) run = start ts (run(t_chan t := Some (t_stream t)))"

text \<open>The end of a task: its last messages are sent, and its channel is gone with what was in it.\<close>

definition stopped ::
  "unit h2 \<Rightarrow> nat \<Rightarrow> stream \<Rightarrow> ('d, 'e, 'm, 'u, 'n, 'v) sys \<Rightarrow> ('d, 'e, 'm, 'u, 'n, 'v) sys" where
  "stopped r i s S = S\<lparr>conn_of := (conn_of S)\<lparr>mail := (mail (conn_of S))(i := None)\<rparr>,
     running := (running S)(i := None), waiting := waiting S @ new_messages s (run_inner_end r s)\<rparr>"

inductive sys_step ::
  "('m, 'u, 'n, 'v) http_crate \<Rightarrow> 'd hpack_decode \<Rightarrow> 'e hpack_encode
    \<Rightarrow> ('d, 'e, 'm, 'u, 'n, 'v) sys \<Rightarrow> ('d, 'e, 'm, 'u, 'n, 'v) sys \<Rightarrow> bool"
  for C decode encode where
  event: "on_event C decode encode ev (conn_of S) = (Ok x, c) \<Longrightarrow> \<forall>req. ev \<noteq> On_Req req \<Longrightarrow>
    sys_step C decode encode S (S\<lparr>conn_of := c,
      running := start (drop (length (tasks (conn_of S))) (tasks c)) (running S),
      credit := credit S + received_credit ev (conn_of S)\<rparr>)"
| request: "waiting S = req # rest \<Longrightarrow> on_event C decode encode (On_Req req) (conn_of S) = (Ok x, c) \<Longrightarrow>
    sys_step C decode encode S (S\<lparr>conn_of := c, waiting := rest\<rparr>)"
| works: "running S i = Some s \<Longrightarrow> task_step None s s' \<Longrightarrow>
    sys_step C decode encode S (S\<lparr>running := (running S)(i := Some s'), waiting := waiting S @ new_messages s s'\<rparr>)"
| reads: "running S i = Some s \<Longrightarrow> mail (conn_of S) i = Some (m # ms) \<Longrightarrow> task_step (Some m) s s' \<Longrightarrow>
    sys_step C decode encode S (S\<lparr>conn_of := (conn_of S)\<lparr>mail := (mail (conn_of S))(i := Some ms)\<rparr>,
      running := (running S)(i := Some s'), waiting := waiting S @ new_messages s s'\<rparr>)"
| ends: "running S i = Some s \<Longrightarrow>
    sys_step C decode encode S (stopped r i s S)"

definition hold :: "stream option \<Rightarrow> int" where
  "hold x = (case x of None \<Rightarrow> 0 | Some s \<Rightarrow> available_window s)"

definition held :: "('d, 'e, 'm, 'u, 'n, 'v) sys \<Rightarrow> int" where
  "held S = (\<Sum>i<next_chan (conn_of S). hold (running S i))"

definition account :: "('d, 'e, 'm, 'u, 'n, 'v) sys \<Rightarrow> int" where
  "account S = ledger (conn_of S) + held S + sum_list (map queued (waiting S))"

definition sys_ok :: "('d, 'e, 'm, 'u, 'n, 'v) sys \<Rightarrow> bool" where
  "sys_ok S \<longleftrightarrow> conn_ok (conn_of S) \<and> 0 \<le> global_window (conn_of S) \<and> grants_ok (conn_of S) \<and>
     (\<forall>i s. running S i = Some s \<longrightarrow> i < next_chan (conn_of S) \<and> 0 \<le> available_window s) \<and>
     (\<forall>n. CR_PutWindow n \<in> set (waiting S) \<longrightarrow> 0 \<le> n) \<and> account S \<le> 65535 + credit S"

lemma hold_simps [simp]: "hold None = 0" "hold (Some s) = available_window s"
  by (simp_all add: hold_def)

lemma start_holds:
  "\<forall>t\<in>set ts. hold (run (t_chan t)) = 0 \<and> available_window (t_stream t) = 0 \<Longrightarrow> hold (start ts run i) = hold (run i)"
  by (induction ts arbitrary: run) auto

lemma start_cases:
  "start ts run i = Some s \<Longrightarrow> run i = Some s \<or> (\<exists>t\<in>set ts. t_chan t = i \<and> t_stream t = s)"
  by (induction ts arbitrary: run) (fastforce split: if_splits)+

lemma fair_now: "sys_ok S \<Longrightarrow> fair (ledger (conn_of S)) (tasks (conn_of S)) (next_chan (conn_of S)) (conn_of S)"
  by (simp add: sys_ok_def fair_def)

lemma held_running:
  assumes "i < next_chan (conn_of S)"
  shows "(\<Sum>j<next_chan (conn_of S). hold (((running S)(i := v)) j)) = held S - hold (running S i) + hold v"
  using sum_fun_upd [OF assms, of hold "running S" v] by (simp add: held_def)

lemma no_put_positive: "list_all no_put ms \<Longrightarrow> CR_PutWindow n \<notin> set ms"
  by (induction ms) auto

lemma account_taken:
  assumes "sys_ok S" "i < next_chan (conn_of S)"
  shows "ledger ((conn_of S)\<lparr>mail := (mail (conn_of S))(i := v)\<rparr>) =
    ledger (conn_of S) - in_mail (mail (conn_of S) i) + in_mail v"
  using banked_mail [OF assms(2), of v] by (simp add: ledger_def)

lemma conn_ok_mail: "conn_ok s \<Longrightarrow> i < next_chan s \<Longrightarrow> conn_ok (s\<lparr>mail := (mail s)(i := v)\<rparr>)"
  by (auto simp: conn_ok_def)

lemma banked_nonneg: "grants_ok s \<Longrightarrow> 0 \<le> banked s"
  unfolding banked_def
  by (rule sum_nonneg) (auto simp: grants_ok_def in_mail_def intro!: sum_list_nonneg split: option.split)

lemma not_running: "sys_ok S \<Longrightarrow> next_chan (conn_of S) \<le> i \<Longrightarrow> running S i = None"
  by (cases "running S i") (fastforce simp: sys_ok_def)+

text \<open>One step of the system keeps its invariant.\<close>

lemma event_keeps:
  assumes S: "sys_ok S" and ev: "on_event C decode encode ev (conn_of S) = (Ok x, c)" "\<forall>req. ev \<noteq> On_Req req"
  shows "sys_ok (S\<lparr>conn_of := c, running := start (drop (length (tasks (conn_of S))) (tasks c)) (running S),
      credit := credit S + received_credit ev (conn_of S)\<rparr>)" (is "sys_ok ?S")
proof -
  let ?n = "next_chan (conn_of S)" and ?new = "drop (length (tasks (conn_of S))) (tasks c)"
  have c: "fair (ledger (conn_of S) + received_credit ev (conn_of S)) (tasks (conn_of S)) ?n c"
    using fair_event [OF fair_now [OF S] ev] .
  then have new: "\<forall>t\<in>set ?new. ?n \<le> t_chan t \<and> t_chan t < next_chan c \<and> available_window (t_stream t) = 0"
    by (auto simp: fair_def)
  have old: "running S i = None" if "?n \<le> i" for i
    using not_running [OF S that] .
  have holds: "hold (start ?new (running S) i) = hold (running S i)" for i
    using new old by (intro start_holds) auto
  have "held ?S = (\<Sum>i<next_chan c. hold (running S i))"
    by (simp add: held_def holds)
  also have "\<dots> = held S"
    unfolding held_def using c old by (intro sum.mono_neutral_right) (auto simp: fair_def not_less)
  finally have "account ?S = account S + received_credit ev (conn_of S)"
    using c by (simp add: account_def fair_def)
  moreover have "i < next_chan c \<and> 0 \<le> available_window s" if "start ?new (running S) i = Some s" for i s
    using start_cases [OF that] S c new by (auto simp: sys_ok_def fair_def intro: less_le_trans)
  ultimately show ?thesis
    using S c by (simp add: sys_ok_def fair_def)
qed

lemma request_keeps:
  assumes S: "sys_ok S" and req: "waiting S = req # rest" "on_event C decode encode (On_Req req) (conn_of S) = (Ok x, c)"
  shows "sys_ok (S\<lparr>conn_of := c, waiting := rest\<rparr>)" (is "sys_ok ?S")
proof -
  let ?n = "next_chan (conn_of S)"
  have c: "fair (ledger (conn_of S) + queued req) (tasks (conn_of S)) ?n c"
    using S req(1) by (intro fair_request [OF fair_now [OF S] req(2)]) (auto simp: sys_ok_def)
  have old: "running S i = None" if "?n \<le> i" for i
    using not_running [OF S that] .
  have "held ?S = held S"
    unfolding held_def using c old by (simp, intro sum.mono_neutral_right) (auto simp: fair_def not_less)
  then have "account ?S = account S"
    using c req(1) by (simp add: account_def fair_def)
  then show ?thesis
    using S c req(1) by (fastforce simp: sys_ok_def fair_def)
qed

lemma task_keeps:
  assumes S: "sys_ok S" and i: "running S i = Some s" and acc: "accounts m s s'"
    and c: "conn_ok c" "global_window c = global_window (conn_of S)" "grants_ok c" "next_chan c = next_chan (conn_of S)"
      "ledger c = ledger (conn_of S) - taken m" "0 \<le> taken m"
  shows "sys_ok (S\<lparr>conn_of := c, running := (running S)(i := Some s'), waiting := waiting S @ new_messages s s'\<rparr>)"
    (is "sys_ok ?S")
proof -
  have "i < next_chan (conn_of S)" "0 \<le> available_window s" using S i by (auto simp: sys_ok_def)
  then have "held ?S = held S - available_window s + available_window s'"
    using held_running [of i S "Some s'"] i by (simp add: held_def c(4))
  then have "account ?S = account S"
    using acc c(5) by (simp add: account_def accounts_def)
  with S c acc \<open>0 \<le> available_window s\<close> \<open>i < next_chan (conn_of S)\<close> show ?thesis
    by (auto simp: sys_ok_def accounts_def dest: no_put_positive)
qed

lemma task_end_keeps:
  assumes S: "sys_ok S" and i: "running S i = Some s"
  shows "sys_ok (stopped r i s S)" (is "sys_ok ?S")
proof -
  have i': "i < next_chan (conn_of S)" "0 \<le> available_window s" using S i by (auto simp: sys_ok_def)
  have "0 \<le> in_mail (mail (conn_of S) i)"
    using S by (auto simp: sys_ok_def grants_ok_def in_mail_def intro!: sum_list_nonneg split: option.split)
  then have "ledger (conn_of ?S) \<le> ledger (conn_of S)"
    using account_taken [OF S i'(1), of None] by (simp add: stopped_def)
  moreover have "held ?S = held S - available_window s"
    using held_running [OF i'(1), of None] i by (simp add: held_def stopped_def)
  ultimately have "account ?S \<le> account S"
    using run_inner_end_messages [OF i'(2), of r] by (simp add: account_def stopped_def)
  moreover have "conn_ok (conn_of ?S)" "grants_ok (conn_of ?S)"
    using S i' by (auto simp: stopped_def sys_ok_def grants_ok_def intro: conn_ok_mail)
  ultimately show ?thesis
    using S run_inner_end_messages [OF i'(2), of r] by (auto simp: stopped_def sys_ok_def)
qed

lemma sys_step_keeps: "sys_step C decode encode S S' \<Longrightarrow> sys_ok S \<Longrightarrow> sys_ok S'"
proof (induction rule: sys_step.induct)
  case (event ev S x c)
  then show ?case by (intro event_keeps)
next
  case (request S req rest x c)
  then show ?case by (intro request_keeps)
next
  case (works S i s s')
  then show ?case
    using task_keeps [of S i s None s' "conn_of S"] task_step_accounts [of None s s']
    by (simp add: sys_ok_def taken_def)
next
  case (reads S i s m ms s')
  let ?c = "(conn_of S)\<lparr>mail := (mail (conn_of S))(i := Some ms)\<rparr>"
  have i: "i < next_chan (conn_of S)" using reads by (auto simp: sys_ok_def)
  have "0 \<le> grant_of m" using reads by (auto simp: sys_ok_def grants_ok_def)
  moreover have "ledger ?c = ledger (conn_of S) - grant_of m"
    using account_taken [OF \<open>sys_ok S\<close> i, of "Some ms"] reads(2) by simp
  moreover have "conn_ok ?c" "grants_ok ?c"
    using reads i by (auto simp: sys_ok_def grants_ok_def intro: conn_ok_mail)
  ultimately show ?case
    using task_keeps [of S i s "Some m" s' ?c] task_step_accounts [of "Some m" s s'] reads by (simp add: taken_def)
next
  case (ends S i s r)
  then show ?case by (intro task_end_keeps)
qed

lemma sys_steps_keep: "(sys_step C decode encode)\<^sup>*\<^sup>* S S' \<Longrightarrow> sys_ok S \<Longrightarrow> sys_ok S'"
  by (induction rule: rtranclp_induct) (auto intro: sys_step_keeps)

definition sys_start :: "('d, 'e, 'm, 'u, 'n, 'v) conn \<Rightarrow> ('d, 'e, 'm, 'u, 'n, 'v) sys" where
  "sys_start c = \<lparr>conn_of = c, running = (\<lambda>_. None), waiting = [], credit = 0\<rparr>"

lemma sys_start_ok:
  assumes "Panic \<notin> set reads" "\<forall>f. Ok f \<in> set reads \<longrightarrow> arrives f" "i32_ok (h2_initial_global_window_size c)"
    and "handshake preface now (conn_new c d e reads t) = (True, s)"
  shows "sys_ok (sys_start s)"
proof -
  obtain w a where s: "s = (conn_new c d e reads t)\<lparr>peer_window := h2_initial_global_window_size c, wire := w,
      settings_ack_timeout := a\<rparr>" "\<forall>f\<in>set w. ftype (header f) \<noteq> FT_Data" "conn_ok s"
    using handshake_spec [OF assms] by blast
  have "data_bytes w = 0"
    using s(2) by (induction w rule: rev_induct) (simp_all add: frame_data_control)
  then show ?thesis
    using s(1,3) by (simp add: sys_ok_def sys_start_def account_def ledger_def banked_def held_def conn_new_def
        grants_ok_def)
qed

section \<open>Properties\<close>

text \<open>
  C9. Flow control of the connection as a whole: whatever the peer sends and in whatever order the
  connection and the tasks of its streams run, the data on the wire never exceeds the initial
  65535 bytes plus what the peer has granted by WINDOW_UPDATE on stream 0.
\<close>

theorem data_within_connection_window:
  assumes "Panic \<notin> set reads" "\<forall>f. Ok f \<in> set reads \<longrightarrow> arrives f" "i32_ok (h2_initial_global_window_size c)"
    and "handshake preface now (conn_new c d e reads t) = (True, s)"
    and "(sys_step C decode encode)\<^sup>*\<^sup>* (sys_start s) S"
  shows "data_bytes (wire (conn_of S)) \<le> 65535 + credit S"
proof -
  have S: "sys_ok S"
    using sys_steps_keep [OF assms(5)] sys_start_ok [OF assms(1-4)] .
  have "0 \<le> held S"
    unfolding held_def using S by (intro sum_nonneg) (auto simp: sys_ok_def hold_def split: option.split)
  moreover have "0 \<le> sum_list (map queued (waiting S))"
  proof (rule sum_list_nonneg)
    fix q assume "q \<in> set (map queued (waiting S))"
    then obtain m where "m \<in> set (waiting S)" "q = queued m" by auto
    with S show "0 \<le> q" by (cases m) (auto simp: sys_ok_def)
  qed
  ultimately show ?thesis
    using S banked_nonneg [of "conn_of S"] by (simp add: sys_ok_def account_def ledger_def)
qed

lemma example_update_arrives: "arrives (mk_frame FT_WindowUpdate 0 0 [0, 0, 0, 1])"
  unfolding arrives_def
  by (intro conjI exI [of _ "\<lparr>raw_length = 4, raw_type = 8, raw_flags = 0, raw_stream = 0\<rparr>"] exI [of _ "[0, 0, 0, 1]"])
    (simp_all add: announced_def mk_frame_def frame_from_header_and_payload_def header_checks from_bits_truncate_def)

theorem data_within_connection_window_witness:
  "\<exists>S. (sys_step example_crate (\<lambda>d _. (None, d)) (\<lambda>e _. ([], e)))\<^sup>*\<^sup>* (sys_start (snd (handshake (Ok ()) 1
      (conn_new example_config () () [Ok (mk_frame FT_WindowUpdate 0 0 [0, 0, 0, 1])] 0)))) S \<and>
    credit S = 1 \<and> data_bytes (wire (conn_of S)) \<le> 65536"
proof -
  let ?f = "mk_frame FT_WindowUpdate 0 0 [0, 0, 0, 1]"
  let ?step = "sys_step example_crate (\<lambda>d _. (None, d)) (\<lambda>e _. ([], e)) :: (unit, unit, unit, unit, unit, unit) sys \<Rightarrow> _"
  obtain s where s: "handshake (Ok ()) 1 (conn_new example_config () () [Ok ?f] 0 :: (unit, unit, unit, unit, unit, unit) conn) = (True, s)"
    "incoming s = [Ok ?f]" "global_window s = 65535" "pending_window_req s = []"
    by (auto simp: handshake_def put_frame_def conn_new_def example_config_def i32_checked_sub_def checked_i32_def
        i32_ok_def i32_min_def i32_max_def i32_to_u32_def)
  have f: "dispatch ?f = Ok (R_WindowUpdate \<lparr>w_stream = 0, window_size_increment = 1\<rparr>)"
    by code_simp
  then have "received_credit (On_Frame 5) s = 1"
    using s(2) by (simp add: received_credit_def)
  moreover obtain t where t: "on_event example_crate (\<lambda>d _. (None, d)) (\<lambda>e _. ([], e)) (On_Frame 5) s = (Ok (Ready Continue), t)"
    using s(2-4) f by (simp add: on_event_def on_frame_def on_window_update_def update_global_window_def
        distribute_stop i32_checked_add_def checked_i32_def u32_to_i32_def i32_ok_def i32_min_def i32_max_def)
  moreover obtain S where "?step (sys_start s) S" "credit S = received_credit (On_Frame 5) s"
    using sys_step.event [of example_crate "\<lambda>d _. (None, d)" "\<lambda>e _. ([], e)" "On_Frame 5" "sys_start s" "Ready Continue" t] t
    by (fastforce simp: sys_start_def)
  ultimately show ?thesis
    using data_within_connection_window [of "[Ok ?f]" example_config "Ok ()" 1 "()" "()" 0 s example_crate
        "\<lambda>d _. (None, d)" "\<lambda>e _. ([], e)" S] s(1) example_update_arrives
    by (auto simp: example_config_def i32_ok_def i32_min_def i32_max_def)
qed

text \<open>
  A stream that ends with grants still in its mail loses them for good: it gives back what it
  holds, but the window on its way to it disappears from the account of the connection, and the
  data the connection can ever send shrinks by as much.
\<close>

lemma ended_stream_loses_window:
  assumes "sys_ok S" "running S i = Some s" "conn_open s"
  shows "account (stopped r i s S) = account S - in_mail (mail (conn_of S) i)"
proof -
  have i: "i < next_chan (conn_of S)" "0 \<le> available_window s"
    using assms(1,2) by (auto simp: sys_ok_def)
  have "sum_list (map queued (new_messages s (run_inner_end r s))) = available_window s"
    using assms(3) i(2) by (auto simp: run_inner_end_def new_messages_def send_conn_def Let_def sbind_def)
  moreover have "held (stopped r i s S) = held S - available_window s"
    using held_running [OF i(1), of None] assms(2) by (simp add: held_def stopped_def)
  ultimately show ?thesis
    using account_taken [OF assms(1) i(1), of None] by (simp add: account_def stopped_def)
qed

end
