(* ===== verification/Response.thy ===== *)
theory Response
  imports Request
begin

text \<open>
  \<open>src/src/response.rs\<close>: \<open>ChunkedWriter\<close>, which collects a response body in a buffer and sends it
  as chunks. The \<open>BufWriter\<close> of the connection below it is a polled writer, a parameter. The
  loops that write out a header and a body poll it until everything is written: a writer that
  keeps answering \<open>Ok(0)\<close> would hold them for ever, so they are partial functions, and \<open>None\<close> is
  the call that does not return.
\<close>

section \<open>Hexadecimal digits\<close>

text \<open>\<open>format!("{:x}", n)\<close>.\<close>

definition hex_char :: "nat \<Rightarrow> byte" where
  "hex_char d = word_of_nat (if d < 10 then 48 + d else 87 + d)"

fun to_hex :: "nat \<Rightarrow> byte list" where
  "to_hex n = (if n < 16 then [hex_char n] else to_hex (n div 16) @ [hex_char (n mod 16)])"

declare to_hex.simps [simp del]

lemma hex_char:
  assumes "d < 16"
  shows "is_hex (hex_char d)" "hex_digit (hex_char d) = d"
proof -
  have "d \<in> {0, 1, 2, 3, 4, 5, 6, 7, 8, 9, 10, 11, 12, 13, 14, 15}" using assms by simp arith
  then show "is_hex (hex_char d)" "hex_digit (hex_char d) = d"
    by (auto simp: hex_char_def is_hex_def hex_digit_def)
qed

lemma hex_value_snoc: "hex_value (ds @ [d]) = 16 * hex_value ds + hex_digit d"
  by (induction ds) (simp_all add: algebra_simps)

lemma to_hex_digits: "to_hex n \<noteq> []" "list_all is_hex (to_hex n)" "hex_value (to_hex n) = n"
proof (induction n rule: to_hex.induct)
  case (1 n)
  { case 1 show ?case by (simp add: to_hex.simps [of n]) }
  { case 2 show ?case using "1.IH" hex_char [of n] hex_char [of "n mod 16"]
      by (simp add: to_hex.simps [of n]) }
  { case 3 show ?case using "1.IH" hex_char [of n] hex_char [of "n mod 16"]
      by (simp add: to_hex.simps [of n] hex_value_snoc) }
qed

lemma length_to_hex: "0 < k \<Longrightarrow> n < 16 ^ k \<Longrightarrow> length (to_hex n) \<le> k"
proof (induction n arbitrary: k rule: to_hex.induct)
  case (1 n)
  show ?case
  proof (cases "n < 16")
    case True
    then show ?thesis using 1 by (simp add: to_hex.simps [of n])
  next
    case False
    then obtain j where k: "k = Suc j" "0 < j"
      using 1(2,3) by (cases k; cases "k - 1") auto
    then have "n div 16 < 16 ^ j" using 1(3) by (simp add: less_mult_imp_div_less mult.commute)
    with 1(1) [OF False] k False show ?thesis by (simp add: to_hex.simps [of n])
  qed
qed

section \<open>\<open>ChunkedWriter\<close>\<close>

record 'w chunked_writer =
  cw_writer :: 'w
  cw_buffer :: "byte list"
  cw_buffer_pointer :: nat
  cw_buffer_read_pointer :: nat
  cw_header :: "byte list"
  cw_header_read_pointer :: nat
  cw_finishing :: bool
  cw_finished :: bool

definition chunked_writer_new :: "'w \<Rightarrow> nat \<Rightarrow> 'w chunked_writer" where
  "chunked_writer_new w buffer_size =
     \<lparr>cw_writer = w, cw_buffer = replicate buffer_size 0, cw_buffer_pointer = 0,
      cw_buffer_read_pointer = 0, cw_header = [], cw_header_read_pointer = 0,
      cw_finishing = False, cw_finished = False\<rparr>"

text \<open>A call that may not return.\<close>

type_synonym ('s, 'a) looping = "'s \<Rightarrow> ('a io poll \<times> 's) option"

definition lbind :: "('s, 'a) looping \<Rightarrow> ('a \<Rightarrow> ('s, 'b) looping) \<Rightarrow> ('s, 'b) looping" where
  "lbind m k s = (case m s of
     None \<Rightarrow> None
   | Some (Ready (Ok a), s') \<Rightarrow> k a s'
   | Some (Ready (Err e), s') \<Rightarrow> Some (Ready (Err e), s')
   | Some (Ready Panic, s') \<Rightarrow> Some (Ready Panic, s')
   | Some (Pending, s') \<Rightarrow> Some (Pending, s'))"

lemma lbind_simps [simp]:
  "m s = Some (Ready (Ok a), s') \<Longrightarrow> lbind m k s = k a s'"
  "m s = Some (Pending, s') \<Longrightarrow> lbind m k s = Some (Pending, s')"
  by (simp_all add: lbind_def)

text \<open>The loops of \<open>write_header\<close> and \<open>write_body\<close>: writing out \<open>buf\<close> from index \<open>i\<close> on.\<close>

partial_function (option) write_loop ::
  "'w poll_writer \<Rightarrow> byte list \<Rightarrow> nat \<Rightarrow> 'w \<Rightarrow> (unit io poll \<times> nat \<times> 'w) option" where
  "write_loop wr buf i w =
     (if i \<ge> length buf then Some (Ready (Ok ()), i, w)
      else case wr (drop i buf) w of
        (Ready (Ok n), w') \<Rightarrow> write_loop wr buf (i + n) w'
      | (Ready (Err e), w') \<Rightarrow> Some (Ready (Err e), i, w')
      | (Ready Panic, w') \<Rightarrow> Some (Ready Panic, i, w')
      | (Pending, w') \<Rightarrow> Some (Pending, i, w'))"

declare write_loop.simps [code]

definition cw_write_header :: "'w poll_writer \<Rightarrow> ('w chunked_writer, unit) looping" where
  "cw_write_header wr c =
     map_option (\<lambda>(res, i, w). (res, c\<lparr>cw_writer := w, cw_header_read_pointer := i\<rparr>))
       (write_loop wr (cw_header c) (cw_header_read_pointer c) (cw_writer c))"

definition cw_write_body :: "'w poll_writer \<Rightarrow> ('w chunked_writer, unit) looping" where
  "cw_write_body wr c =
     map_option (\<lambda>(res, i, w). (res, c\<lparr>cw_writer := w, cw_buffer_read_pointer := i\<rparr>))
       (write_loop wr (take (cw_buffer_pointer c) (cw_buffer c)) (cw_buffer_read_pointer c) (cw_writer c))"

text \<open>\<open>buffer[i..i + bs.len()].copy_from_slice(bs)\<close>.\<close>

definition store :: "nat \<Rightarrow> byte list \<Rightarrow> byte list \<Rightarrow> byte list io" where
  "store i bs buf = (if i + length bs \<le> length buf then Ok (overwrite i bs buf) else Panic)"

definition create_chunk :: "('w chunked_writer, unit) looping" where
  "create_chunk c =
     (if cw_header c = []
      then case store (cw_buffer_pointer c) CRNL (cw_buffer c) of
        Ok buf \<Rightarrow> Some (Ready (Ok ()),
          c\<lparr>cw_buffer := buf, cw_buffer_pointer := cw_buffer_pointer c + 2,
            cw_header := to_hex (cw_buffer_pointer c) @ CRNL\<rparr>)
      | _ \<Rightarrow> Some (Ready Panic, c)
      else Some (Ready (Ok ()), c))"

definition create_last_chunk :: "'w chunked_writer \<Rightarrow> 'w chunked_writer" where
  "create_last_chunk c =
     (if cw_header c = [] then c\<lparr>cw_header := bytes_of ''0'' @ CRNL @ CRNL\<rparr> else c)"

definition cw_reset :: "'w chunked_writer \<Rightarrow> 'w chunked_writer" where
  "cw_reset c = c\<lparr>cw_buffer_pointer := 0, cw_buffer_read_pointer := 0, cw_header := [],
                 cw_header_read_pointer := 0\<rparr>"

definition cw_poll_flush :: "'w poll_flush \<Rightarrow> ('w chunked_writer, unit) looping" where
  "cw_poll_flush fl c = (case fl (cw_writer c) of (res, w) \<Rightarrow> Some (res, c\<lparr>cw_writer := w\<rparr>))"

definition shut_down_error :: "'a io" where
  "shut_down_error = Err (IoError BrokenPipe ''The ChunkedWriter has already been shutdown.'')"

definition flush_inner :: "'w poll_writer \<Rightarrow> 'w poll_flush \<Rightarrow> ('w chunked_writer, unit) looping" where
  "flush_inner wr fl c =
     (if cw_finished c then Some (Ready shut_down_error, c)
      else
        lbind create_chunk (\<lambda>_.
        lbind (cw_write_header wr) (\<lambda>_.
        lbind (cw_write_body wr) (\<lambda>_ c.
        cw_poll_flush fl (cw_reset c)))) c)"

text \<open>\<open>buffer.len() - 2\<close> in \<open>usize\<close>.\<close>

definition usize_sub :: "profile \<Rightarrow> nat \<Rightarrow> nat \<Rightarrow> nat io" where
  "usize_sub p a b =
     (if b \<le> a then Ok (a - b) else case p of Debug \<Rightarrow> Panic | Release \<Rightarrow> Ok (2 ^ 64 + a - b))"

text \<open>
  \<open>writable\<close> does not underflow: the buffer pointer is below \<open>len\<close>, or \<open>0\<close> after the flush.
\<close>

definition write_inner ::
  "profile \<Rightarrow> 'w poll_writer \<Rightarrow> 'w poll_flush \<Rightarrow> byte list \<Rightarrow> ('w chunked_writer, nat) looping" where
  "write_inner p wr fl buf c =
     (if cw_finished c \<or> cw_finishing c then Some (Ready shut_down_error, c)
      else case usize_sub p (length (cw_buffer c)) 2 of
        Ok len \<Rightarrow>
          lbind (if cw_buffer_pointer c \<ge> len \<or> cw_header c \<noteq> [] then flush_inner wr fl
                 else (\<lambda>c. Some (Ready (Ok ()), c)))
            (\<lambda>_ c.
               let writable = len - cw_buffer_pointer c;
                   n = (if length buf > writable then writable else length buf) in
               (case store (cw_buffer_pointer c) (take n buf) (cw_buffer c) of
                  Ok b \<Rightarrow> Some (Ready (Ok n),
                    c\<lparr>cw_buffer := b, cw_buffer_pointer := cw_buffer_pointer c + n\<rparr>)
                | _ \<Rightarrow> Some (Ready Panic, c))) c
      | Err e \<Rightarrow> Some (Ready (Err e), c)
      | Panic \<Rightarrow> Some (Ready Panic, c))"

definition shutdown_inner ::
  "'w poll_writer \<Rightarrow> 'w poll_flush \<Rightarrow> ('w chunked_writer, unit) looping" where
  "shutdown_inner wr fl c =
     (if cw_finished c then Some (Ready shut_down_error, c)
      else
        lbind (if cw_buffer_pointer c > 0 then flush_inner wr fl else (\<lambda>c. Some (Ready (Ok ()), c)))
          (\<lambda>_ c.
        lbind (cw_write_header wr) (\<lambda>_.
        lbind (cw_poll_flush fl) (\<lambda>_ c.
        Some (Ready (Ok ()), c\<lparr>cw_finished := True\<rparr>))) (create_last_chunk c))
        (c\<lparr>cw_finishing := True\<rparr>))"

section \<open>The chunks\<close>

text \<open>The encoding of a body as chunks, and the last chunk.\<close>

definition chunk :: "byte list \<Rightarrow> byte list" where
  "chunk bs = to_hex (length bs) @ CRNL @ bs @ CRNL"

definition last_chunk :: "byte list" where
  "last_chunk = bytes_of ''0'' @ CRNL @ CRNL"

definition chunks_ok :: "byte list list \<Rightarrow> bool" where
  "chunks_ok cs \<longleftrightarrow> (\<forall>c\<in>set cs. c \<noteq> [] \<and> length c < 2 ^ 64)"

lemma dechunk_chunks:
  "chunks_ok cs \<Longrightarrow> 18 \<le> cap \<Longrightarrow>
   dechunk p cap (concat (map chunk cs) @ last_chunk @ rest) = Some (concat cs, rest)"
proof (induction cs)
  case Nil
  then show ?case
    using dechunk_last [of "bytes_of ''0''" cap p rest]
    by (simp add: last_chunk_def bytes_of_def is_hex_def hex_digit_def)
next
  case (Cons c cs)
  have "length (to_hex (length c)) \<le> 16"
    using Cons.prems(1) by (intro length_to_hex) (simp_all add: chunks_ok_def)
  with Cons show ?case
    using dechunk_Cons [of "to_hex (length c)" cap c p] to_hex_digits [of "length c"]
    by (simp add: chunk_def chunks_ok_def)
qed

text \<open>
  A sequence of polls on a writer: the bytes its writes took, in order. A poll that has to wait or
  fails takes nothing; a panic ends the sequence.
\<close>

datatype cw_call = Cw_Write "byte list" | Cw_Shutdown

fun cw_run ::
  "profile \<Rightarrow> 'w poll_writer \<Rightarrow> 'w poll_flush \<Rightarrow> cw_call list \<Rightarrow> 'w chunked_writer
    \<Rightarrow> (byte list io \<times> 'w chunked_writer) option" where
  "cw_run p wr fl [] c = Some (Ok [], c)"
| "cw_run p wr fl (Cw_Write bs # calls) c =
     (case write_inner p wr fl bs c of
        None \<Rightarrow> None
      | Some (Ready (Ok n), c') \<Rightarrow>
          map_option (\<lambda>(acc, c''). (omap (\<lambda>xs. take n bs @ xs) acc, c'')) (cw_run p wr fl calls c')
      | Some (Ready (Err e), c') \<Rightarrow> cw_run p wr fl calls c'
      | Some (Ready Panic, c') \<Rightarrow> Some (Panic, c')
      | Some (Pending, c') \<Rightarrow> cw_run p wr fl calls c')"
| "cw_run p wr fl (Cw_Shutdown # calls) c =
     (case shutdown_inner wr fl c of
        None \<Rightarrow> None
      | Some (Ready Panic, c') \<Rightarrow> Some (Panic, c')
      | Some (_, c') \<Rightarrow> cw_run p wr fl calls c')"

definition shutdowns :: "cw_call list \<Rightarrow> nat" where
  "shutdowns calls = length (filter (\<lambda>call. call = Cw_Shutdown) calls)"

text \<open>
  The states of a writer that has accepted the bytes \<open>acc\<close>, over a sink that held \<open>pre\<close>. With no
  header prepared, the last accepted bytes are in the buffer; otherwise the rest of the header
  and of the buffer is still to be written, and nothing else.
\<close>

context poll_sink
begin

definition cw_ok :: "byte list \<Rightarrow> byte list \<Rightarrow> 'w chunked_writer \<Rightarrow> bool" where
  "cw_ok pre acc c \<longleftrightarrow> wf (cw_writer c) \<and> 2 < length (cw_buffer c) \<and> length (cw_buffer c) < 2 ^ 64 \<and>
     cw_header_read_pointer c \<le> length (cw_header c) \<and>
     cw_buffer_read_pointer c \<le> cw_buffer_pointer c \<and> cw_buffer_pointer c \<le> length (cw_buffer c) \<and>
     (cw_header c = [] \<longrightarrow> cw_buffer_read_pointer c = 0 \<and>
        cw_buffer_pointer c + 2 \<le> length (cw_buffer c)) \<and>
     (cw_header c \<noteq> [] \<and> cw_buffer_pointer c = 0 \<longrightarrow> cw_finishing c) \<and>
     (0 < cw_buffer_read_pointer c \<longrightarrow> cw_header_read_pointer c = length (cw_header c)) \<and>
     (cw_finished c \<longrightarrow> cw_header c \<noteq> [] \<and> cw_buffer_pointer c = 0 \<and>
        cw_header_read_pointer c = length (cw_header c)) \<and>
     (\<exists>cs. chunks_ok cs \<and>
        (if cw_header c = []
         then acc = concat cs @ take (cw_buffer_pointer c) (cw_buffer c) \<and>
           written (cw_writer c) = pre @ concat (map chunk cs)
         else acc = concat cs \<and>
           written (cw_writer c) @ drop (cw_header_read_pointer c) (cw_header c) @
             drop (cw_buffer_read_pointer c) (take (cw_buffer_pointer c) (cw_buffer c)) =
           pre @ concat (map chunk cs) @ (if cw_buffer_pointer c = 0 then last_chunk else [])))"

definition cw_stalls :: "'w chunked_writer \<Rightarrow> nat" where "cw_stalls c = stalls (cw_writer c)"

text \<open>
  What a part of a call does: it returns, keeps the state and either has to wait or reaches
  \<open>goal\<close>.
\<close>

definition cw_goes ::
  "byte list \<Rightarrow> byte list \<Rightarrow> ('w chunked_writer \<Rightarrow> bool) \<Rightarrow> 'w chunked_writer
    \<Rightarrow> (unit io poll \<times> 'w chunked_writer) option \<Rightarrow> bool" where
  "cw_goes pre acc goal c out \<longleftrightarrow> (\<exists>res c'. out = Some (res, c') \<and> cw_ok pre acc c' \<and>
     length (cw_buffer c') = length (cw_buffer c) \<and> cw_finishing c' = cw_finishing c \<and>
     (res = Pending \<and> cw_stalls c' < cw_stalls c \<and> cw_finished c' = cw_finished c \<or>
      res = Ready (Ok ()) \<and> cw_stalls c' \<le> cw_stalls c \<and> goal c'))"

lemma cw_goes_lbind:
  assumes "cw_goes pre acc goal c (m c)"
    and "\<And>c'. cw_ok pre acc c' \<Longrightarrow> goal c' \<Longrightarrow> length (cw_buffer c') = length (cw_buffer c) \<Longrightarrow>
      cw_finishing c' = cw_finishing c \<Longrightarrow> cw_goes pre acc goal' c' (k () c')"
    and "\<And>c'. goal c' \<Longrightarrow> cw_finished c' = cw_finished c"
  shows "cw_goes pre acc goal' c (lbind m k c)"
proof -
  from assms(1) obtain res c' where c': "m c = Some (res, c')" "cw_ok pre acc c'"
      "length (cw_buffer c') = length (cw_buffer c)" "cw_finishing c' = cw_finishing c"
      "res = Pending \<and> cw_stalls c' < cw_stalls c \<and> cw_finished c' = cw_finished c \<or>
       res = Ready (Ok ()) \<and> cw_stalls c' \<le> cw_stalls c \<and> goal c'"
    by (auto simp: cw_goes_def)
  from c'(5) show ?thesis
  proof
    assume "res = Pending \<and> cw_stalls c' < cw_stalls c \<and> cw_finished c' = cw_finished c"
    with c' show ?thesis by (simp add: cw_goes_def)
  next
    assume ok: "res = Ready (Ok ()) \<and> cw_stalls c' \<le> cw_stalls c \<and> goal c'"
    then have "cw_goes pre acc goal' c' (k () c')" using assms(2) c' by blast
    with ok c' assms(3) [of c'] show ?thesis by (auto simp: cw_goes_def)
  qed
qed

lemma write_loop_spec:
  "wf w \<Longrightarrow> i \<le> length buf \<Longrightarrow>
   \<exists>res j w'. write_loop wr buf i w = Some (res, j, w') \<and> i \<le> j \<and> j \<le> length buf \<and> wf w' \<and>
     written w' = written w @ take (j - i) (drop i buf) \<and>
     (res = Pending \<and> stalls w' < stalls w \<or>
      res = Ready (Ok ()) \<and> j = length buf \<and> stalls w' \<le> stalls w)"
proof (induction "length buf - i" arbitrary: i w rule: less_induct)
  case less
  show ?case
  proof (cases "i = length buf")
    case True
    then show ?thesis using less.prems by (simp add: write_loop.simps)
  next
    case False
    then have "drop i buf \<noteq> []" using less.prems by simp
    with less.prems(1) show ?thesis
    proof (cases rule: wr_cases)
      case (stall w')
      then show ?thesis using False less.prems by (simp add: write_loop.simps [of wr buf i w])
    next
      case (took n w')
      then have n: "i + n \<le> length buf" using less.prems(2) by simp
      have step: "write_loop wr buf i w = write_loop wr buf (i + n) w'"
        using took(1) False less.prems by (simp add: write_loop.simps [of wr buf i w])
      have "length buf - (i + n) < length buf - i" using took(3) n by arith
      from less.hyps [OF this took(2) n] obtain res j w2 where w2: "write_loop wr buf (i + n) w' = Some (res, j, w2)" "i + n \<le> j"
        "j \<le> length buf" "wf w2" "written w2 = written w' @ take (j - (i + n)) (drop (i + n) buf)"
        "res = Pending \<and> stalls w2 < stalls w' \<or>
         res = Ready (Ok ()) \<and> j = length buf \<and> stalls w2 \<le> stalls w'"
        by blast
      have "take (j - i) (drop i buf) = take n (drop i buf) @ take (j - (i + n)) (drop (i + n) buf)"
        using w2(2) take_add [of n "j - (i + n)" "drop i buf"] by (simp add: add.commute)
      with w2 took step show ?thesis by auto
    qed
  qed
qed

lemma create_chunk_goes:
  assumes c: "cw_ok pre acc c" "0 < cw_buffer_pointer c"
  shows "cw_goes pre acc (\<lambda>c'. cw_header c' \<noteq> [] \<and> 0 < cw_buffer_pointer c' \<and>
    cw_finished c' = cw_finished c) c (create_chunk c)"
proof (cases "cw_header c = []")
  case False
  with c show ?thesis by (simp add: create_chunk_def cw_goes_def)
next
  case True
  let ?bp = "cw_buffer_pointer c" and ?buf = "cw_buffer c"
  define data where "data = take ?bp ?buf"
  have bp: "?bp + 2 \<le> length ?buf" "length ?buf < 2 ^ 64" using c True by (auto simp: cw_ok_def)
  obtain cs where cs: "chunks_ok cs" "acc = concat cs @ data"
      "written (cw_writer c) = pre @ concat (map chunk cs)"
    using c True by (auto simp: cw_ok_def data_def)
  have "length data = ?bp" using bp by (simp add: data_def)
  then have "chunks_ok (cs @ [data])"
    using cs(1) c(2) bp by (auto simp: chunks_ok_def)
  moreover have "take (?bp + 2) (overwrite ?bp CRNL ?buf) = data @ CRNL"
    using bp take_overwrite [of ?bp CRNL ?buf] by (simp add: data_def CRNL_def)
  ultimately show ?thesis
    using c True bp cs \<open>length data = ?bp\<close> unfolding cw_goes_def
    by (auto simp: create_chunk_def store_def CRNL_def [THEN arg_cong [of _ _ length]] cw_ok_def
        cw_stalls_def chunk_def to_hex_digits intro!: exI [of _ "cs @ [data]"])
qed

lemma drop_take_drop: "i \<le> j \<Longrightarrow> take (j - i) (drop i xs) @ drop j xs = drop i xs"
  using append_take_drop_id [of "j - i" "drop i xs"] by simp

lemma cw_write_header_goes:
  assumes c: "cw_ok pre acc c" "cw_header c \<noteq> []"
  shows "cw_goes pre acc (\<lambda>c'. cw_header c' \<noteq> [] \<and> cw_header_read_pointer c' = length (cw_header c') \<and>
    cw_buffer_pointer c' = cw_buffer_pointer c \<and> cw_finished c' = cw_finished c) c (cw_write_header wr c)"
proof -
  let ?h = "cw_header c" and ?i = "cw_header_read_pointer c"
  have "wf (cw_writer c)" "?i \<le> length ?h" using c by (auto simp: cw_ok_def)
  then obtain res j w' where w': "write_loop wr ?h ?i (cw_writer c) = Some (res, j, w')" "?i \<le> j"
    "j \<le> length ?h" "wf w'" "written w' = written (cw_writer c) @ take (j - ?i) (drop ?i ?h)"
    "res = Pending \<and> stalls w' < stalls (cw_writer c) \<or>
     res = Ready (Ok ()) \<and> j = length ?h \<and> stalls w' \<le> stalls (cw_writer c)"
    using write_loop_spec by blast
  have "written w' @ drop j ?h = written (cw_writer c) @ drop ?i ?h"
    using w'(2,5) by (simp add: drop_take_drop)
  then have out: "written w' @ drop j ?h @ ys = written (cw_writer c) @ drop ?i ?h @ ys" for ys
    by (metis append_assoc)
  have "cw_ok pre acc (c\<lparr>cw_writer := w', cw_header_read_pointer := j\<rparr>)"
    using c w'(2-4) by (auto simp: cw_ok_def out)
  with w' c(2) show ?thesis by (auto simp: cw_goes_def cw_write_header_def cw_stalls_def)
qed

lemma cw_write_body_goes:
  assumes c: "cw_ok pre acc c" "cw_header c \<noteq> []" "cw_header_read_pointer c = length (cw_header c)"
  shows "cw_goes pre acc (\<lambda>c'. cw_header c' \<noteq> [] \<and> cw_header_read_pointer c' = length (cw_header c') \<and>
    cw_buffer_read_pointer c' = cw_buffer_pointer c' \<and> cw_buffer_pointer c' = cw_buffer_pointer c \<and>
    cw_finished c' = cw_finished c) c (cw_write_body wr c)"
proof -
  let ?b = "take (cw_buffer_pointer c) (cw_buffer c)" and ?i = "cw_buffer_read_pointer c"
  have len: "length ?b = cw_buffer_pointer c" and "wf (cw_writer c)" "?i \<le> length ?b"
    using c by (auto simp: cw_ok_def)
  then obtain res j w' where w': "write_loop wr ?b ?i (cw_writer c) = Some (res, j, w')" "?i \<le> j"
    "j \<le> length ?b" "wf w'" "written w' = written (cw_writer c) @ take (j - ?i) (drop ?i ?b)"
    "res = Pending \<and> stalls w' < stalls (cw_writer c) \<or>
     res = Ready (Ok ()) \<and> j = length ?b \<and> stalls w' \<le> stalls (cw_writer c)"
    using write_loop_spec by blast
  have out: "written w' @ drop j ?b = written (cw_writer c) @ drop ?i ?b"
    using w'(2,5) by (simp only: append_assoc drop_take_drop)
  have "cw_ok pre acc (c\<lparr>cw_writer := w', cw_buffer_read_pointer := j\<rparr>)"
    using c w'(2-4) len by (auto simp: cw_ok_def out)
  with w' c(2,3) len show ?thesis by (auto simp: cw_goes_def cw_write_body_def cw_stalls_def)
qed

text \<open>A flush of buffered bytes.\<close>

lemma flush_goes:
  assumes c: "cw_ok pre acc c" "\<not> cw_finished c" "0 < cw_buffer_pointer c"
  shows "cw_goes pre acc (\<lambda>c'. cw_header c' = [] \<and> cw_buffer_pointer c' = 0 \<and> \<not> cw_finished c') c
    (flush_inner wr fl c)"
proof -
  let ?goal = "\<lambda>c'. cw_header c' = [] \<and> cw_buffer_pointer c' = 0 \<and> \<not> cw_finished c'"
  have last: "cw_goes pre acc ?goal c1 (cw_poll_flush fl (cw_reset c1))"
    if c1: "cw_ok pre acc c1" "cw_header c1 \<noteq> []" "cw_header_read_pointer c1 = length (cw_header c1)"
      "cw_buffer_read_pointer c1 = cw_buffer_pointer c1" "0 < cw_buffer_pointer c1" "\<not> cw_finished c1"
    for c1
  proof -
    have "wf (cw_writer c1)" using c1 by (simp add: cw_ok_def)
    then obtain res w' where w': "fl (cw_writer c1) = (res, w')" "wf w'"
      "written w' = written (cw_writer c1)"
      "res = Pending \<and> stalls w' < stalls (cw_writer c1) \<or>
       res = Ready (Ok ()) \<and> stalls w' \<le> stalls (cw_writer c1)"
      using fl_spec by blast
    have "cw_ok pre acc ((cw_reset c1)\<lparr>cw_writer := w'\<rparr>)"
      using c1 w'(2,3) by (auto simp: cw_ok_def cw_reset_def)
    with w' c1(6) show ?thesis by (auto simp: cw_goes_def cw_poll_flush_def cw_reset_def cw_stalls_def)
  qed
  let ?finale = "\<lambda>_ c. cw_poll_flush fl (cw_reset c)"
  have body: "cw_goes pre acc ?goal c1 (lbind (cw_write_body wr) ?finale c1)"
    if "cw_ok pre acc c1" "cw_header c1 \<noteq> []" "cw_header_read_pointer c1 = length (cw_header c1)"
      "0 < cw_buffer_pointer c1" "\<not> cw_finished c1" for c1
    by (rule cw_goes_lbind [where m = "cw_write_body wr"], rule cw_write_body_goes [OF that(1-3)])
      (use that in \<open>auto intro: last\<close>)
  have header: "cw_goes pre acc ?goal c1 (lbind (cw_write_header wr) (\<lambda>_. lbind (cw_write_body wr) ?finale) c1)"
    if "cw_ok pre acc c1" "cw_header c1 \<noteq> []" "0 < cw_buffer_pointer c1" "\<not> cw_finished c1" for c1
    by (rule cw_goes_lbind [where m = "cw_write_header wr"], rule cw_write_header_goes [OF that(1,2)])
      (use that in \<open>auto intro: body\<close>)
  have "cw_goes pre acc ?goal c
      (lbind create_chunk (\<lambda>_. lbind (cw_write_header wr) (\<lambda>_. lbind (cw_write_body wr) ?finale)) c)"
    by (rule cw_goes_lbind [where m = create_chunk], rule create_chunk_goes [OF c(1,3)])
      (use c(2) in \<open>auto intro: header\<close>)
  with c(2) show ?thesis by (simp add: flush_inner_def)
qed

text \<open>What a call of \<open>poll_write\<close> does: it takes some bytes, at least one if there is one.\<close>

lemma write_inner_ok:
  assumes c: "cw_ok pre acc c" "\<not> cw_finishing c" "\<not> cw_finished c"
  obtains (stall) c' where "write_inner p wr fl buf c = Some (Pending, c')" "cw_ok pre acc c'"
      "\<not> cw_finishing c'" "\<not> cw_finished c'" "cw_stalls c' < cw_stalls c"
  | (took) n c' where "write_inner p wr fl buf c = Some (Ready (Ok n), c')"
      "cw_ok pre (acc @ take n buf) c'" "n \<le> length buf" "buf \<noteq> [] \<Longrightarrow> 0 < n"
      "\<not> cw_finishing c'" "\<not> cw_finished c'" "cw_stalls c' \<le> cw_stalls c"
proof -
  let ?len = "length (cw_buffer c) - 2"
  define first where "first = (if cw_buffer_pointer c \<ge> ?len \<or> cw_header c \<noteq> []
      then flush_inner wr fl else (\<lambda>c. Some (Ready (Ok ()), c)))"
  define put where "put c1 = (let writable = ?len - cw_buffer_pointer c1;
      n = (if length buf > writable then writable else length buf) in
      (case store (cw_buffer_pointer c1) (take n buf) (cw_buffer c1) of
         Ok b \<Rightarrow> Some (Ready (Ok n), c1\<lparr>cw_buffer := b, cw_buffer_pointer := cw_buffer_pointer c1 + n\<rparr>)
       | _ \<Rightarrow> Some (Ready Panic :: nat io poll, c1)))" for c1 :: "'w chunked_writer"
  have room: "2 < length (cw_buffer c)" using c(1) by (simp add: cw_ok_def)
  have eq: "write_inner p wr fl buf c = lbind first (\<lambda>_. put) c"
    using c room by (simp add: write_inner_def usize_sub_def first_def put_def [abs_def])
  have "cw_buffer_pointer c \<ge> ?len \<or> cw_header c \<noteq> [] \<Longrightarrow> 0 < cw_buffer_pointer c"
    using c room by (auto simp: cw_ok_def)
  then have "cw_goes pre acc (\<lambda>c'. cw_header c' = [] \<and> cw_buffer_pointer c' < ?len \<and> \<not> cw_finished c')
      c (first c)"
    using flush_goes [OF c(1,3)] c room
    by (auto simp: first_def cw_goes_def)
  then obtain res c1 where c1: "first c = Some (res, c1)" "cw_ok pre acc c1"
      "length (cw_buffer c1) = length (cw_buffer c)" "\<not> cw_finishing c1"
      "res = Pending \<and> cw_stalls c1 < cw_stalls c \<and> \<not> cw_finished c1 \<or>
       res = Ready (Ok ()) \<and> cw_stalls c1 \<le> cw_stalls c \<and> cw_header c1 = [] \<and>
         cw_buffer_pointer c1 < ?len \<and> \<not> cw_finished c1"
    using c(2,3) by (auto simp: cw_goes_def)
  from c1(5) show ?thesis
  proof
    assume "res = Pending \<and> cw_stalls c1 < cw_stalls c \<and> \<not> cw_finished c1"
    with c1 that(1) eq show ?thesis by simp
  next
    assume ok: "res = Ready (Ok ()) \<and> cw_stalls c1 \<le> cw_stalls c \<and> cw_header c1 = [] \<and>
         cw_buffer_pointer c1 < ?len \<and> \<not> cw_finished c1"
    let ?bp = "cw_buffer_pointer c1" and ?buf = "cw_buffer c1"
    define n where "n = min (?len - ?bp) (length buf)"
    have n_eq: "(if length buf > ?len - ?bp then ?len - ?bp else length buf) = n"
      by (simp add: n_def min_def)
    have n: "n \<le> length buf" "?bp + n + 2 \<le> length ?buf" "buf \<noteq> [] \<Longrightarrow> 0 < n"
      using ok c1(3) room by (auto simp: n_def)
    let ?c = "c1\<lparr>cw_buffer := overwrite ?bp (take n buf) ?buf, cw_buffer_pointer := ?bp + n\<rparr>"
    have "put c1 = Some (Ready (Ok n), ?c)"
      using n unfolding put_def Let_def n_eq by (simp add: store_def)
    moreover have "take (?bp + n) (overwrite ?bp (take n buf) ?buf) = take ?bp ?buf @ take n buf"
      using n take_overwrite [of ?bp "take n buf" ?buf] by (simp add: min_absorb2)
    then have "cw_ok pre (acc @ take n buf) ?c"
      using c1(2) ok n by (auto simp: cw_ok_def)
    ultimately show ?thesis
      using c1 ok eq n by (intro that(2) [of n ?c]) (auto simp: cw_stalls_def)
  qed
qed

text \<open>
  What a call of \<open>poll_shutdown\<close> does: when it is done, the chunks of everything that was accepted
  and the last chunk are in the sink.
\<close>

lemma shutdown_inner_ok:
  assumes c: "cw_ok pre acc c" "\<not> cw_finished c"
  shows "\<exists>res c'. shutdown_inner wr fl c = Some (res, c') \<and> cw_ok pre acc c' \<and> cw_finishing c' \<and>
    (res = Pending \<and> cw_stalls c' < cw_stalls c \<and> \<not> cw_finished c' \<or>
     res = Ready (Ok ()) \<and> cw_stalls c' \<le> cw_stalls c \<and> cw_finished c')"
proof -
  let ?c = "c\<lparr>cw_finishing := True\<rparr>"
  let ?idle = "\<lambda>c. Some (Ready (Ok ()) :: unit io poll, c :: 'w chunked_writer)"
  let ?mark = "\<lambda>_ :: unit. \<lambda>c. Some (Ready (Ok ()) :: unit io poll, c\<lparr>cw_finished := True\<rparr>)"
  have flush: "cw_goes pre acc (\<lambda>c'. cw_finished c') c1 (lbind (cw_poll_flush fl) ?mark c1)"
    if c1: "cw_ok pre acc c1" "cw_header c1 \<noteq> []" "cw_header_read_pointer c1 = length (cw_header c1)"
      "cw_buffer_pointer c1 = 0" "\<not> cw_finished c1" for c1
  proof -
    have "wf (cw_writer c1)" using c1 by (simp add: cw_ok_def)
    then obtain res w' where w': "fl (cw_writer c1) = (res, w')" "wf w'"
      "written w' = written (cw_writer c1)"
      "res = Pending \<and> stalls w' < stalls (cw_writer c1) \<or>
       res = Ready (Ok ()) \<and> stalls w' \<le> stalls (cw_writer c1)"
      using fl_spec by blast
    have "cw_ok pre acc (c1\<lparr>cw_writer := w'\<rparr>)" "cw_ok pre acc (c1\<lparr>cw_writer := w', cw_finished := True\<rparr>)"
      using c1 w'(2,3) by (auto simp: cw_ok_def)
    with w' c1(5) show ?thesis
      by (auto simp: cw_goes_def cw_poll_flush_def cw_stalls_def)
  qed
  have header: "cw_goes pre acc (\<lambda>c'. cw_finished c') c1
      (lbind (cw_write_header wr) (\<lambda>_. lbind (cw_poll_flush fl) ?mark) c1)"
    if "cw_ok pre acc c1" "cw_header c1 \<noteq> []" "cw_buffer_pointer c1 = 0" "\<not> cw_finished c1" for c1
    by (rule cw_goes_lbind [where m = "cw_write_header wr"], rule cw_write_header_goes [OF that(1,2)])
      (use that in \<open>auto intro: flush\<close>)
  have last: "cw_goes pre acc (\<lambda>c'. cw_finished c') c1
      (lbind (cw_write_header wr) (\<lambda>_. lbind (cw_poll_flush fl) ?mark) (create_last_chunk c1))"
    if c1: "cw_ok pre acc c1" "cw_buffer_pointer c1 = 0" "\<not> cw_finished c1" "cw_finishing c1" for c1
  proof -
    have "cw_ok pre acc (create_last_chunk c1)" "cw_header (create_last_chunk c1) \<noteq> []"
      using c1 by (auto simp: create_last_chunk_def cw_ok_def last_chunk_def bytes_of_def)
    with c1 header [of "create_last_chunk c1"] show ?thesis
      by (auto simp: create_last_chunk_def cw_goes_def cw_stalls_def)
  qed
  have "cw_ok pre acc ?c" using c(1) by (auto simp: cw_ok_def)
  then have "cw_goes pre acc (\<lambda>c'. cw_buffer_pointer c' = 0 \<and> \<not> cw_finished c') ?c
      ((if cw_buffer_pointer ?c > 0 then flush_inner wr fl else ?idle) ?c)"
    using flush_goes [of pre acc ?c] c(2) by (auto simp: cw_goes_def)
  then have "cw_goes pre acc (\<lambda>c'. cw_finished c') ?c
      (lbind (if cw_buffer_pointer ?c > 0 then flush_inner wr fl else ?idle)
        (\<lambda>_ c. lbind (cw_write_header wr) (\<lambda>_. lbind (cw_poll_flush fl) ?mark) (create_last_chunk c)) ?c)"
    by (rule cw_goes_lbind) (use c(2) in \<open>auto intro: last\<close>)
  then show ?thesis
    using c(2) by (auto simp: cw_goes_def shutdown_inner_def cw_stalls_def)
qed

lemma cw_run_ok:
  "cw_ok pre acc0 c \<Longrightarrow>
   \<exists>acc c'. cw_run p wr fl calls c = Some (Ok acc, c') \<and> cw_ok pre (acc0 @ acc) c' \<and>
     (cw_finished c \<or> cw_stalls c < shutdowns calls \<longrightarrow> cw_finished c')"
proof (induction calls arbitrary: c acc0)
  case Nil
  then show ?case by (simp add: shutdowns_def)
next
  case (Cons call calls)
  show ?case
  proof (cases call)
    case (Cw_Write bs)
    then have same: "shutdowns (call # calls) = shutdowns calls" by (simp add: shutdowns_def)
    show ?thesis
    proof (cases "cw_finished c \<or> cw_finishing c")
      case True
      then have "cw_run p wr fl (call # calls) c = cw_run p wr fl calls c"
        by (simp add: Cw_Write write_inner_def shut_down_error_def)
      with Cons.IH [OF Cons.prems] same show ?thesis by simp
    next
      case False
      then have nf: "\<not> cw_finishing c" "\<not> cw_finished c" by simp_all
      from Cons.prems nf show ?thesis
      proof (cases rule: write_inner_ok [where p = p and buf = bs])
        case (stall c')
        with Cons.IH [OF stall(2)] Cw_Write same nf show ?thesis by auto
      next
        case (took n c')
        with Cons.IH [OF took(2)] Cw_Write same nf show ?thesis by fastforce
      qed
    qed
  next
    case Cw_Shutdown
    then have one: "shutdowns (call # calls) = Suc (shutdowns calls)" by (simp add: shutdowns_def)
    show ?thesis
    proof (cases "cw_finished c")
      case True
      then have "cw_run p wr fl (call # calls) c = cw_run p wr fl calls c"
        by (simp add: Cw_Shutdown shutdown_inner_def shut_down_error_def)
      with Cons.IH [OF Cons.prems] True show ?thesis by auto
    next
      case False
      obtain res c' where c': "shutdown_inner wr fl c = Some (res, c')" "cw_ok pre acc0 c'"
        "res = Pending \<and> cw_stalls c' < cw_stalls c \<and> \<not> cw_finished c' \<or>
         res = Ready (Ok ()) \<and> cw_stalls c' \<le> cw_stalls c \<and> cw_finished c'"
        using shutdown_inner_ok [OF Cons.prems False] by blast
      then have "cw_run p wr fl (call # calls) c = cw_run p wr fl calls c'"
        by (auto simp: Cw_Shutdown)
      with Cons.IH [OF c'(2)] c'(3) one False show ?thesis by fastforce
    qed
  qed
qed

lemma cw_new_ok:
  "wf w \<Longrightarrow> written w = pre \<Longrightarrow> 2 < bsize \<Longrightarrow> bsize < 2 ^ 64 \<Longrightarrow> cw_ok pre [] (chunked_writer_new w bsize)"
  by (auto simp: cw_ok_def chunked_writer_new_def chunks_ok_def intro: exI [of _ "[]"])

text \<open>Once it is finished, the sink holds an encoding of what was accepted.\<close>

lemma cw_finished_decodes:
  assumes "cw_ok pre acc c" "cw_finished c" "18 \<le> cap"
  shows "\<exists>wire. written (cw_writer c) = pre @ wire \<and> dechunk p cap (wire @ rest) = Some (acc, rest)"
proof -
  obtain cs where "chunks_ok cs" "acc = concat cs"
    "written (cw_writer c) = pre @ concat (map chunk cs) @ last_chunk"
    using assms(1,2) by (auto simp: cw_ok_def)
  with dechunk_chunks [OF _ assms(3), of cs p rest] show ?thesis by auto
qed

end

section \<open>Properties\<close>

text \<open>
  C28. Whatever polls of writes and of the shutdown a caller makes, and however the connection
  takes the bytes, \<open>ChunkedWriter\<close> returns from every one without panic, and once the shutdown
  has been polled more often than the connection makes it wait, the writer is finished.
\<close>

theorem chunked_writer_finishes:
  assumes "2 < bsize" "bsize < 2 ^ 64"
  shows "\<exists>acc c. cw_run p script_write script_flush calls (chunked_writer_new (ks, out) bsize) =
      Some (Ok acc, c) \<and> (sink_stalls (ks, out) < shutdowns calls \<longrightarrow> cw_finished c)"
proof -
  have "script_sink.cw_ok out [] (chunked_writer_new (ks, out) bsize)"
    using assms by (intro script_sink.cw_new_ok) simp_all
  from script_sink.cw_run_ok [OF this, of p calls] show ?thesis
    by (auto simp: script_sink.cw_stalls_def chunked_writer_new_def)
qed

theorem chunked_writer_finishes_witness:
  "\<exists>acc c. cw_run Debug script_write script_flush [Cw_Write [1, 2, 3], Cw_Shutdown, Cw_Shutdown]
      (chunked_writer_new ([3, 0, 1], []) 4) = Some (Ok acc, c) \<and> cw_finished c"
  using chunked_writer_finishes [of 4 Debug "[Cw_Write [1, 2, 3], Cw_Shutdown, Cw_Shutdown]" "[3, 0, 1]" "[]"]
  by (simp only: shutdowns_def sink_stalls_def) simp

text \<open>
  C26. The chunked transfer coding is transparent: what \<open>ChunkedWriter\<close> has written when it is
  finished, followed by anything and cut into any pieces, is read by \<open>ChunkedReader\<close> as exactly
  the bytes the writer accepted, and exactly what followed is left.
\<close>

theorem chunked_roundtrip:
  assumes "2 < bsize" "bsize < 2 ^ 64" "18 \<le> cap"
    and run: "cw_run p script_write script_flush calls (chunked_writer_new (ks, []) bsize) =
      Some (Ok acc, c)" "cw_finished c"
    and pieces: "concat pieces = snd (cw_writer c) @ rest"
    and ns: "\<forall>n\<in>set ns. 0 < n" "length acc + script_stalls pieces < length ns"
  shows "\<exists>r. read_polls (chunked_poll_read p script_reader) ns (chunked_new pieces cap pooled) =
      (Ok (acc, True), r) \<and> concat (cr_reader r) = rest"
proof -
  have "script_sink.cw_ok [] [] (chunked_writer_new (ks, []) bsize)"
    using assms(1,2) by (intro script_sink.cw_new_ok) simp_all
  from script_sink.cw_run_ok [OF this, of p calls] run(1) have "script_sink.cw_ok [] acc c" by simp
  from script_sink.cw_finished_decodes [OF this run(2) assms(3), of p rest] pieces
  have "dechunk p cap (concat pieces) = Some (acc, rest)" by simp
  then show ?thesis
    by (rule chunked_reads) (use assms(3) ns in simp_all)
qed

lemma cw_run_example:
  "cw_run Debug script_write script_flush [Cw_Write [1, 2, 3], Cw_Write [3], Cw_Shutdown]
     (chunked_writer_new ([], []) 4) =
   Some (Ok [1, 2, 3], \<lparr>cw_writer = ([], [50, 13, 10, 1, 2, 13, 10, 49, 13, 10, 3, 13, 10, 48, 13, 10, 13, 10]),
     cw_buffer = [3, 13, 10, 10], cw_buffer_pointer = 0, cw_buffer_read_pointer = 0,
     cw_header = [48, 13, 10, 13, 10], cw_header_read_pointer = 5, cw_finishing = True,
     cw_finished = True\<rparr>)"
  by code_simp

theorem chunked_roundtrip_witness:
  "\<exists>r. read_polls (chunked_poll_read Debug script_reader) [2, 2, 2, 2, 2, 2]
      (chunked_new [[50, 13, 10, 1, 2], [], [13, 10, 49, 13, 10, 3, 13, 10, 48], [13, 10, 13, 10, 71]] 512 None) =
      (Ok ([1, 2, 3], True), r) \<and> concat (cr_reader r) = [71]"
  by (rule chunked_roundtrip [OF _ _ _ cw_run_example, where rest = "[71]"])
    (simp_all add: script_stalls_def)

text \<open>
  Flushing a \<open>ChunkedWriter\<close> that holds no bytes sends the chunk of length zero, which is the
  end of the body: a reader stops there and takes whatever the writer sends afterwards for the
  next message.
\<close>

lemma flush_ends_body:
  assumes "2 \<le> bsize" "18 \<le> cap"
  shows "\<exists>c. flush_inner script_write script_flush (chunked_writer_new ([], []) bsize) =
      Some (Ready (Ok ()), c) \<and> \<not> cw_finishing c \<and>
    dechunk p cap (snd (cw_writer c) @ after) = Some ([], after)"
proof -
  let ?c = "chunked_writer_new ([], []) bsize"
  have hex: "to_hex 0 = bytes_of ''0''" by (simp add: to_hex.simps hex_char_def bytes_of_def)
  have loop: "write_loop script_write buf 0 ([], out) = Some (Ready (Ok ()), length buf, [], out @ buf)"
    if "buf \<noteq> []" for buf out
    using that by (simp add: write_loop.simps)
  have "store 0 CRNL (replicate bsize 0) = Ok (overwrite 0 CRNL (replicate bsize 0))"
    using assms(1) by (simp add: store_def CRNL_def)
  moreover have "take (Suc (Suc 0)) (overwrite 0 CRNL (replicate bsize 0)) = CRNL" "CRNL \<noteq> []"
    by (simp_all add: overwrite_def CRNL_def)
  ultimately have "\<exists>c. flush_inner script_write script_flush ?c = Some (Ready (Ok ()), c) \<and>
      \<not> cw_finishing c \<and> snd (cw_writer c) = last_chunk"
    by (simp add: flush_inner_def chunked_writer_new_def create_chunk_def lbind_def hex
        cw_write_header_def cw_write_body_def loop cw_reset_def cw_poll_flush_def last_chunk_def)
  then show ?thesis using dechunk_chunks [OF _ assms(2), of "[]" p after] by (auto simp: chunks_ok_def)
qed

end
