(* ===== verification/H1_Write.thy ===== *)
theory H1_Write
  imports Response
begin

text \<open>
  How the HTTP/1 connection of \<open>src/src/lib.rs\<close> writes: the intermediate \<open>Continue\<close> response,
  \<open>finalize_response\<close>, \<open>write_headers\<close> and \<open>write_body\<close>. The connection's \<open>BufWriter\<close> is a polled
  writer, a parameter; a time limit that passes is a writer that answers with an error. A call
  that is awaited is polled until it is ready: it may not return, so the result is an option.
\<close>

section \<open>Awaited calls\<close>

type_synonym ('s, 'a) awaited = "'s \<Rightarrow> ('a io \<times> 's) option"

definition abind :: "('s, 'a) awaited \<Rightarrow> ('a \<Rightarrow> ('s, 'b) awaited) \<Rightarrow> ('s, 'b) awaited" where
  "abind m k s = (case m s of
     None \<Rightarrow> None
   | Some (Ok a, s') \<Rightarrow> k a s'
   | Some (Err e, s') \<Rightarrow> Some (Err e, s')
   | Some (Panic, s') \<Rightarrow> Some (Panic, s'))"

definition aret :: "'a \<Rightarrow> ('s, 'a) awaited" where "aret a s = Some (Ok a, s)"

lemma abind_simps [simp]:
  "m s = Some (Ok a, s') \<Longrightarrow> abind m k s = k a s'"
  "m s = Some (Err e, s') \<Longrightarrow> abind m k s = Some (Err e, s')"
  "m s = None \<Longrightarrow> abind m k s = None"
  "aret a s = Some (Ok a, s)"
  by (simp_all add: abind_def aret_def)

partial_function (option) await :: "('s, 'a) looping \<Rightarrow> ('s, 'a) awaited" where
  "await m s =
     (case m s of
        None \<Rightarrow> None
      | Some (Ready res, s') \<Rightarrow> Some (res, s')
      | Some (Pending, s') \<Rightarrow> await m s')"

declare await.simps [code]

text \<open>
  \<open>AsyncWriteExt::write_all\<close>: write until nothing is left; a writer that takes nothing of a slice
  that is not empty is an error.
\<close>

partial_function (option) write_all ::
  "(byte list \<Rightarrow> ('s, nat) looping) \<Rightarrow> byte list \<Rightarrow> 's \<Rightarrow> (unit io \<times> 's) option" where
  "write_all wr bs s =
     (if bs = [] then Some (Ok (), s)
      else case wr bs s of
        None \<Rightarrow> None
      | Some (Ready (Ok n), s') \<Rightarrow>
          if n = 0 then Some (Err (IoError WriteZero ''write zero byte into writer''), s')
          else write_all wr (drop n bs) s'
      | Some (Ready (Err e), s') \<Rightarrow> Some (Err e, s')
      | Some (Ready Panic, s') \<Rightarrow> Some (Panic, s')
      | Some (Pending, s') \<Rightarrow> write_all wr bs s')"

declare write_all.simps [code]

definition polled :: "('s, 'a) polled \<Rightarrow> ('s, 'a) looping" where "polled m s = Some (m s)"

abbreviation put :: "'w poll_writer \<Rightarrow> byte list \<Rightarrow> ('w, unit) awaited" where
  "put wr \<equiv> write_all (\<lambda>bs. polled (wr bs))"

fun put_list :: "'w poll_writer \<Rightarrow> byte list list \<Rightarrow> ('w, unit) awaited" where
  "put_list wr [] = aret ()"
| "put_list wr (bs # bss) = abind (put wr bs) (\<lambda>_. put_list wr bss)"

definition flush_writer :: "'w poll_flush \<Rightarrow> ('w, unit) awaited" where
  "flush_writer fl = await (polled fl)"

section \<open>Heads of responses\<close>

text \<open>What HTTP/1 asks of the \<open>http\<close> crate beyond parsing.\<close>

record ('m, 'u, 'n, 'v) h1_crate = "('m, 'u, 'n, 'v) http_crate" +
  c_is_safe :: "'m \<Rightarrow> bool"
  c_to_str :: "'v \<Rightarrow> byte list option"
  c_name_bytes :: "'n \<Rightarrow> byte list"
  c_value_bytes :: "'v \<Rightarrow> byte list"
  c_version_text :: "version \<Rightarrow> byte list"
  c_header :: "byte list \<Rightarrow> 'n"
  c_text :: "byte list \<Rightarrow> 'v"

text \<open>A status: its three digits and the canonical reason, if there is one.\<close>

record status =
  st_code :: "byte list"
  st_reason :: "byte list option"

definition status_continue :: status where
  "status_continue = \<lparr>st_code = bytes_of ''100'', st_reason = Some (bytes_of ''Continue'')\<rparr>"

record 'b body =
  bd_body :: "'b option"
  bd_len :: "nat option"
  bd_finish_on_drop :: bool

definition body_default :: "'b body" where
  "body_default = \<lparr>bd_body = None, bd_len = None, bd_finish_on_drop = False\<rparr>"

record ('n, 'v, 'b) response =
  rs_version :: version
  rs_status :: status
  rs_headers :: "('n \<times> 'v) list"
  rs_body :: "'b body"

definition status_line :: "byte list \<Rightarrow> status \<Rightarrow> byte list list" where
  "status_line version st =
     [version, [SP], st_code st, [SP]] @
     (case st_reason st of Some reason \<Rightarrow> [reason] | None \<Rightarrow> []) @ [CRNL]"

definition write_continue_inner ::
  "('m, 'u, 'n, 'v, 'z) h1_crate_scheme \<Rightarrow> 'w poll_writer \<Rightarrow> 'w poll_flush \<Rightarrow> version \<Rightarrow> ('w, unit) awaited" where
  "write_continue_inner C wr fl version =
     abind (put_list wr (status_line (c_version_text C version) status_continue @ [CRNL])) (\<lambda>_.
     flush_writer fl)"

text \<open>\<open>HeaderMap::insert\<close> replaces the values the name has.\<close>

definition header_insert :: "'n \<Rightarrow> 'v \<Rightarrow> ('n \<times> 'v) list \<Rightarrow> ('n \<times> 'v) list" where
  "header_insert k v hs = filter (\<lambda>h. fst h \<noteq> k) hs @ [(k, v)]"

definition finalize_response ::
  "('m, 'u, 'n, 'v, 'z) h1_crate_scheme \<Rightarrow> ('n, 'v, 'b) response \<Rightarrow> ('n, 'v, 'b) response" where
  "finalize_response C resp =
     (case bd_body (rs_body resp) of
        Some _ \<Rightarrow>
          (case bd_len (rs_body resp) of
             Some len \<Rightarrow> resp\<lparr>rs_headers := header_insert (c_header C (bytes_of ''content-length''))
               (c_text C (to_dec len)) (rs_headers resp)\<rparr>
           | None \<Rightarrow> resp\<lparr>rs_headers := header_insert (c_header C (bytes_of ''transfer-encoding''))
               (c_text C (bytes_of ''chunked'')) (rs_headers resp)\<rparr>)
      | None \<Rightarrow> resp\<lparr>rs_headers := header_insert (c_header C (bytes_of ''content-length''))
          (c_text C (bytes_of ''0'')) (rs_headers resp)\<rparr>)"

definition header_pieces :: "('m, 'u, 'n, 'v, 'z) h1_crate_scheme \<Rightarrow> 'n \<times> 'v \<Rightarrow> byte list list" where
  "header_pieces C h = [c_name_bytes C (fst h), [COLON, SP], c_value_bytes C (snd h), CRNL]"

definition write_headers ::
  "('m, 'u, 'n, 'v, 'z) h1_crate_scheme \<Rightarrow> 'w poll_writer \<Rightarrow> 'w poll_flush \<Rightarrow> ('n, 'v, 'b) response
    \<Rightarrow> ('w, unit) awaited" where
  "write_headers C wr fl resp =
     abind (put_list wr
       (status_line (c_version_text C (rs_version resp)) (rs_status resp) @
        concat (map (header_pieces C) (rs_headers resp)) @ [CRNL])) (\<lambda>_.
     flush_writer fl)"

section \<open>Bodies of responses\<close>

text \<open>
  The loop for a body of known length. A body that ends early makes it read the end again and
  again: the call does not return. \<open>n\<close> is the size of \<open>resp_body_buf\<close>.
\<close>

partial_function (option) write_fixed ::
  "'b reader \<Rightarrow> 'w poll_writer \<Rightarrow> nat \<Rightarrow> nat \<Rightarrow> nat \<Rightarrow> 'b \<times> 'w \<Rightarrow> (unit io \<times> ('b \<times> 'w)) option" where
  "write_fixed rd wr n body_len count s =
     (case s of (b, w) \<Rightarrow>
       if body_len > count
       then case rd n b of
         (Ok bs, b') \<Rightarrow>
           (case put wr bs w of
              None \<Rightarrow> None
            | Some (Ok _, w') \<Rightarrow> write_fixed rd wr n body_len (count + length bs) (b', w')
            | Some (Err e, w') \<Rightarrow> Some (Err e, (b', w'))
            | Some (Panic, w') \<Rightarrow> Some (Panic, (b', w')))
       | (Err e, b') \<Rightarrow> Some (Err e, (b', w))
       | (Panic, b') \<Rightarrow> Some (Panic, (b', w))
       else Some (Ok (), s))"

declare write_fixed.simps [code]

text \<open>The loop for a body of unknown length, over a \<open>ChunkedWriter\<close>.\<close>

partial_function (option) write_chunks ::
  "profile \<Rightarrow> 'b reader \<Rightarrow> 'w poll_writer \<Rightarrow> 'w poll_flush \<Rightarrow> nat \<Rightarrow> 'b \<times> 'w chunked_writer
    \<Rightarrow> (unit io \<times> ('b \<times> 'w chunked_writer)) option" where
  "write_chunks p rd wr fl n s =
     (case s of (b, c) \<Rightarrow>
       case rd n b of
         (Ok bs, b') \<Rightarrow>
           if bs = [] then Some (Ok (), (b', c))
           else (case write_all (write_inner p wr fl) bs c of
              None \<Rightarrow> None
            | Some (Ok _, c') \<Rightarrow> write_chunks p rd wr fl n (b', c')
            | Some (Err e, c') \<Rightarrow> Some (Err e, (b', c'))
            | Some (Panic, c') \<Rightarrow> Some (Panic, (b', c')))
       | (Err e, b') \<Rightarrow> Some (Err e, (b', c))
       | (Panic, b') \<Rightarrow> Some (Panic, (b', c)))"

declare write_chunks.simps [code]

definition on_writer :: "('w, 'a) awaited \<Rightarrow> ('b \<times> 'w, 'a) awaited" where
  "on_writer m s = map_option (\<lambda>(res, w). (res, (fst s, w))) (m (snd s))"

definition with_chunked_writer ::
  "nat \<Rightarrow> ('b \<times> 'w chunked_writer, 'a) awaited \<Rightarrow> ('b \<times> 'w, 'a) awaited" where
  "with_chunked_writer chunked_size m s =
     map_option (\<lambda>(res, (b, c)). (res, (b, cw_writer c)))
       (m (fst s, chunked_writer_new (snd s) chunked_size))"

definition write_body ::
  "profile \<Rightarrow> 'b reader \<Rightarrow> 'w poll_writer \<Rightarrow> 'w poll_flush \<Rightarrow> nat \<Rightarrow> nat \<Rightarrow> 'b body \<Rightarrow> 'w
    \<Rightarrow> (unit io \<times> 'w) option" where
  "write_body p rd wr fl n chunked_size own_body w =
     (case bd_body own_body of
        None \<Rightarrow> Some (Ok (), w)
      | Some body \<Rightarrow>
          map_option (\<lambda>(res, (b, w)). (res, w))
            ((case bd_len own_body of
                Some body_len \<Rightarrow>
                  abind (write_fixed rd wr n body_len 0) (\<lambda>_.
                  abind (on_writer (flush_writer fl)) (\<lambda>_.
                  on_writer (flush_writer fl)))
              | None \<Rightarrow>
                  abind (with_chunked_writer chunked_size
                    (abind (write_chunks p rd wr fl n) (\<lambda>_. on_writer (await (shutdown_inner wr fl))))) (\<lambda>_.
                  on_writer (flush_writer fl))) (body, w)))"

definition write_response ::
  "('m, 'u, 'n, 'v, 'z) h1_crate_scheme \<Rightarrow> profile \<Rightarrow> 'b reader \<Rightarrow> 'w poll_writer \<Rightarrow> 'w poll_flush
    \<Rightarrow> nat \<Rightarrow> nat \<Rightarrow> ('n, 'v, 'b) response \<Rightarrow> ('w, unit) awaited" where
  "write_response C p rd wr fl n chunked_size resp0 =
     (let resp = finalize_response C resp0 in
      abind (write_headers C wr fl resp) (\<lambda>_.
      write_body p rd wr fl n chunked_size (rs_body resp)))"

section \<open>Writing to a sink\<close>

text \<open>The bytes of the head of a response.\<close>

definition head_bytes :: "('m, 'u, 'n, 'v, 'z) h1_crate_scheme \<Rightarrow> ('n, 'v, 'b) response \<Rightarrow> byte list" where
  "head_bytes C resp =
     concat (status_line (c_version_text C (rs_version resp)) (rs_status resp)) @
     concat (map (\<lambda>h. concat (header_pieces C h)) (rs_headers resp)) @ CRNL"

context poll_sink
begin

lemma put_ok:
  "wf w \<Longrightarrow> \<exists>w'. put wr bs w = Some (Ok (), w') \<and> wf w' \<and> written w' = written w @ bs \<and> stalls w' \<le> stalls w"
proof (induction "length bs + stalls w" arbitrary: bs w rule: less_induct)
  case less
  show ?case
  proof (cases "bs = []")
    case True
    then show ?thesis using less.prems by (simp add: write_all.simps)
  next
    case False
    with less.prems show ?thesis
    proof (cases rule: wr_cases)
      case (stall w')
      then have "put wr bs w = put wr bs w'"
        using False by (simp add: write_all.simps [of _ bs w] polled_def)
      with stall less.hyps [of bs w'] show ?thesis by auto
    next
      case (took n w')
      then have "put wr bs w = put wr (drop n bs) w'"
        using False by (simp add: write_all.simps [of _ bs w] polled_def)
      moreover have "length (drop n bs) + stalls w' < length bs + stalls w"
        using took(3,4,6) by simp
      ultimately show ?thesis
        using less.hyps [of "drop n bs" w'] took by auto
    qed
  qed
qed

lemma flush_writer_ok:
  "wf w \<Longrightarrow> \<exists>w'. flush_writer fl w = Some (Ok (), w') \<and> wf w' \<and> written w' = written w \<and> stalls w' \<le> stalls w"
proof (induction "stalls w" arbitrary: w rule: less_induct)
  case less
  from less.prems show ?case
  proof (cases rule: fl_cases)
    case (stall w')
    then show ?thesis
      using less.hyps [of w'] by (auto simp: flush_writer_def await.simps [of _ w] polled_def)
  next
    case (flushed w')
    then show ?thesis by (simp add: flush_writer_def await.simps [of _ w] polled_def)
  qed
qed

lemma put_list_ok:
  "wf w \<Longrightarrow> \<exists>w'. put_list wr bss w = Some (Ok (), w') \<and> wf w' \<and> written w' = written w @ concat bss"
proof (induction bss arbitrary: w)
  case (Cons bs bss)
  obtain w1 where "put wr bs w = Some (Ok (), w1)" "wf w1" "written w1 = written w @ bs"
    using put_ok [OF Cons.prems] by blast
  with Cons.IH [of w1] show ?case by auto
qed simp

lemma write_headers_ok:
  assumes "wf w"
  shows "\<exists>w'. write_headers C wr fl resp w = Some (Ok (), w') \<and> wf w' \<and>
    written w' = written w @ head_bytes C resp"
proof -
  let ?ps = "status_line (c_version_text C (rs_version resp)) (rs_status resp) @
    concat (map (header_pieces C) (rs_headers resp)) @ [CRNL]"
  obtain w1 where w1: "put_list wr ?ps w = Some (Ok (), w1)" "wf w1" "written w1 = written w @ concat ?ps"
    using put_list_ok [OF assms] by blast
  obtain w2 where w2: "flush_writer fl w1 = Some (Ok (), w2)" "wf w2" "written w2 = written w1"
    using flush_writer_ok [OF w1(2)] by blast
  have "concat (concat (map (header_pieces C) hs)) = concat (map (\<lambda>h. concat (header_pieces C h)) hs)" for hs
    by (induction hs) simp_all
  with w1 w2 show ?thesis by (simp add: write_headers_def head_bytes_def)
qed

text \<open>A chunked writer takes whole slices, and a shutdown that is awaited finishes it.\<close>

lemma chunked_write_all_ok:
  "cw_ok pre acc c \<Longrightarrow> \<not> cw_finishing c \<Longrightarrow> \<not> cw_finished c \<Longrightarrow>
   \<exists>c'. write_all (write_inner p wr fl) bs c = Some (Ok (), c') \<and> cw_ok pre (acc @ bs) c' \<and>
     \<not> cw_finishing c' \<and> \<not> cw_finished c'"
proof (induction "length bs + cw_stalls c" arbitrary: bs acc c rule: less_induct)
  case less
  show ?case
  proof (cases "bs = []")
    case True
    then show ?thesis using less.prems by (simp add: write_all.simps)
  next
    case False
    from less.prems show ?thesis
    proof (cases rule: write_inner_ok [where p = p and buf = bs])
      case (stall c')
      then have "write_all (write_inner p wr fl) bs c = write_all (write_inner p wr fl) bs c'"
        using False by (simp add: write_all.simps [of _ bs c])
      with stall less.hyps [of bs c' acc] show ?thesis by simp
    next
      case (took n c')
      then have "0 < n" using False by simp
      then have "write_all (write_inner p wr fl) bs c = write_all (write_inner p wr fl) (drop n bs) c'"
        using took(1) False by (simp add: write_all.simps [of _ bs c])
      moreover have "length (drop n bs) + cw_stalls c' < length bs + cw_stalls c"
        using took(3,7) \<open>0 < n\<close> by simp
      ultimately show ?thesis
        using less.hyps [of "drop n bs" c' "acc @ take n bs"] took by auto
    qed
  qed
qed

lemma chunked_shutdown_ok:
  "cw_ok pre acc c \<Longrightarrow> \<not> cw_finished c \<Longrightarrow>
   \<exists>c'. await (shutdown_inner wr fl) c = Some (Ok (), c') \<and> cw_ok pre acc c' \<and> cw_finished c'"
proof (induction "cw_stalls c" arbitrary: c rule: less_induct)
  case less
  obtain res c' where c': "shutdown_inner wr fl c = Some (res, c')" "cw_ok pre acc c'"
    "res = Pending \<and> cw_stalls c' < cw_stalls c \<and> \<not> cw_finished c' \<or>
     res = Ready (Ok ()) \<and> cw_stalls c' \<le> cw_stalls c \<and> cw_finished c'"
    using shutdown_inner_ok [OF less.prems] by blast
  from c'(3) show ?case
  proof
    assume "res = Pending \<and> cw_stalls c' < cw_stalls c \<and> \<not> cw_finished c'"
    with c' less.hyps [of c'] show ?thesis by (simp add: await.simps [of _ c])
  next
    assume "res = Ready (Ok ()) \<and> cw_stalls c' \<le> cw_stalls c \<and> cw_finished c'"
    with c' show ?thesis by (simp add: await.simps [of _ c])
  qed
qed

text \<open>
  A body of known length: what is written is a prefix of the body that reaches the announced
  length, and may go past it by less than a buffer.
\<close>

lemma write_fixed_ok:
  assumes rd: "byte_source rd pend" and n: "0 < n"
  shows "wf w \<Longrightarrow> l \<le> count + length (pend b) \<Longrightarrow>
    \<exists>b' w' xs. write_fixed rd wr n l count (b, w) = Some (Ok (), (b', w')) \<and> wf w' \<and>
      pend b = xs @ pend b' \<and> written w' = written w @ xs \<and> l \<le> count + length xs \<and>
      (count + length xs < l + n \<or> xs = [])"
proof (induction "length (pend b)" arbitrary: b w count rule: less_induct)
  case less
  show ?case
  proof (cases "l \<le> count")
    case True
    then show ?thesis using less.prems by (auto simp: write_fixed.simps [of rd wr n l count])
  next
    case False
    then have "pend b \<noteq> []" using less.prems(2) by auto
    then obtain bs b1 where b1: "rd n b = (Ok bs, b1)" "length bs \<le> n" "pend b = bs @ pend b1" "bs \<noteq> []"
      using byte_source.read_spec [OF rd, of n b] n by blast
    obtain w1 where w1: "put wr bs w = Some (Ok (), w1)" "wf w1" "written w1 = written w @ bs"
      using put_ok [OF less.prems(1)] by blast
    have step: "write_fixed rd wr n l count (b, w) = write_fixed rd wr n l (count + length bs) (b1, w1)"
      using False b1(1) w1(1) by (simp add: write_fixed.simps [of rd wr n l count])
    have "length (pend b1) < length (pend b)" using b1(3,4) by simp
    from less.hyps [OF this w1(2), of "count + length bs"] less.prems(2) b1(3)
    obtain b2 w2 xs where "write_fixed rd wr n l (count + length bs) (b1, w1) = Some (Ok (), (b2, w2))"
      "wf w2" "pend b1 = xs @ pend b2" "written w2 = written w1 @ xs" "l \<le> count + length bs + length xs"
      "count + length bs + length xs < l + n \<or> xs = []"
      by auto
    moreover have "count + length bs < l + n" using False b1(2) by simp
    ultimately show ?thesis
      using step b1(3) w1(3) by (intro exI [of _ b2] exI [of _ w2] exI [of _ "bs @ xs"]) auto
  qed
qed

text \<open>A body that is shorter than announced: the loop goes on for ever.\<close>

lemma write_fixed_short:
  assumes rd: "byte_source rd pend" and w: "wf w" and short: "count + length (pend b) < l"
  shows "write_fixed rd wr n l count (b, w) = None"
proof (rule ccontr)
  assume "write_fixed rd wr n l count (b, w) \<noteq> None"
  then obtain y where y: "write_fixed rd wr n l count (b, w) = Some y" by blast
  have "\<not> (rd = rd \<and> wr = wr \<and> wf (snd (b, w)) \<and> count + length (pend (fst (b, w))) < l)"
  proof (rule write_fixed.raw_induct [where P = "\<lambda>rd' wr' n l count s y. \<not> (rd' = rd \<and> wr' = wr \<and>
      wf (snd s) \<and> count + length (pend (fst s)) < l)", OF _ y], goal_cases)
    case (1 f rd' wr' n l count s y)
    show ?case
    proof (intro notI)
      assume asm: "rd' = rd \<and> wr' = wr \<and> wf (snd s) \<and> count + length (pend (fst s)) < l"
      obtain b w where s: "s = (b, w)" by fastforce
      obtain bs b1 where b1: "rd n b = (Ok bs, b1)" "pend b = bs @ pend b1"
        using byte_source.read_spec [OF rd, of n b] by blast
      obtain w1 where w1: "put wr bs w = Some (Ok (), w1)" "wf w1"
        using put_ok asm s by fastforce
      from 1(2) have "f rd wr n l (count + length bs) (b1, w1) = Some y"
        using asm b1(1) w1(1) s by simp
      from 1(1) [OF this] show False using asm b1(2) w1(2) s by simp
    qed
  qed
  with w short show False by simp
qed

lemma write_chunks_ok:
  assumes rd: "byte_source rd pend" and n: "0 < n"
  shows "cw_ok pre acc c \<Longrightarrow> \<not> cw_finishing c \<Longrightarrow> \<not> cw_finished c \<Longrightarrow>
    \<exists>b' c'. write_chunks p rd wr fl n (b, c) = Some (Ok (), (b', c')) \<and> cw_ok pre (acc @ pend b) c' \<and>
      \<not> cw_finished c'"
proof (induction "length (pend b)" arbitrary: b c acc rule: less_induct)
  case less
  obtain bs b1 where b1: "rd n b = (Ok bs, b1)" "pend b = bs @ pend b1" "pend b \<noteq> [] \<longrightarrow> bs \<noteq> []"
    using byte_source.read_spec [OF rd, of n b] n by blast
  show ?case
  proof (cases "bs = []")
    case True
    with b1 less.prems show ?thesis by (simp add: write_chunks.simps [of p rd wr fl n])
  next
    case False
    obtain c1 where c1: "write_all (write_inner p wr fl) bs c = Some (Ok (), c1)"
      "cw_ok pre (acc @ bs) c1" "\<not> cw_finishing c1" "\<not> cw_finished c1"
      using chunked_write_all_ok [OF less.prems] by blast
    have "write_chunks p rd wr fl n (b, c) = write_chunks p rd wr fl n (b1, c1)"
      using False b1(1) c1(1) by (simp add: write_chunks.simps [of p rd wr fl n "(b, c)"])
    moreover have "length (pend b1) < length (pend b)" using b1(2) False by simp
    ultimately show ?thesis using less.hyps [OF _ c1(2-4)] b1(2) by simp
  qed
qed

lemma write_body_fixed:
  assumes rd: "byte_source rd pend" and n: "0 < n" and w: "wf w" and l: "l \<le> length (pend b)"
    and body: "bd_body body = Some b" "bd_len body = Some l"
  shows "\<exists>w' xs ys. write_body p rd wr fl n sz body w = Some (Ok (), w') \<and> wf w' \<and> pend b = xs @ ys \<and>
    written w' = written w @ xs \<and> l \<le> length xs \<and> (length xs < l + n \<or> xs = [])"
proof -
  obtain b1 w1 xs where w1: "write_fixed rd wr n l 0 (b, w) = Some (Ok (), (b1, w1))" "wf w1"
    "pend b = xs @ pend b1" "written w1 = written w @ xs" "l \<le> length xs" "length xs < l + n \<or> xs = []"
    using write_fixed_ok [OF rd n w, of l 0 b] l by auto
  obtain w2 where w2: "flush_writer fl w1 = Some (Ok (), w2)" "wf w2" "written w2 = written w1"
    using flush_writer_ok [OF w1(2)] by blast
  obtain w3 where w3: "flush_writer fl w2 = Some (Ok (), w3)" "wf w3" "written w3 = written w2"
    using flush_writer_ok [OF w2(2)] by blast
  from w1 w2 w3 body show ?thesis
    by (auto simp: write_body_def on_writer_def)
qed

lemma write_body_chunked:
  assumes rd: "byte_source rd pend" and n: "0 < n" and w: "wf w" and size: "2 < sz" "sz < 2 ^ 64"
    and body: "bd_body body = Some b" "bd_len body = None"
  shows "\<exists>w' wire. write_body p rd wr fl n sz body w = Some (Ok (), w') \<and> wf w' \<and>
    written w' = written w @ wire \<and> (\<forall>rest. dechunk p 18 (wire @ rest) = Some (pend b, rest))"
proof -
  let ?c = "chunked_writer_new w sz"
  have c: "cw_ok (written w) [] ?c" "\<not> cw_finishing ?c" "\<not> cw_finished ?c"
    using cw_new_ok [OF w refl size] by (simp_all add: chunked_writer_new_def)
  obtain b1 c1 where c1: "write_chunks p rd wr fl n (b, ?c) = Some (Ok (), (b1, c1))"
    "cw_ok (written w) (pend b) c1" "\<not> cw_finished c1"
    using write_chunks_ok [OF rd n c, where b = b and p = p] by auto
  obtain c2 where c2: "await (shutdown_inner wr fl) c1 = Some (Ok (), c2)"
    "cw_ok (written w) (pend b) c2" "cw_finished c2"
    using chunked_shutdown_ok [OF c1(2,3)] by blast
  have wf2: "wf (cw_writer c2)" using c2(2) by (simp add: cw_ok_def)
  obtain w3 where w3: "flush_writer fl (cw_writer c2) = Some (Ok (), w3)" "wf w3"
    "written w3 = written (cw_writer c2)"
    using flush_writer_ok [OF wf2] by blast
  obtain wire where wire: "written (cw_writer c2) = written w @ wire"
    using cw_finished_decodes [OF c2(2,3), of 18] by auto
  have "dechunk p 18 (wire @ rest) = Some (pend b, rest)" for rest
    using cw_finished_decodes [OF c2(2,3), of 18 p rest] wire by auto
  with c1 c2 w3 wire body show ?thesis
    by (auto simp: write_body_def on_writer_def with_chunked_writer_def)
qed

end

section \<open>Properties\<close>

text \<open>
  A response is delivered: the head, with the \<open>content-length\<close> or the \<open>transfer-encoding\<close> that
  the body asks for, then the body. A body of the announced length goes out as it is; a body of
  unknown length goes out in chunks that any reader of the chunked coding decodes to it. It
  holds for every way the body's reader cuts the bytes and the connection takes them.
\<close>

lemma response_delivered:
  assumes body: "rs_body resp = \<lparr>bd_body = Some pieces, bd_len = len, bd_finish_on_drop = fin\<rparr>"
      "len = None \<or> len = Some (length (concat pieces))"
    and size: "0 < n" "2 < sz" "sz < 2 ^ 64"
  shows "\<exists>ks' payload. write_response C p chunk_reader script_write script_flush n sz resp (ks, out) =
      Some (Ok (), (ks', out @ head_bytes C (finalize_response C resp) @ payload)) \<and>
    (if len = None then \<forall>rest. dechunk p 18 (payload @ rest) = Some (concat pieces, rest)
     else payload = concat pieces)"
proof -
  let ?resp = "finalize_response C resp"
  have same: "rs_body ?resp = rs_body resp"
    by (simp add: finalize_response_def split: option.split)
  obtain w1 where w1: "write_headers C script_write script_flush ?resp (ks, out) = Some (Ok (), w1)"
    "snd w1 = out @ head_bytes C ?resp"
    using script_sink.write_headers_ok [where w = "(ks, out)" and C = C and resp = ?resp] by auto
  show ?thesis
  proof (cases len)
    case None
    with script_sink.write_body_chunked [OF chunk_source.byte_source_axioms size(1) _ size(2,3),
        where w = w1 and body = "rs_body resp" and b = pieces and p = p]
    obtain w2 wire where "write_body p chunk_reader script_write script_flush n sz (rs_body resp) w1 =
        Some (Ok (), w2)" "snd w2 = snd w1 @ wire" "\<forall>rest. dechunk p 18 (wire @ rest) = Some (concat pieces, rest)"
      using body by auto
    with w1 same None show ?thesis by (cases w2) (auto simp: write_response_def Let_def)
  next
    case (Some l)
    with script_sink.write_body_fixed [OF chunk_source.byte_source_axioms size(1),
        where w = w1 and l = l and body = "rs_body resp" and b = pieces and p = p and sz = sz]
    obtain w2 xs ys where "write_body p chunk_reader script_write script_flush n sz (rs_body resp) w1 =
        Some (Ok (), w2)" "snd w2 = snd w1 @ xs" "concat pieces = xs @ ys" "l \<le> length xs"
      using body by auto
    with w1 same Some body show ?thesis by (cases w2) (auto simp: write_response_def Let_def)
  qed
qed

definition ascii_crate :: "(byte list, byte list, byte list, byte list) h1_crate" where
  "ascii_crate = \<lparr>c_method = Some, c_uri = Some, c_name = Some, c_value = Some,
     c_is_connect = (\<lambda>_. False), c_get = bytes_of ''GET'', c_root = bytes_of ''/'',
     c_is_safe = (\<lambda>m. m = bytes_of ''GET''), c_to_str = Some, c_name_bytes = id, c_value_bytes = id,
     c_version_text = (\<lambda>_. bytes_of ''HTTP/1.1''), c_header = id, c_text = id\<rparr>"

definition status_ok :: status where
  "status_ok = \<lparr>st_code = bytes_of ''200'', st_reason = Some (bytes_of ''OK'')\<rparr>"

definition plain_response :: "nat option \<Rightarrow> 'b \<Rightarrow> (byte list, byte list, 'b) response" where
  "plain_response len b = \<lparr>rs_version = HTTP_11, rs_status = status_ok, rs_headers = [],
     rs_body = \<lparr>bd_body = Some b, bd_len = len, bd_finish_on_drop = False\<rparr>\<rparr>"



end
