(* ===== verification/Rust_Str.thy ===== *)
theory Rust_Str
  imports Prelude
begin

text \<open>
  The methods of Rust's \<open>str\<close> that the utilities use, on lists of characters or bytes:
  \<open>strip_prefix\<close>, \<open>strip_suffix\<close>, \<open>trim_start_matches\<close>, \<open>contains\<close> and \<open>split\<close> at a character.
\<close>

definition strip_prefix :: "'a list \<Rightarrow> 'a list \<Rightarrow> 'a list option" where
  "strip_prefix ps xs = (if take (length ps) xs = ps then Some (drop (length ps) xs) else None)"

definition strip_suffix :: "'a list \<Rightarrow> 'a list \<Rightarrow> 'a list option" where
  "strip_suffix ss xs = map_option rev (strip_prefix (rev ss) (rev xs))"

definition starts_with :: "'a list \<Rightarrow> 'a list \<Rightarrow> bool" where
  "starts_with ps xs \<longleftrightarrow> take (length ps) xs = ps"

fun contains :: "'a list \<Rightarrow> 'a list \<Rightarrow> bool" where
  "contains ps [] \<longleftrightarrow> ps = []"
| "contains ps (x # xs) \<longleftrightarrow> starts_with ps (x # xs) \<or> contains ps xs"

text \<open>\<open>split\<close> keeps empty parts: the empty text has one part.\<close>

fun split_on :: "'a \<Rightarrow> 'a list \<Rightarrow> 'a list list" where
  "split_on c [] = [[]]"
| "split_on c (x # xs) =
     (if x = c then [] # split_on c xs
      else case split_on c xs of [] \<Rightarrow> [[x]] | t # ts \<Rightarrow> (x # t) # ts)"

text \<open>The text that has the given parts.\<close>

fun join :: "'a \<Rightarrow> 'a list list \<Rightarrow> 'a list" where
  "join c [] = []"
| "join c [t] = t"
| "join c (t # u # ts) = t @ c # join c (u # ts)"

lemma strip_prefix_Some [simp]: "strip_prefix ps xs = Some r \<longleftrightarrow> xs = ps @ r"
  by (auto simp: strip_prefix_def) (metis append_take_drop_id)

lemma strip_prefix_append [simp]: "strip_prefix ps (ps @ r) = Some r"
  by simp

lemma strip_suffix_Some [simp]: "strip_suffix ss xs = Some r \<longleftrightarrow> xs = r @ ss"
  by (auto simp: strip_suffix_def rev_swap)

lemma strip_suffix_None: "strip_suffix ss xs = None \<longleftrightarrow> (\<nexists>r. xs = r @ ss)"
  by (metis option.exhaust option.distinct(1) strip_suffix_Some)

lemma strip_prefix_None: "strip_prefix ps xs = None \<longleftrightarrow> (\<nexists>r. xs = ps @ r)"
  by (metis option.exhaust option.distinct(1) strip_prefix_Some)

lemma starts_with_iff: "starts_with ps xs \<longleftrightarrow> (\<exists>r. xs = ps @ r)"
  by (auto simp: starts_with_def) (metis append_take_drop_id)

lemma starts_with_char: "starts_with [c] xs \<longleftrightarrow> (\<exists>r. xs = c # r)"
  by (simp add: starts_with_iff)

lemma contains_iff: "contains ps xs \<longleftrightarrow> (\<exists>a b. xs = a @ ps @ b)"
proof (induction xs)
  case (Cons x xs)
  show ?case
  proof (cases "starts_with ps (x # xs)")
    case True
    then show ?thesis by (auto simp: starts_with_iff intro: exI [of _ "[]"])
  next
    case False
    then have "(\<exists>a b. x # xs = a @ ps @ b) \<longleftrightarrow> (\<exists>a b. xs = a @ ps @ b)"
      by (auto simp: starts_with_iff Cons_eq_append_conv)
    then show ?thesis using Cons.IH False by simp
  qed
qed simp

lemma split_on_neq_Nil [simp]: "split_on c xs \<noteq> []"
  by (induction xs) (auto split: list.splits)

lemma join_Cons: "ts \<noteq> [] \<Longrightarrow> join c (t # ts) = t @ c # join c ts"
  by (cases ts) auto

lemma split_on_no: "c \<notin> set xs \<Longrightarrow> split_on c xs = [xs]"
  by (induction xs) auto

lemma split_on_append: "c \<notin> set t \<Longrightarrow> split_on c (t @ c # xs) = t # split_on c xs"
  by (induction t) auto

text \<open>\<open>split\<close> finds the one way to write a text as parts without the separator.\<close>

lemma split_on_eq:
  "split_on c xs = ts \<longleftrightarrow> ts \<noteq> [] \<and> xs = join c ts \<and> (\<forall>t\<in>set ts. c \<notin> set t)"
proof
  show "ts \<noteq> [] \<and> xs = join c ts \<and> (\<forall>t\<in>set ts. c \<notin> set t)" if "split_on c xs = ts"
    using that
  proof (induction xs arbitrary: ts)
    case (Cons x xs)
    show ?case
    proof (cases "x = c")
      case True
      with Cons show ?thesis by (auto simp: join_Cons)
    next
      case False
      obtain t us where "split_on c xs = t # us" by (meson list.exhaust split_on_neq_Nil)
      with False Cons.prems Cons.IH [of "t # us"] show ?thesis
        by (cases us) auto
    qed
  qed auto
  show "split_on c xs = ts" if "ts \<noteq> [] \<and> xs = join c ts \<and> (\<forall>t\<in>set ts. c \<notin> set t)"
    using that
  proof (induction ts arbitrary: xs)
    case (Cons t ts)
    then show ?case
      by (cases "ts = []") (auto simp: join_Cons split_on_append split_on_no)
  qed simp
qed

end
