(* ===== verification/Byte_Ranges.thy ===== *)
theory Byte_Ranges
  imports Rust_Str Request
begin

text \<open>
  \<open>src/src/util/byterange.rs\<close>: the parser of the \<open>Range\<close> header. A number is a \<open>u64\<close>, read by
  \<open>str::parse\<close>.
\<close>

record byte_range =
  br_begin :: "nat option"
  br_end :: "nat option"

definition COMMA :: byte where "COMMA = 44"
definition DASH :: byte where "DASH = 45"
definition RANGE_UNIT :: "byte list" where "RANGE_UNIT = bytes_of ''bytes=''"

text \<open>\<open>Err(())\<close> of \<open>from_str\<close>.\<close>

type_synonym 'a parsed_range = "('a, unit) outcome"

definition parse_u64 :: "byte list \<Rightarrow> nat parsed_range" where
  "parse_u64 bs = ok_or () (parse_usize bs)"

text \<open>One turn of the loop over the parts.\<close>

definition parse_range :: "byte list \<Rightarrow> byte_range parsed_range" where
  "parse_range part =
     (if part = [] then Err ()
      else let parts = split_on DASH part in
        if length parts \<noteq> 2 then Err ()
        else obind (obind (parse_u64 (parts ! 0)) (\<lambda>b. Ok (Some b))) (\<lambda>begin_at.
          obind (if parts ! 1 = [] then Ok None else obind (parse_u64 (parts ! 1)) (\<lambda>e. Ok (Some e)))
            (\<lambda>end_at.
          case (end_at, begin_at) of
            (Some e, Some b) \<Rightarrow>
              if b > e then Err () else Ok \<lparr>br_begin = begin_at, br_end = end_at\<rparr>
          | _ \<Rightarrow> Ok \<lparr>br_begin = begin_at, br_end = end_at\<rparr>)))"

fun parse_ranges :: "byte_range list \<Rightarrow> byte list list \<Rightarrow> byte_range list parsed_range" where
  "parse_ranges store [] = Ok store"
| "parse_ranges store (part # parts) =
     obind (parse_range part) (\<lambda>r. parse_ranges (store @ [r]) parts)"

definition byte_ranges_from_str :: "byte list \<Rightarrow> byte_range list parsed_range" where
  "byte_ranges_from_str s =
     (if s = [] then Err ()
      else case strip_prefix RANGE_UNIT s of
        Some s' \<Rightarrow> parse_ranges [] (split_on COMMA s')
      | None \<Rightarrow> Err ())"

section \<open>What is accepted\<close>

text \<open>The text \<open>t\<close> spells the range \<open>r\<close>.\<close>

definition spells :: "byte list \<Rightarrow> byte_range \<Rightarrow> bool" where
  "spells t r \<longleftrightarrow> (\<exists>first last_part b. t = first @ DASH # last_part \<and> parse_usize first = Some b \<and>
     br_begin r = Some b \<and>
     (if last_part = [] then br_end r = None
      else \<exists>e. parse_usize last_part = Some e \<and> b \<le> e \<and> br_end r = Some e))"

text \<open>A number holds neither a comma nor a dash.\<close>

lemma number_bytes:
  assumes "parse_usize bs = Some n"
  shows "DASH \<notin> set bs" "COMMA \<notin> set bs" "bs \<noteq> []"
  using assms
  by (fastforce simp: parse_usize_Some DASH_def COMMA_def list_all_iff word_le_nat_alt)+

lemma spells_no_comma: "spells t r \<Longrightarrow> COMMA \<notin> set t"
  by (auto simp: spells_def number_bytes COMMA_def DASH_def split: if_splits)
    (auto dest: number_bytes simp: COMMA_def)

lemma two_parts: "length ps = 2 \<longleftrightarrow> (\<exists>x y. ps = [x, y])"
  by (auto simp: numeral_2_eq_2 length_Suc_conv)

lemma parse_range_parts:
  assumes "split_on DASH t = [x, y]"
  shows "parse_range t = obind (parse_u64 x) (\<lambda>b.
    if y = [] then Ok \<lparr>br_begin = Some b, br_end = None\<rparr>
    else obind (parse_u64 y) (\<lambda>e.
      if b > e then Err () else Ok \<lparr>br_begin = Some b, br_end = Some e\<rparr>))"
proof -
  have "t \<noteq> []" using assms by auto
  with assms show ?thesis
    by (cases "parse_u64 x"; cases "parse_u64 y") (simp_all add: parse_range_def)
qed

lemma parse_range_Ok: "parse_range t = Ok r \<longleftrightarrow> spells t r"
proof
  assume ok: "parse_range t = Ok r"
  then obtain x y where parts: "split_on DASH t = [x, y]"
    by (auto simp: parse_range_def Let_def two_parts split: if_splits)
  then have "t = x @ DASH # y" by (simp add: split_on_eq)
  moreover obtain b where b: "parse_usize x = Some b"
    using ok unfolding parse_range_parts [OF parts] by (auto simp: parse_u64_def)
  moreover have "br_begin r = Some b"
      "if y = [] then br_end r = None else \<exists>e. parse_usize y = Some e \<and> b \<le> e \<and> br_end r = Some e"
    using ok b unfolding parse_range_parts [OF parts]
    by (auto simp: parse_u64_def split: if_splits)
  ultimately show "spells t r" unfolding spells_def by blast
next
  assume "spells t r"
  then obtain x y b where t: "t = x @ DASH # y" "parse_usize x = Some b" "br_begin r = Some b"
    "if y = [] then br_end r = None else \<exists>e. parse_usize y = Some e \<and> b \<le> e \<and> br_end r = Some e"
    by (auto simp: spells_def)
  then have "DASH \<notin> set x" "DASH \<notin> set y"
    by (auto split: if_splits dest: number_bytes)
  with t(1) have "split_on DASH t = [x, y]" by (simp add: split_on_eq)
  from parse_range_parts [OF this] t show "parse_range t = Ok r"
    by (cases r) (auto simp: parse_u64_def split: if_splits intro!: exI [of _ "the (br_end r)"])
qed

lemma parse_ranges_Ok:
  "parse_ranges store ts = Ok rs \<longleftrightarrow> (\<exists>new. rs = store @ new \<and> list_all2 spells ts new)"
proof (induction ts arbitrary: store)
  case (Cons t ts)
  show ?case
    by (auto simp: Cons.IH parse_range_Ok list_all2_Cons1)
qed auto

lemma parse_ranges_err: "parse_ranges store ts \<noteq> Panic"
proof (induction ts arbitrary: store)
  case (Cons t ts)
  have "parse_range t \<noteq> Panic"
    by (auto simp: parse_range_def Let_def parse_u64_def obind_neq_Panic split: option.splits)
  with Cons show ?case by (auto simp: obind_neq_Panic)
qed simp

text \<open>The text of a range, as a client writes it.\<close>

definition range_text :: "nat \<times> nat option \<Rightarrow> byte list" where
  "range_text r = to_dec (fst r) @ DASH # (case snd r of None \<Rightarrow> [] | Some e \<Rightarrow> to_dec e)"

definition range_of :: "nat \<times> nat option \<Rightarrow> byte_range" where
  "range_of r = \<lparr>br_begin = Some (fst r), br_end = snd r\<rparr>"

definition range_ok :: "nat \<times> nat option \<Rightarrow> bool" where
  "range_ok r \<longleftrightarrow> fst r < 2 ^ 64 \<and> (case snd r of None \<Rightarrow> True | Some e \<Rightarrow> fst r \<le> e \<and> e < 2 ^ 64)"

lemma range_text_spells: "range_ok r \<Longrightarrow> spells (range_text r) (range_of r)"
  unfolding spells_def range_text_def range_of_def range_ok_def
  by (intro exI [of _ "to_dec (fst r)"]
      exI [of _ "case snd r of None \<Rightarrow> [] | Some e \<Rightarrow> to_dec e"] exI [of _ "fst r"])
    (auto simp: parse_usize_to_dec to_dec split: option.splits)

lemma from_str_Ok:
  "byte_ranges_from_str s = Ok rs \<longleftrightarrow>
   (\<exists>ts. ts \<noteq> [] \<and> s = RANGE_UNIT @ join COMMA ts \<and> list_all2 spells ts rs)"
proof -
  have no_comma: "\<forall>t\<in>set ts. COMMA \<notin> set t" if "list_all2 spells ts rs" for ts
  proof
    fix t
    assume "t \<in> set ts"
    with that obtain r where "spells t r" by (auto simp: in_set_conv_nth list_all2_conv_all_nth)
    then show "COMMA \<notin> set t" by (rule spells_no_comma)
  qed
  have "byte_ranges_from_str s = Ok rs \<longleftrightarrow>
      (\<exists>s'. s = RANGE_UNIT @ s' \<and> list_all2 spells (split_on COMMA s') rs)"
    by (auto simp: byte_ranges_from_str_def parse_ranges_Ok RANGE_UNIT_def bytes_of_def
        strip_prefix_None split: option.splits)
  also have "\<dots> \<longleftrightarrow> (\<exists>ts. ts \<noteq> [] \<and> s = RANGE_UNIT @ join COMMA ts \<and> list_all2 spells ts rs)"
    by (metis no_comma split_on_eq)
  finally show ?thesis .
qed

section \<open>Properties\<close>

text \<open>
  C40. The parser of the \<open>Range\<close> header accepts exactly \<open>bytes=\<close> followed by one or more ranges
  between commas, each a first byte, a dash and optionally a last byte not below the first one,
  and returns these ranges in order. Every other text is an error and none a panic. So the
  suffix range of RFC 9110, which has no first byte, is an error, although the type has a place
  for it.
\<close>

theorem byte_ranges_accepted_iff:
  "(byte_ranges_from_str s = Ok rs \<longleftrightarrow>
     (\<exists>ts. ts \<noteq> [] \<and> s = RANGE_UNIT @ join COMMA ts \<and> list_all2 spells ts rs)) \<and>
   byte_ranges_from_str s \<noteq> Panic \<and> byte_ranges_from_str (RANGE_UNIT @ DASH # s) = Err ()"
proof -
  have "byte_ranges_from_str s \<noteq> Panic" for s
    by (auto simp: byte_ranges_from_str_def parse_ranges_err split: option.split)
  moreover have "byte_ranges_from_str (RANGE_UNIT @ DASH # s) \<noteq> Ok rs" for rs
  proof
    assume "byte_ranges_from_str (RANGE_UNIT @ DASH # s) = Ok rs"
    then obtain t ts where "list_all2 spells (t # ts) rs" "DASH # s = join COMMA (t # ts)"
      by (auto simp: from_str_Ok neq_Nil_conv)
    then obtain x y b where t: "t = x @ DASH # y" "parse_usize x = Some b"
      by (auto simp: list_all2_Cons1 spells_def)
    moreover obtain tail where "DASH # s = t @ tail"
      using \<open>DASH # s = join COMMA (t # ts)\<close> by (cases ts) auto
    ultimately show False using number_bytes [of x b] by (cases x) auto
  qed
  ultimately show ?thesis
    by (metis (full_types) from_str_Ok old.unit.exhaust outcome.exhaust)
qed

text \<open>Ranges that were written are read back.\<close>

lemma byte_ranges_roundtrip:
  assumes "rs \<noteq> []" "\<forall>r\<in>set rs. range_ok r"
  shows "byte_ranges_from_str (RANGE_UNIT @ join COMMA (map range_text rs)) = Ok (map range_of rs)"
  unfolding from_str_Ok
  by (intro exI [of _ "map range_text rs"])
    (use assms in \<open>auto simp: list_all2_conv_all_nth range_text_spells\<close>)

end
