(* ===== verification/Http_Request.thy ===== *)
theory Http_Request
  imports H1_Write Byte_Ranges
begin

text \<open>
  The extension trait \<open>HttpRequest\<close> of \<open>src/src/request.rs\<close>, the lookups of headers a handler
  makes, and \<open>HttpError\<close> of \<open>src/src/lib.rs\<close>. A header map is the list of its headers in order;
  parsing a date is a parameter.
\<close>

section \<open>Errors of handlers\<close>

record http_error =
  he_status :: status
  he_close :: bool

definition http_error_from_status :: "status \<Rightarrow> http_error" where
  "http_error_from_status st = \<lparr>he_status = st, he_close = False\<rparr>"

definition status_bad_request :: status where
  "status_bad_request = \<lparr>st_code = bytes_of ''400'', st_reason = Some (bytes_of ''Bad Request'')\<rparr>"
definition status_forbidden :: status where
  "status_forbidden = \<lparr>st_code = bytes_of ''403'', st_reason = Some (bytes_of ''Forbidden'')\<rparr>"
definition status_not_found :: status where
  "status_not_found = \<lparr>st_code = bytes_of ''404'', st_reason = Some (bytes_of ''Not Found'')\<rparr>"
definition status_server_error :: status where
  "status_server_error = \<lparr>st_code = bytes_of ''500'', st_reason = Some (bytes_of ''Internal Server Error'')\<rparr>"

fun status_of_kind :: "error_kind \<Rightarrow> status" where
  "status_of_kind InvalidData = status_bad_request"
| "status_of_kind NotFound = status_not_found"
| "status_of_kind PermissionDenied = status_forbidden"
| "status_of_kind _ = status_server_error"

definition http_error_from_io :: "io_error \<Rightarrow> http_error" where
  "http_error_from_io err = \<lparr>he_status = status_of_kind (kind err), he_close = False\<rparr>"

section \<open>Headers\<close>

definition headers_get_all ::
  "('m, 'u, 'n, 'v, 'z) h1_crate_scheme \<Rightarrow> byte list \<Rightarrow> ('n \<times> 'v) list \<Rightarrow> 'v list" where
  "headers_get_all C name hs = map snd (filter (\<lambda>h. fst h = c_header C name) hs)"

definition headers_get ::
  "('m, 'u, 'n, 'v, 'z) h1_crate_scheme \<Rightarrow> byte list \<Rightarrow> ('n \<times> 'v) list \<Rightarrow> 'v option" where
  "headers_get C name hs = (case headers_get_all C name hs of [] \<Rightarrow> None | v # _ \<Rightarrow> Some v)"

definition get_header ::
  "('m, 'u, 'n, 'v, 'z) h1_crate_scheme \<Rightarrow> byte list \<Rightarrow> ('n \<times> 'v) list \<Rightarrow> byte list option" where
  "get_header C name hs = (case headers_get C name hs of Some v \<Rightarrow> c_to_str C v | None \<Rightarrow> None)"

text \<open>\<open>Vec<String>::join\<close> with a separator.\<close>

fun join_with :: "byte list \<Rightarrow> byte list list \<Rightarrow> byte list" where
  "join_with sep [] = []"
| "join_with sep [t] = t"
| "join_with sep (t # u # ts) = t @ sep @ join_with sep (u # ts)"

definition get_header_full_with_seperator ::
  "('m, 'u, 'n, 'v, 'z) h1_crate_scheme \<Rightarrow> byte list \<Rightarrow> byte list \<Rightarrow> ('n \<times> 'v) list \<Rightarrow> byte list option" where
  "get_header_full_with_seperator C name sep hs =
     (let full = List.map_filter (c_to_str C) (headers_get_all C name hs) in
      if full = [] then None else Some (join_with sep full))"

definition get_header_full ::
  "('m, 'u, 'n, 'v, 'z) h1_crate_scheme \<Rightarrow> byte list \<Rightarrow> ('n \<times> 'v) list \<Rightarrow> byte list option" where
  "get_header_full C name hs = get_header_full_with_seperator C name [SP] hs"

definition expects_continue :: "('m, 'u, 'n, 'v, 'z) h1_crate_scheme \<Rightarrow> ('n \<times> 'v) list \<Rightarrow> bool" where
  "expects_continue C hs =
     (case get_header C (bytes_of ''expect'') hs of
        Some value \<Rightarrow> value = bytes_of ''100-continue''
      | None \<Rightarrow> False)"

definition get_content_length :: "('m, 'u, 'n, 'v, 'z) h1_crate_scheme \<Rightarrow> ('n \<times> 'v) list \<Rightarrow> nat option" where
  "get_content_length C hs =
     (case get_header C (bytes_of ''content-length'') hs of
        Some value \<Rightarrow> parse_usize value
      | None \<Rightarrow> None)"

definition get_if_modified_since ::
  "('m, 'u, 'n, 'v, 'z) h1_crate_scheme \<Rightarrow> (byte list \<Rightarrow> 'd option) \<Rightarrow> ('n \<times> 'v) list \<Rightarrow> 'd option" where
  "get_if_modified_since C parse_date hs =
     (case get_header C (bytes_of ''if-modified-since'') hs of
        Some value \<Rightarrow> parse_date value
      | None \<Rightarrow> None)"

definition get_if_unmodified_since ::
  "('m, 'u, 'n, 'v, 'z) h1_crate_scheme \<Rightarrow> (byte list \<Rightarrow> 'd option) \<Rightarrow> ('n \<times> 'v) list \<Rightarrow> 'd option" where
  "get_if_unmodified_since C parse_date hs =
     (case get_header C (bytes_of ''if-unmodified-since'') hs of
        Some value \<Rightarrow> parse_date value
      | None \<Rightarrow> None)"

definition get_range ::
  "('m, 'u, 'n, 'v, 'z) h1_crate_scheme \<Rightarrow> ('n \<times> 'v) list \<Rightarrow> (byte_range list option, http_error) outcome" where
  "get_range C hs =
     (case get_header C (bytes_of ''range'') hs of
        Some value \<Rightarrow>
          (case byte_ranges_from_str value of
             Ok ranges \<Rightarrow> Ok (Some ranges)
           | Err _ \<Rightarrow> Err \<lparr>he_status = status_bad_request, he_close = False\<rparr>
           | Panic \<Rightarrow> Panic)
      | None \<Rightarrow> Ok None)"

section \<open>What the lookups find\<close>

lemma headers_get_Some:
  "headers_get C name hs = Some v \<longleftrightarrow>
   (\<exists>pre post. hs = pre @ (c_header C name, v) # post \<and> (\<forall>h\<in>set pre. fst h \<noteq> c_header C name))"
proof
  assume "headers_get C name hs = Some v"
  then obtain h rest where "filter (\<lambda>h. fst h = c_header C name) hs = h # rest" "snd h = v"
    by (auto simp: headers_get_def headers_get_all_def split: list.splits)
  then obtain pre post where "hs = pre @ h # post" "\<forall>u\<in>set pre. fst u \<noteq> c_header C name" "fst h = c_header C name"
    by (auto simp: filter_eq_Cons_iff)
  with \<open>snd h = v\<close> show "\<exists>pre post. hs = pre @ (c_header C name, v) # post \<and>
      (\<forall>h\<in>set pre. fst h \<noteq> c_header C name)"
    by (metis prod.collapse)
next
  assume "\<exists>pre post. hs = pre @ (c_header C name, v) # post \<and> (\<forall>h\<in>set pre. fst h \<noteq> c_header C name)"
  then obtain pre post where hs: "hs = pre @ (c_header C name, v) # post" "\<forall>h\<in>set pre. fst h \<noteq> c_header C name"
    by blast
  then have "filter (\<lambda>h. fst h = c_header C name) pre = []" by (auto simp: filter_empty_conv)
  with hs(1) show "headers_get C name hs = Some v"
    by (simp add: headers_get_def headers_get_all_def)
qed

lemma headers_get_None: "headers_get C name hs = None \<longleftrightarrow> (\<forall>h\<in>set hs. fst h \<noteq> c_header C name)"
proof -
  have "headers_get C name hs = None \<longleftrightarrow> headers_get_all C name hs = []"
    by (simp add: headers_get_def split: list.split)
  then show ?thesis by (simp add: headers_get_all_def filter_empty_conv)
qed

lemma headers_get_insert:
  "headers_get C name (header_insert (c_header C name) v hs) = Some v"
  by (auto simp: headers_get_Some header_insert_def)

text \<open>
  The length that \<open>finalize_response\<close> announces is the length the other side reads.
\<close>

lemma announced_length_read:
  assumes "rs_body resp = \<lparr>bd_body = Some b, bd_len = Some len, bd_finish_on_drop = fin\<rparr>" "len < 2 ^ 64"
    and "c_to_str C (c_text C (to_dec len)) = Some (to_dec len)"
  shows "get_content_length C (rs_headers (finalize_response C resp)) = Some len"
  using assms
  by (simp add: get_content_length_def get_header_def finalize_response_def headers_get_insert
      parse_usize_to_dec)

lemma get_range_spec:
  "get_range C hs = Ok r \<longleftrightarrow>
   (case get_header C (bytes_of ''range'') hs of
      None \<Rightarrow> r = None
    | Some value \<Rightarrow> \<exists>rs. r = Some rs \<and> byte_ranges_from_str value = Ok rs)"
  by (auto simp: get_range_def split: option.splits outcome.splits)

end
