(* ===== verification/Handler.thy ===== *)
theory Handler
  imports Http_Request
begin

text \<open>
  The trait \<open>Handler\<close> of \<open>src/src/lib.rs\<close>: what a connection or a stream sees of a handler that
  runs in a task of its own, and the implementations the crate has for wrapped handlers.
\<close>

section \<open>A handler as its task sees it\<close>

text \<open>
  The task of a handler ends with a response, with the error the handler returned, because the
  time limit passed, or in a panic. Until then it reads from the body of its request.
\<close>

datatype 'resp handler_result = Responded 'resp | Failed http_error | Timed_Out | Panicked

datatype 'resp handler_action = Act_Read nat | Act_Done "'resp handler_result"

section \<open>Handlers behind pointers\<close>

text \<open>
  A function made into a handler by \<open>make_handler_fn\<close>, and the pointers to a handler that are
  handlers themselves. In \<open>handle\<close> of \<open>Box<T>\<close> and of \<open>Arc<T>\<close> the receiver \<open>self\<close> has the type
  \<open>&Box<T>\<close>, for which the method that is found first is the very one that is being defined, and
  likewise in \<open>&mut T\<close>, where the first candidate for \<open>*self\<close> is \<open>&&mut T\<close>; only in \<open>&T\<close> does \<open>*self\<close>
  lead to the handler below.
\<close>

datatype ('q, 'a) pointed_handler =
  Handler_Fn "'q \<Rightarrow> 'a"
| Ref_To "('q, 'a) pointed_handler"
| Mut_Ref_To "('q, 'a) pointed_handler"
| Boxed "('q, 'a) pointed_handler"
| Shared "('q, 'a) pointed_handler"

definition make_handler_fn :: "('q \<Rightarrow> 'a) \<Rightarrow> ('q, 'a) pointed_handler" where
  "make_handler_fn f = Handler_Fn f"

partial_function (option) handle :: "('q, 'a) pointed_handler \<Rightarrow> 'q \<Rightarrow> 'a option" where
  "handle h req = (case h of
     Handler_Fn f \<Rightarrow> Some (f req)
   | Ref_To h' \<Rightarrow> handle h' req
   | Mut_Ref_To h' \<Rightarrow> handle h req
   | Boxed h' \<Rightarrow> handle h req
   | Shared h' \<Rightarrow> handle h req)"

declare handle.simps [code]

text \<open>The function below any number of shared references, if there is nothing else around it.\<close>

fun referenced :: "('q, 'a) pointed_handler \<Rightarrow> ('q \<Rightarrow> 'a) option" where
  "referenced (Handler_Fn f) = Some f"
| "referenced (Ref_To h) = referenced h"
| "referenced _ = None"

lemma handle_simps [simp]:
  "handle (Handler_Fn f) req = Some (f req)" "handle (Ref_To h) req = handle h req"
  by (subst handle.simps, simp)+

lemma handle_answers:
  assumes "handle h req = Some a"
  shows "\<exists>f. referenced h = Some f \<and> a = f req"
proof (rule handle.raw_induct [where P = "\<lambda>h req a. \<exists>f. referenced h = Some f \<and> a = f req", OF _ assms],
    goal_cases)
  case (1 F h req a)
  show ?case
  proof (cases h)
    case (Handler_Fn f)
    with 1(2) show ?thesis by simp
  next
    case (Ref_To h')
    with 1(2) have "F h' req = Some a" by simp
    from 1(1) [OF this] Ref_To show ?thesis by simp
  next
    case (Mut_Ref_To h')
    with 1(2) have "F h req = Some a" by simp
    from 1(1) [OF this] show ?thesis .
  next
    case (Boxed h')
    with 1(2) have "F h req = Some a" by simp
    from 1(1) [OF this] show ?thesis .
  next
    case (Shared h')
    with 1(2) have "F h req = Some a" by simp
    from 1(1) [OF this] show ?thesis .
  qed
qed

section \<open>Properties\<close>


end
