(* ===== verification/H2_Task.thy ===== *)
theory H2_Task
  imports H2_System Handler
begin

text \<open>
  The task of one HTTP/2 stream from its request to its end, \<open>main\<close>, \<open>get_response\<close>,
  \<open>finish_response\<close> and \<open>generate_resp\<close> of \<open>src/src/http2/stream.rs\<close>: the body of the request is
  made, the handler runs in a task of its own and reads from it while the stream serves its
  channels, and the response is sent. The handler is a state machine, as for HTTP/1. What happens
  is a list of inputs, in the order in which it happens; each run is one of \<open>task_step\<close>s.
\<close>

section \<open>The request\<close>

text \<open>Everything a stream uses and does not change; \<open>te_date\<close> is the header value of the date.\<close>

record ('m, 'u, 'n, 'v, 'b, 'h) h2_env =
  te_crate :: "('m, 'u, 'n, 'v) h1_crate"
  te_date :: "'v option"
  te_start :: "('m, 'u, 'n, 'v) request \<Rightarrow> nat option \<Rightarrow> 'h"
  te_act :: "'h \<Rightarrow> ('n, 'v, 'b) response handler_action"
  te_resume :: "'h \<Rightarrow> byte list io \<Rightarrow> 'h"

definition request_body_type_h2 ::
  "('m, 'u, 'n, 'v, 'z) h1_crate_scheme \<Rightarrow> ('m, 'u, 'n, 'v) request \<Rightarrow> body_type io" where
  "request_body_type_h2 C req =
     determine_body_type_h2 (c_to_str C) (c_is_safe C (rq_method req))
       (headers_get C (bytes_of ''transfer-encoding'') (rq_headers req))
       (headers_get C (bytes_of ''content-length'') (rq_headers req))"

text \<open>The reader in the \<open>Body\<close> of the request.\<close>

datatype h2_reader = No_Reader | Limited_Read "bg_read limit_reader" | Plain_Read bg_read

definition make_h2_body :: "bool \<Rightarrow> body_type \<Rightarrow> h2_reader \<times> nat option" where
  "make_h2_body stream_end bt =
     (if stream_end then (No_Reader, None)
      else case bt of
        NoBody \<Rightarrow> (No_Reader, None)
      | Fixed sz \<Rightarrow> (Limited_Read (limit_new bg_new sz), Some sz)
      | Chunked \<Rightarrow> (Plain_Read bg_new, None))"

text \<open>
  A poll of \<open>BackgroundRead\<close> on the channel of its stream: a chunk is taken from the channel when
  the reader asks for one.
\<close>

definition channel_read :: "(bg_read \<times> stream) poll_reader" where
  "channel_read n x =
     (let (g, s) = x;
          recv = body_recv s (body_queue s);
          s' = (if bg_wants g then s\<lparr>body_queue := tl (body_queue s)\<rparr> else s);
          (res, g') = bg_poll_read recv n g
      in (res, (g', s')))"

text \<open>\<open>Body::poll_read\<close>; the limit is kept by the \<open>LimitReader\<close>, whose state includes the channel.\<close>

definition with_reader :: "'r \<Rightarrow> 's limit_reader \<Rightarrow> 'r limit_reader" where
  "with_reader r l = \<lparr>lr_reader = r, lr_max = lr_max l, lr_current = lr_current l\<rparr>"

fun h2_body_read :: "(h2_reader \<times> stream) poll_reader" where
  "h2_body_read n (No_Reader, s) = (Ready (Ok []), (No_Reader, s))"
| "h2_body_read n (Limited_Read l, s) =
     (case limit_poll_read channel_read n (with_reader (lr_reader l, s) l) of
        (res, l') \<Rightarrow> (res, (Limited_Read (with_reader (fst (lr_reader l')) l'), snd (lr_reader l'))))"
| "h2_body_read n (Plain_Read g, s) =
     (case channel_read n (g, s) of (res, (g', s')) \<Rightarrow> (res, (Plain_Read g', s')))"

text \<open>The window channel: what the reader has reported and the stream has not received yet.\<close>

fun reader_of :: "h2_reader \<Rightarrow> bg_read option" where
  "reader_of No_Reader = None"
| "reader_of (Limited_Read l) = Some (lr_reader l)"
| "reader_of (Plain_Read g) = Some g"

fun set_reader :: "bg_read \<Rightarrow> h2_reader \<Rightarrow> h2_reader" where
  "set_reader g No_Reader = No_Reader"
| "set_reader g (Limited_Read l) = Limited_Read (l\<lparr>lr_reader := g\<rparr>)"
| "set_reader g (Plain_Read _) = Plain_Read g"

section \<open>Waiting for the handler\<close>

text \<open>
  The state while the handler runs. \<open>tk_read\<close> is a ghost: the bytes of the body the handler has
  read so far.
\<close>

record 'h h2_task =
  tk_handler :: 'h
  tk_reader :: h2_reader
  tk_stream :: stream
  tk_read :: "byte list"

text \<open>
  What can happen: a request of the connection, or the end of that channel; the stream receives an
  amount from the window channel; the task of the handler runs to its next read or its end; the
  time limit passes.
\<close>

datatype wait_input = W_Req "stream_req option" | W_Window | W_Poll | W_Timeout

definition bytes_ready :: "byte list io poll \<Rightarrow> byte list" where
  "bytes_ready res = (case res of Ready (Ok bs) \<Rightarrow> bs | _ \<Rightarrow> [])"

definition poll_handler ::
  "('m, 'u, 'n, 'v, 'b, 'h) h2_env \<Rightarrow> 'h h2_task
    \<Rightarrow> ('n, 'v, 'b) response handler_result option \<times> 'h h2_task" where
  "poll_handler E t =
     (case te_act E (tk_handler t) of
        Act_Done result \<Rightarrow> (Some result, t)
      | Act_Read n \<Rightarrow>
          (case h2_body_read n (tk_reader t, tk_stream t) of
             (res, (reader, s)) \<Rightarrow>
               (None, t\<lparr>tk_handler := (case res of Pending \<Rightarrow> tk_handler t
                          | Ready r \<Rightarrow> te_resume E (tk_handler t) r),
                        tk_reader := reader, tk_stream := s, tk_read := tk_read t @ bytes_ready res\<rparr>)))"

definition take_update :: "'h h2_task \<Rightarrow> (int \<times> 'h h2_task) option" where
  "take_update t =
     (if \<not> window_rx (tk_stream t) then None
      else case reader_of (tk_reader t) of
        None \<Rightarrow> None
      | Some g \<Rightarrow>
          (case bg_updates g of
             [] \<Rightarrow> None
           | n # ns \<Rightarrow> Some (n, t\<lparr>tk_reader := set_reader (g\<lparr>bg_updates := ns\<rparr>) (tk_reader t)\<rparr>)))"

definition select_event :: "event \<Rightarrow> ('h h2_task, unit, h2_error) stateful" where
  "select_event ev t = (case main_select ev (tk_stream t) of (r, s) \<Rightarrow> (r, t\<lparr>tk_stream := s\<rparr>))"

fun wait_handler ::
  "('m, 'u, 'n, 'v, 'b, 'h) h2_env \<Rightarrow> wait_input list
    \<Rightarrow> ('h h2_task, ('n, 'v, 'b) response handler_result poll, h2_error) stateful" where
  "wait_handler E [] t = (Ok Pending, t)"
| "wait_handler E (W_Req m # ins) t = sbind (select_event (Ev_Req m)) (\<lambda>_. wait_handler E ins) t"
| "wait_handler E (W_Window # ins) t =
     (case take_update t of
        None \<Rightarrow> wait_handler E ins t
      | Some (n, t') \<Rightarrow> sbind (select_event (Ev_Window (Some n))) (\<lambda>_. wait_handler E ins) t')"
| "wait_handler E (W_Poll # ins) t =
     (case poll_handler E t of
        (Some result, t') \<Rightarrow> (Ok (Ready result), t')
      | (None, t') \<Rightarrow> wait_handler E ins t')"
| "wait_handler E (W_Timeout # ins) t = (Ok (Ready Timed_Out), t)"

section \<open>The response\<close>

definition generate_resp :: "status \<Rightarrow> ('n, 'v, 'b) response" where
  "generate_resp st = \<lparr>rs_version = HTTP_11, rs_status = st, rs_headers = [], rs_body = body_default\<rparr>"

definition response_of ::
  "('m, 'u, 'n, 'v, 'z) h1_crate_scheme \<Rightarrow> ('n, 'v, 'b) response handler_result \<Rightarrow> ('n, 'v, 'b) response" where
  "response_of C result = (case result of
     Panicked \<Rightarrow> generate_resp status_server_error
   | Timed_Out \<Rightarrow> generate_resp status_server_error
   | Failed err \<Rightarrow> (generate_resp (he_status err))\<lparr>rs_headers :=
       header_insert (c_header C (bytes_of ''content-length'')) (c_text C (bytes_of ''0'')) []\<rparr>
   | Responded resp \<Rightarrow> resp)"

definition start_task ::
  "('m, 'u, 'n, 'v, 'b, 'h) h2_env \<Rightarrow> ('m, 'u, 'n, 'v) request \<Rightarrow> bool \<Rightarrow> body_type \<Rightarrow> stream \<Rightarrow> 'h h2_task" where
  "start_task E req stream_end bt s =
     (let (reader, len) = make_h2_body stream_end bt in
      \<lparr>tk_handler = te_start E req len, tk_reader = reader, tk_stream = open_body stream_end bt s, tk_read = []\<rparr>)"

definition get_response ::
  "('m, 'u, 'n, 'v, 'b, 'h) h2_env \<Rightarrow> ('m, 'u, 'n, 'v) request \<Rightarrow> bool \<Rightarrow> wait_input list
    \<Rightarrow> (stream, ('n, 'v, 'b) response poll, h2_error) stateful" where
  "get_response E req stream_end waits s =
     (case (request_body_type_h2 (te_crate E) req, validate) of
        (Ok bt, Ok _) \<Rightarrow>
          (case wait_handler E waits (start_task E req stream_end bt s) of
             (r, t) \<Rightarrow>
               (omap (\<lambda>x. case x of Pending \<Rightarrow> Pending
                        | Ready result \<Rightarrow> Ready (response_of (te_crate E) result)) r, tk_stream t))
      | (Panic, _) \<Rightarrow> (Panic, s)
      | (_, Panic) \<Rightarrow> (Panic, s)
      | _ \<Rightarrow> (Ok (Ready (generate_resp status_bad_request)), s))"

definition finish_response ::
  "('m, 'u, 'n, 'v, 'b, 'h) h2_env \<Rightarrow> ('n, 'v, 'b) response \<Rightarrow> ('n, 'v, 'b) response h2" where
  "finish_response E resp =
     (case headers_get (te_crate E) (bytes_of ''date'') (rs_headers resp) of
        None \<Rightarrow>
          omap (\<lambda>date. resp\<lparr>rs_headers := header_insert (c_header (te_crate E) (bytes_of ''date'')) date (rs_headers resp)\<rparr>)
            (ok_or (StreamErr InternalError) (te_date E))
      | Some _ \<Rightarrow> Ok resp)"

definition resp_parts :: "('m, 'u, 'n, 'v, 'z) h1_crate_scheme \<Rightarrow> ('n, 'v, 'b) response \<Rightarrow> resp_head" where
  "resp_parts C resp = (st_code (rs_status resp),
     map (\<lambda>h. (c_name_bytes C (fst h), c_value_bytes C (snd h))) (rs_headers resp))"

text \<open>The part of \<open>main\<close> after \<open>get_response\<close>, then \<open>main\<close>: \<open>ins\<close> happens while the body is sent.\<close>

definition send_answer ::
  "('m, 'u, 'n, 'v, 'b, 'h) h2_env \<Rightarrow> body_input list \<Rightarrow> ('n, 'v, 'b) response
    \<Rightarrow> (stream, unit poll, h2_error) stateful" where
  "send_answer E ins resp0 =
     sbind (slift (finish_response E resp0)) (\<lambda>resp s.
       let end_stream = (bd_body (rs_body resp) = None) in
       sbind (send_conn (ConnErr ProtocolError) (CR_Response (resp_parts (te_crate E) resp) (s_id s) end_stream))
         (\<lambda>_ s'.
           if end_stream then (Ok (Ready ()), s')
           else case send_body ins None (s', with_capacity 16384) of (r, (s'', _)) \<Rightarrow> (r, s'')) s)"

definition stream_main ::
  "('m, 'u, 'n, 'v, 'b, 'h) h2_env \<Rightarrow> ('m, 'u, 'n, 'v) request \<Rightarrow> bool \<Rightarrow> wait_input list \<Rightarrow> body_input list
    \<Rightarrow> (stream, unit poll, h2_error) stateful" where
  "stream_main E req stream_end waits ins =
     sbind (get_response E req stream_end waits) (\<lambda>p.
       case p of Pending \<Rightarrow> sret Pending | Ready resp \<Rightarrow> send_answer E ins resp)"

section \<open>The body of the request\<close>

text \<open>The bytes of the DATA frames among the inputs, and what the reader holds and owes.\<close>

fun body_data :: "wait_input list \<Rightarrow> byte list" where
  "body_data [] = []"
| "body_data (W_Req (Some (RequestBody f)) # ins) = d_data f @ body_data ins"
| "body_data (_ # ins) = body_data ins"

definition unread :: "'h h2_task \<Rightarrow> byte list" where
  "unread t = (case reader_of (tk_reader t) of None \<Rightarrow> [] | Some g \<Rightarrow> bg_unread g) @
     concat (body_queue (tk_stream t))"

definition owed :: "'h h2_task \<Rightarrow> int" where
  "owed t = (case reader_of (tk_reader t) of
       None \<Rightarrow> 0 | Some g \<Rightarrow> sum_list (bg_updates g) + int (bg_held g)) +
     int (length (concat (body_queue (tk_stream t))))"

text \<open>
  The channel is there exactly if there is a reader, which keeps its own invariant and, if there
  is a limit, has counted what it has read.
\<close>

definition limit_kept :: "nat option \<Rightarrow> 'h h2_task \<Rightarrow> bool" where
  "limit_kept m t \<longleftrightarrow> (case tk_reader t of
     Limited_Read l \<Rightarrow> m = Some (lr_max l) \<and> lr_current l = length (tk_read t) \<and> lr_current l \<le> lr_max l
   | _ \<Rightarrow> m = None)"

definition body_inv :: "nat option \<Rightarrow> 'h h2_task \<Rightarrow> bool" where
  "body_inv m t \<longleftrightarrow> limit_kept m t \<and> (case reader_of (tk_reader t) of
     None \<Rightarrow> \<not> background_tx (tk_stream t) \<and> body_queue (tk_stream t) = []
   | Some g \<Rightarrow> bg_inv g \<and> background_tx (tk_stream t) \<and> body_open (tk_stream t) \<and>
       (\<forall>c\<in>set (body_queue (tk_stream t)). i32_ok (int (length c))))"

text \<open>
  A step during the wait: \<open>arrived\<close> comes to the body, and neither a response nor data is sent.
\<close>

definition quiet :: "stream \<Rightarrow> stream \<Rightarrow> bool" where
  "quiet s s' \<longleftrightarrow> s_id s' = s_id s \<and>
     (\<exists>new. sent s' = sent s @ new \<and> responses new = [] \<and> data_of new = [])"

definition flows :: "nat option \<Rightarrow> byte list \<Rightarrow> 'h h2_task \<Rightarrow> 'h h2_task \<Rightarrow> bool" where
  "flows m arrived t t' \<longleftrightarrow> body_inv m t' \<and>
     tk_read t' @ unread t' = tk_read t @ unread t @ arrived \<and>
     s_peer_window (tk_stream t') + owed t' = s_peer_window (tk_stream t) + owed t \<and>
     quiet (tk_stream t) (tk_stream t')"

lemma quiet_trans: "quiet s s1 \<Longrightarrow> quiet s1 s' \<Longrightarrow> quiet s s'"
  by (fastforce simp: quiet_def)

lemma quiet_same [simp]: "sent s' = sent s \<Longrightarrow> s_id s' = s_id s \<Longrightarrow> quiet s s'"
  by (simp add: quiet_def)

lemma flows_trans: "flows m a t t1 \<Longrightarrow> flows m b t1 t2 \<Longrightarrow> flows m (a @ b) t t2"
  by (auto simp: flows_def intro: quiet_trans)

lemma flows_refl: "body_inv m t \<Longrightarrow> flows m [] t t"
  by (simp add: flows_def)

lemma channel_read_spec:
  assumes "bg_inv g" "background_tx s" "\<forall>c\<in>set (body_queue s). i32_ok (int (length c))"
  obtains res g' q where "channel_read n (g, s) = (res, (g', s\<lparr>body_queue := q\<rparr>))" "bg_inv g'"
    "bg_unread g @ concat (body_queue s) = bytes_ready res @ bg_unread g' @ concat q"
    "sum_list (bg_updates g') + int (bg_held g') + int (length (concat q)) =
       sum_list (bg_updates g) + int (bg_held g) + int (length (concat (body_queue s)))"
    "\<forall>c\<in>set q. i32_ok (int (length c))"
proof -
  define q where "q = (if bg_wants g then tl (body_queue s) else body_queue s)"
  define recv where "recv = (if bg_wants g then body_recv s (body_queue s) else Pending)"
  have "(recv, q) = (if bg_wants g
      then (case body_queue s of [] \<Rightarrow> (Pending, []) | c # cs \<Rightarrow> (Ready (Some c), cs)) else (Pending, body_queue s))"
    using assms(2) by (simp add: q_def recv_def body_recv_def split: list.split)
  from bg_poll_spec [OF assms(1,3) this, of n] obtain res g' where
    poll: "bg_poll_read recv n g = (res, g')" "bg_inv g'"
      "bg_unread g @ concat (body_queue s) = (case res of Ready (Ok bs) \<Rightarrow> bs | _ \<Rightarrow> []) @ bg_unread g' @ concat q"
      "sum_list (bg_updates g') + int (bg_held g') + int (length (concat q)) =
         sum_list (bg_updates g) + int (bg_held g) + int (length (concat (body_queue s)))"
      "set q \<subseteq> set (body_queue s)" by blast
  have "bg_poll_read (body_recv s (body_queue s)) n g = bg_poll_read recv n g"
  proof (cases "bg_wants g")
    case False
    then obtain b where "bg_buffer g = Some b" "available_for_read b > 0"
      using assms(1) by (auto simp: bg_wants_def bg_inv_def split: option.splits)
    then show ?thesis by (simp add: bg_poll_read_def Let_def)
  qed (simp add: recv_def)
  moreover have "s\<lparr>body_queue := body_queue s\<rparr> = s" by simp
  ultimately have "channel_read n (g, s) = (res, (g', s\<lparr>body_queue := q\<rparr>))"
    using poll(1) by (simp add: channel_read_def q_def Let_def)
  moreover have "\<forall>c\<in>set q. i32_ok (int (length c))" using poll(5) assms(3) by blast
  ultimately show thesis using poll(2-4) that by (simp add: bytes_ready_def)
qed

lemma channel_read_bound:
  assumes "channel_read n (g, s) = (res, x)"
  shows "length (bytes_ready res) \<le> n"
proof -
  have hand: "length (bytes_ready r) \<le> n" if "bg_hand_out n b g1 = (r, g2)" for b g1 r g2
    using that by (auto simp: bg_hand_out_def bytes_ready_def Let_def slice_def split: outcome.splits if_splits)
  then show ?thesis
    using assms(1)
    by (auto simp: channel_read_def bg_poll_read_def Let_def bytes_ready_def
        split: option.splits poll.splits if_splits prod.splits dest!: hand)
qed

lemma same_queue [simp]: "\<exists>q. s = s\<lparr>body_queue := q\<rparr>"
  by (rule exI [of _ "body_queue s"]) simp

lemma h2_body_read_spec:
  assumes "body_inv m t" "h2_body_read n (tk_reader t, tk_stream t) = (res, (reader, s))"
  shows "flows m [] t (t\<lparr>tk_handler := h, tk_reader := reader, tk_stream := s,
    tk_read := tk_read t @ bytes_ready res\<rparr>) \<and> (\<exists>q. s = (tk_stream t)\<lparr>body_queue := q\<rparr>)"
proof -
  let ?s = "tk_stream t"
  show ?thesis
  proof (cases "tk_reader t")
    case No_Reader
    with assms show ?thesis
      by (auto simp: flows_def body_inv_def limit_kept_def unread_def owed_def bytes_ready_def)
  next
    case (Plain_Read g)
    with assms(1) have g: "bg_inv g" "background_tx ?s" "\<forall>c\<in>set (body_queue ?s). i32_ok (int (length c))"
      by (simp_all add: body_inv_def)
    obtain res' g' q where read: "channel_read n (g, ?s) = (res', (g', ?s\<lparr>body_queue := q\<rparr>))" "bg_inv g'"
      "bg_unread g @ concat (body_queue ?s) = bytes_ready res' @ bg_unread g' @ concat q"
      "sum_list (bg_updates g') + int (bg_held g') + int (length (concat q)) =
         sum_list (bg_updates g) + int (bg_held g) + int (length (concat (body_queue ?s)))"
      "\<forall>c\<in>set q. i32_ok (int (length c))"
      by (rule channel_read_spec [OF g])
    with assms Plain_Read show ?thesis
      by (auto simp: flows_def body_inv_def limit_kept_def unread_def owed_def)
  next
    case (Limited_Read l)
    with assms(1) have g: "bg_inv (lr_reader l)" "background_tx ?s" "\<forall>c\<in>set (body_queue ?s). i32_ok (int (length c))"
      and l: "m = Some (lr_max l)" "lr_current l = length (tk_read t)" "lr_current l \<le> lr_max l"
      by (simp_all add: body_inv_def limit_kept_def)
    have wl: "with_reader (lr_reader l) (with_reader (lr_reader l, ?s) l) = l"
      by (simp add: with_reader_def)
    show ?thesis
    proof (cases "lr_max l - lr_current l = 0")
      case True
      then have "limit_poll_read channel_read n (with_reader (lr_reader l, ?s) l) =
          (Ready (Ok []), with_reader (lr_reader l, ?s) l)"
        using l(3) by (simp add: limit_poll_read_def with_reader_def)
      with assms Limited_Read wl show ?thesis
        by (auto simp: flows_def body_inv_def limit_kept_def unread_def owed_def bytes_ready_def with_reader_def)
    next
      case False
      define k where "k = min n (lr_max l - lr_current l)"
      obtain res' g' q where read: "channel_read k (lr_reader l, ?s) = (res', (g', ?s\<lparr>body_queue := q\<rparr>))" "bg_inv g'"
        "bg_unread (lr_reader l) @ concat (body_queue ?s) = bytes_ready res' @ bg_unread g' @ concat q"
        "sum_list (bg_updates g') + int (bg_held g') + int (length (concat q)) =
           sum_list (bg_updates (lr_reader l)) + int (bg_held (lr_reader l)) + int (length (concat (body_queue ?s)))"
        "\<forall>c\<in>set q. i32_ok (int (length c))"
        by (rule channel_read_spec [OF g])
      have "limit_poll_read channel_read n (with_reader (lr_reader l, ?s) l) =
          limit_count channel_read k (with_reader (lr_reader l, ?s) l)"
        using False l(3) by (simp add: limit_poll_read_def with_reader_def k_def min_def)
      also have "\<dots> = (res', \<lparr>lr_reader = (g', ?s\<lparr>body_queue := q\<rparr>), lr_max = lr_max l,
          lr_current = lr_current l + length (bytes_ready res')\<rparr>)"
        using read(1) by (simp add: limit_count_def with_reader_def bytes_ready_def split: poll.split outcome.split)
      finally have "res = res'" "s = ?s\<lparr>body_queue := q\<rparr>"
        "reader = Limited_Read \<lparr>lr_reader = g', lr_max = lr_max l, lr_current = lr_current l + length (bytes_ready res')\<rparr>"
        using assms(2) Limited_Read by (auto simp: with_reader_def)
      moreover have "length (bytes_ready res') \<le> lr_max l - lr_current l"
        using channel_read_bound [OF read(1)] by (simp add: k_def)
      ultimately show ?thesis
        using read Limited_Read l g assms(1) by (auto simp: flows_def body_inv_def limit_kept_def unread_def owed_def)
    qed
  qed
qed

lemma poll_handler_flows:
  assumes "body_inv m t" "poll_handler E t = (r, t')"
  shows "flows m [] t t' \<and> (\<exists>q. tk_stream t' = (tk_stream t)\<lparr>body_queue := q\<rparr>)"
proof (cases "te_act E (tk_handler t)")
  case (Act_Done result)
  with Act_Done assms show ?thesis by (auto simp: poll_handler_def flows_refl)
next
  case (Act_Read n)
  obtain res reader s where read: "h2_body_read n (tk_reader t, tk_stream t) = (res, (reader, s))"
    by (metis surj_pair)
  from h2_body_read_spec [OF assms(1) this] Act_Read read assms(2) show ?thesis
    by (auto simp: poll_handler_def)
qed

lemma select_req_flows:
  assumes "body_inv m t" "select_event (Ev_Req req) t = (Ok u, t')"
  shows "flows m (body_data [W_Req req]) t t'"
proof -
  let ?s = "tk_stream t"
  obtain msg s' where msg: "req = Some msg" and s': "handle_req msg ?s = (Ok (), s')" "t' = t\<lparr>tk_stream := s'\<rparr>"
    using assms(2) by (auto simp: select_event_def main_select_def split: prod.splits option.splits)
  show ?thesis
  proof (cases msg)
    case (RequestBody f)
    then have recv: "receive_body f ?s = (Ok (), s')" using s'(1) by (simp add: handle_req_def)
    then have "background_tx ?s" by (auto simp: receive_body_def split: if_splits)
    then obtain g where g: "reader_of (tk_reader t) = Some g" "body_open ?s" "bg_inv g"
      "\<forall>c\<in>set (body_queue ?s). i32_ok (int (length c))"
      using assms(1) by (auto simp: body_inv_def split: option.splits)
    then have "s' = ?s\<lparr>body_queue := body_queue ?s @ [d_data f],
        s_peer_window := s_peer_window ?s - int (length (d_data f))\<rparr>" "i32_ok (int (length (d_data f)))"
      using recv by (auto simp: receive_body_def Let_def usize_to_i32_def i32_checked_sub_def checked_i32_def
          split: option.splits if_splits)
    with g assms(1) s'(2) msg RequestBody show ?thesis
      by (auto simp: flows_def body_inv_def limit_kept_def unread_def owed_def split: h2_reader.splits)
  qed (use assms(1) s' msg in \<open>auto simp: handle_req_def flows_def body_inv_def limit_kept_def unread_def owed_def
      split: option.splits h2_reader.splits\<close>)
qed

lemma reader_of_set [simp]: "reader_of r = Some g \<Longrightarrow> reader_of (set_reader g' r) = Some g'"
  by (cases r) simp_all

lemma limit_kept_set: "limit_kept m t \<Longrightarrow> limit_kept m (t\<lparr>tk_reader := set_reader g (tk_reader t), tk_stream := s\<rparr>)"
  by (cases "tk_reader t") (simp_all add: limit_kept_def)

lemma take_update_flows:
  assumes "body_inv m t" "take_update t = Some (n, t1)" "select_event (Ev_Window (Some n)) t1 = (Ok u, t')"
  shows "flows m [] t t'"
proof -
  obtain g ns where g: "reader_of (tk_reader t) = Some g" "bg_updates g = n # ns"
    "t1 = t\<lparr>tk_reader := set_reader (g\<lparr>bg_updates := ns\<rparr>) (tk_reader t)\<rparr>"
    using assms(2) by (auto simp: take_update_def split: if_splits option.splits list.splits)
  then have "t' = t\<lparr>tk_reader := set_reader (g\<lparr>bg_updates := ns\<rparr>) (tk_reader t),
      tk_stream := tk_stream t'\<rparr>" 
      "tk_stream t' = (tk_stream t)\<lparr>s_peer_window := s_peer_window (tk_stream t) + n,
         sent := sent (tk_stream t) @ [CR_UpdatePeerWindow (s_id (tk_stream t)) n]\<rparr>"
    using assms(3) by (auto simp: select_event_def main_select_def send_conn_def i32_checked_add_def checked_i32_def
        split: prod.splits option.splits if_splits)
  moreover from this(2) have "quiet (tk_stream t) (tk_stream t')"
    by (simp add: quiet_def)
  moreover have "bg_unread (g\<lparr>bg_updates := ns\<rparr>) = bg_unread g" "bg_held (g\<lparr>bg_updates := ns\<rparr>) = bg_held g"
    "bg_inv (g\<lparr>bg_updates := ns\<rparr>) = bg_inv g"
    by (simp_all add: bg_unread_def bg_held_def bg_inv_def)
  ultimately show ?thesis
    using g assms(1) limit_kept_set [of m t "tk_stream t'" "g\<lparr>bg_updates := ns\<rparr>"]
    by (auto simp: flows_def body_inv_def unread_def owed_def)
qed

section \<open>The task takes the steps of the system\<close>

text \<open>Steps of a task in a row, with the messages they take.\<close>

inductive task_run :: "stream_req list \<Rightarrow> stream \<Rightarrow> stream \<Rightarrow> bool" where
  stays: "task_run [] s s"
| works: "task_step None s s1 \<Longrightarrow> task_run ms s1 s' \<Longrightarrow> task_run ms s s'"
| takes: "task_step (Some m) s s1 \<Longrightarrow> task_run ms s1 s' \<Longrightarrow> task_run (m # ms) s s'"

lemma task_run_trans: "task_run ms s s1 \<Longrightarrow> task_run ns s1 s' \<Longrightarrow> task_run (ms @ ns) s s'"
  by (induction rule: task_run.induct) (auto intro: task_run.intros)

lemma task_run_step: "task_step None s s' \<Longrightarrow> task_run [] s s'"
  by (auto intro: task_run.intros)

text \<open>
  Such a run is a run of the system, in which the task takes its messages from the mail and what it
  sends waits for the connection.
\<close>

lemma task_step_sends: "task_step m s s' \<Longrightarrow> sent s' = sent s @ new_messages s s'"
proof (induction rule: task_step.induct)
  case (takes m s s')
  then show ?case
    by (cases m) (auto simp: new_messages_def main_select_def handle_req_def receive_body_def
        send_conn_def Let_def split: option.splits if_splits)
next
  case (sends needed s b st s' b')
  from body_step_sends [OF sends] obtain ms where "pays s s' ms"
    by (auto simp: H2_Stream.sends_def intro: pays_refl)
  then show ?case by (simp add: pays_def new_messages_def)
qed (auto simp: new_messages_def main_select_def send_conn_def end_of_body_def open_body_def
    split: option.splits if_splits body_type.splits)

lemma new_messages_eq: "sent s' = sent s @ new \<Longrightarrow> new_messages s s' = new"
  by (simp add: new_messages_def)

lemma task_run_sends: "task_run ms s s' \<Longrightarrow> \<exists>new. sent s' = sent s @ new"
proof (induction rule: task_run.induct)
  case (works s s1 ms s')
  from works(3) task_step_sends [OF works(1)] show ?case by auto
next
  case (takes m s s1 ms s')
  from takes(3) task_step_sends [OF takes(1)] show ?case by auto
qed simp

lemma new_messages_trans:
  assumes "task_step m s s1" "task_run ms s1 s'"
  shows "new_messages s s' = new_messages s s1 @ new_messages s1 s'"
proof -
  obtain new where new: "sent s' = sent s1 @ new" using task_run_sends [OF assms(2)] by blast
  with task_step_sends [OF assms(1)] have "sent s' = sent s @ new_messages s s1 @ new" by simp
  then have "new_messages s s' = new_messages s s1 @ new" by (rule new_messages_eq)
  with new_messages_eq [OF new] show ?thesis by simp
qed

lemma task_run_in_system:
  "task_run ms s s' \<Longrightarrow> running S i = Some s \<Longrightarrow> mail (conn_of S) i = Some (ms @ rest) \<Longrightarrow>
   \<exists>S'. (sys_step C decode encode)\<^sup>*\<^sup>* S S' \<and> running S' i = Some s' \<and> mail (conn_of S') i = Some rest \<and>
     waiting S' = waiting S @ new_messages s s' \<and> wire (conn_of S') = wire (conn_of S)"
proof (induction arbitrary: S rule: task_run.induct)
  case (stays s)
  then show ?case by (intro exI [of _ S]) (simp add: new_messages_def)
next
  case (works s s1 ms s')
  let ?S = "S\<lparr>running := (running S)(i := Some s1), waiting := waiting S @ new_messages s s1\<rparr>"
  have step: "sys_step C decode encode S ?S" using works by (intro sys_step.works)
  obtain S' where "(sys_step C decode encode)\<^sup>*\<^sup>* ?S S'" "running S' i = Some s'" "mail (conn_of S') i = Some rest"
    "waiting S' = waiting ?S @ new_messages s1 s'" "wire (conn_of S') = wire (conn_of ?S)"
    using works.IH [of ?S] works.prems by auto
  with step new_messages_trans [OF works(1,2)] show ?case
    by (intro exI [of _ S']) (auto intro: converse_rtranclp_into_rtranclp)
next
  case (takes m s s1 ms s')
  let ?S = "S\<lparr>conn_of := (conn_of S)\<lparr>mail := (mail (conn_of S))(i := Some (ms @ rest))\<rparr>,
      running := (running S)(i := Some s1), waiting := waiting S @ new_messages s s1\<rparr>"
  have step: "sys_step C decode encode S ?S" using takes by (intro sys_step.reads) simp_all
  obtain S' where "(sys_step C decode encode)\<^sup>*\<^sup>* ?S S'" "running S' i = Some s'" "mail (conn_of S') i = Some rest"
    "waiting S' = waiting ?S @ new_messages s1 s'" "wire (conn_of S') = wire (conn_of ?S)"
    using takes.IH [of ?S] takes.prems by auto
  with step new_messages_trans [OF takes(1,2)] show ?case
    by (intro exI [of _ S']) (auto intro: converse_rtranclp_into_rtranclp)
qed

text \<open>The messages of the connection among the inputs.\<close>

fun mail_of :: "event \<Rightarrow> stream_req list" where
  "mail_of (Ev_Req (Some m)) = [m]"
| "mail_of _ = []"

fun wait_mail :: "wait_input list \<Rightarrow> stream_req list" where
  "wait_mail [] = []"
| "wait_mail (W_Req m # ins) = mail_of (Ev_Req m) @ wait_mail ins"
| "wait_mail (_ # ins) = wait_mail ins"

definition body_mail :: "body_input list \<Rightarrow> stream_req list" where
  "body_mail ins = concat (map mail_of (events_of ins))"

lemma main_select_run: "main_select ev s = (Ok u, s') \<Longrightarrow> task_run (mail_of ev) s s'"
  by (cases ev rule: mail_of.cases)
    (auto intro: task_run.intros task_step.intros simp: main_select_def [of "Ev_Req None"])

lemma queue_run:
  assumes "s' = s\<lparr>body_queue := q\<rparr>"
  shows "task_run [] s s'"
proof -
  have "s' = s\<lparr>body_queue := q, body_open := body_open s\<rparr>" using assms by simp
  then show ?thesis using task_step.handled task_run_step by metis
qed

section \<open>The wait for the handler\<close>

text \<open>All of the wait, up to the inputs it uses: the body flows, in steps of the task.\<close>

lemma wait_handler_steps:
  "wait_handler E waits t = (Ok p, t') \<Longrightarrow> body_inv m t \<Longrightarrow>
   \<exists>used rest. waits = used @ rest \<and> (p = Pending \<longrightarrow> rest = []) \<and> flows m (body_data used) t t' \<and>
     task_run (wait_mail used) (tk_stream t) (tk_stream t')"
proof (induction waits arbitrary: t)
  case Nil
  then show ?case by (auto intro: flows_refl task_run.stays)
next
  case (Cons i ins)
  have more: ?case if step: "flows m (body_data [i]) t t1" "task_run (wait_mail [i]) (tk_stream t) (tk_stream t1)"
    and run: "wait_handler E ins t1 = (Ok p, t')" for t1
  proof -
    have "body_inv m t1" using step by (simp add: flows_def)
    from Cons.IH [OF run this] obtain used rest where
      u: "ins = used @ rest" "p = Pending \<longrightarrow> rest = []" "flows m (body_data used) t1 t'"
        "task_run (wait_mail used) (tk_stream t1) (tk_stream t')" by blast
    have "body_data (i # used) = body_data [i] @ body_data used" "wait_mail (i # used) = wait_mail [i] @ wait_mail used"
      by (cases "i # used" rule: body_data.cases; simp)+
    with u flows_trans [OF step(1) u(3)] task_run_trans [OF step(2) u(4)] show ?thesis
      by (intro exI [of _ "i # used"] exI [of _ rest]) simp
  qed
  have stop: ?case if "t' = t" "p \<noteq> Pending"
    using that Cons.prems(2)
    by (intro exI [of _ "[]"] exI [of _ "i # ins"]) (simp add: flows_refl task_run.stays)
  show ?case
  proof (cases i)
    case (W_Req req)
    with Cons.prems(1) obtain u t1 where ev: "select_event (Ev_Req req) t = (Ok u, t1)" "wait_handler E ins t1 = (Ok p, t')"
      by (auto simp: sbind_def split: prod.splits outcome.splits)
    then have "main_select (Ev_Req req) (tk_stream t) = (Ok u, tk_stream t1)"
      by (auto simp: select_event_def split: prod.splits)
    from main_select_run [OF this] select_req_flows [OF Cons.prems(2) ev(1)] ev(2) W_Req more [of t1] show ?thesis
      by simp
  next
    case W_Window
    show ?thesis
    proof (cases "take_update t")
      case None
      with Cons.prems W_Window more [of t] show ?thesis by (simp add: flows_refl task_run.stays)
    next
      case (Some x)
      with Cons.prems(1) W_Window obtain n t1 u t2 where upd: "take_update t = Some (n, t1)"
        "select_event (Ev_Window (Some n)) t1 = (Ok u, t2)" "wait_handler E ins t2 = (Ok p, t')"
        by (auto simp: sbind_def split: prod.splits outcome.splits)
      then have "main_select (Ev_Window (Some n)) (tk_stream t) = (Ok u, tk_stream t2)"
        by (auto simp: select_event_def take_update_def split: prod.splits if_splits option.splits list.splits)
      from main_select_run [OF this] take_update_flows [OF Cons.prems(2) upd(1,2)] upd(3) W_Window more [of t2]
      show ?thesis by simp
    qed
  next
    case W_Poll
    obtain r t1 where poll: "poll_handler E t = (r, t1)" by fastforce
    from poll_handler_flows [OF Cons.prems(2) this] obtain q where
      step: "flows m [] t t1" "tk_stream t1 = (tk_stream t)\<lparr>body_queue := q\<rparr>" by blast
    show ?thesis
    proof (cases r)
      case None
      with Cons.prems(1) W_Poll poll more [of t1] step queue_run show ?thesis by simp
    next
      case (Some result)
      then have "t1 = t" using poll by (auto simp: poll_handler_def split: handler_action.splits prod.splits)
      with Some Cons.prems(1) W_Poll poll have "t' = t" "p = Ready result" by simp_all
      then show ?thesis using stop by simp
    qed
  next
    case W_Timeout
    with Cons.prems(1) have "t' = t" "p = Ready Timed_Out" by auto
    then show ?thesis using stop by simp
  qed
qed

text \<open>The announced length, if the handler has a body to read.\<close>

lemma start_task_inv:
  assumes "\<not> background_tx s" "body_queue s = []"
  shows "body_inv (snd (make_h2_body stream_end bt)) (start_task E req stream_end bt s)"
    and "owed (start_task E req stream_end bt s) = 0" "unread (start_task E req stream_end bt s) = []"
    and "tk_read (start_task E req stream_end bt s) = []"
    and "s_peer_window (tk_stream (start_task E req stream_end bt s)) = s_peer_window s"
  using assms
  by (auto simp: start_task_def make_h2_body_def open_body_def body_inv_def limit_kept_def owed_def unread_def
      limit_new_def bg_new_def bg_inv_def bg_held_def bg_unread_def split: body_type.splits)

section \<open>Sending the response\<close>

text \<open>Steps that send no head of a response.\<close>

definition streams_on :: "stream_req list \<Rightarrow> stream \<Rightarrow> stream \<Rightarrow> bool" where
  "streams_on ms s s' \<longleftrightarrow> task_run ms s s' \<and> responses (sent s') = responses (sent s)"

lemma streams_on_trans: "streams_on ms s s1 \<Longrightarrow> streams_on ns s1 s' \<Longrightarrow> streams_on (ms @ ns) s s'"
  by (simp add: streams_on_def) (blast intro: task_run_trans)

lemma streams_on_refl [simp]: "streams_on [] s s"
  by (simp add: streams_on_def task_run.stays)

lemma main_select_streams:
  assumes "main_select ev s = (Ok u, s')"
  shows "streams_on (mail_of ev) s s'"
proof -
  have "responses (sent s') = responses (sent s)"
    using assms by (auto simp: main_select_def handle_req_def receive_body_def send_conn_def Let_def
        split: event.splits option.splits stream_req.splits if_splits)
  with main_select_run [OF assms] show ?thesis by (simp add: streams_on_def)
qed

lemma body_step_streams:
  assumes "body_step needed (s, b) = (Ok st, (s', b'))" "buffer_inv b"
  shows "streams_on [] s s' \<and> buffer_inv b'"
proof -
  from body_step_sends [OF assms] obtain ms where ms: "pays s s' ms" "buffer_inv b'"
    using assms(2) by (auto simp: H2_Stream.sends_def intro: pays_refl)
  then have "sent s' = sent s @ ms" "new_messages s s' = ms" by (simp_all add: pays_def new_messages_def)
  with body_step_messages [OF assms(1)] have "responses (sent s') = responses (sent s)" by simp
  moreover have "task_run [] s s'" using task_step.sends [OF assms] by (rule task_run_step)
  ultimately show ?thesis using ms by (simp add: streams_on_def)
qed

lemma body_run_streams:
  "body_run needed sb = (Ok st, sb') \<Longrightarrow> buffer_inv (snd sb) \<Longrightarrow> streams_on [] (fst sb) (fst sb')"
proof (induction needed sb rule: body_run.induct)
  case (1 needed sb)
  obtain s b where sb: "sb = (s, b)" by fastforce
  obtain r s1 b1 where step: "body_step needed (s, b) = (r, (s1, b1))" by (metis surj_pair)
  then obtain st1 where r: "r = Ok st1"
    using 1(2) sb by (cases r) (simp_all add: body_run.simps [of needed "(s, b)"])
  from body_step_streams [OF step [unfolded r]] 1(3) sb have first: "streams_on [] s s1" "buffer_inv b1"
    by simp_all
  show ?case
  proof (cases "\<exists>n. st1 = Again n")
    case True
    then obtain n where n: "st1 = Again n" by blast
    then have run: "body_run n (s1, b1) = (Ok st, sb')"
      using 1(2) step r sb by (simp add: body_run.simps [of needed "(s, b)"])
    from 1(1) [OF step [unfolded r n, folded sb, symmetric] refl refl run] first
    have "streams_on [] s1 (fst sb')" by simp
    from streams_on_trans [OF first(1) this] sb show ?thesis by simp
  next
    case False
    with 1(2) step r sb have "sb' = (s1, b1)"
      by (auto simp: body_run.simps [of needed "(s, b)"] split: next_step.splits)
    with first sb show ?thesis by simp
  qed
qed

lemma end_of_body_streams:
  assumes "end_of_body s = (Ok u, s')"
  shows "streams_on [] s s'"
proof -
  have "task_run [] s s'" using assms by (intro task_run_step task_step.finishes) simp
  with assms show ?thesis
    by (auto simp: streams_on_def end_of_body_def send_conn_def split: if_splits)
qed

lemma body_mail_simps [simp]:
  "body_mail [] = []" "body_mail (B_Event ev # ins) = mail_of ev @ body_mail ins"
  "body_mail (B_Read r # ins) = body_mail ins"
  by (simp_all add: body_mail_def)

definition streams_used :: "body_input list \<Rightarrow> stream \<Rightarrow> stream \<Rightarrow> bool" where
  "streams_used ins s s' \<longleftrightarrow> (\<exists>used rest. ins = used @ rest \<and> streams_on (body_mail used) s s')"

lemma streams_used_stop [simp]: "streams_used ins s s"
  unfolding streams_used_def by (intro exI [of _ "[]"] exI [of _ ins]) simp

lemma body_mail_append: "body_mail (u @ v) = body_mail u @ body_mail v"
  by (simp add: body_mail_def)

definition streams_to :: "body_input list \<Rightarrow> stream \<times> buffer \<Rightarrow> stream \<times> buffer \<Rightarrow> bool" where
  "streams_to used sb sb' \<longleftrightarrow> streams_on (body_mail used) (fst sb) (fst sb')"

interpretation streaming: body_walk streams_to
proof (unfold_locales, goal_cases)
  case (2 u sb sb1 v sb')
  then show ?case unfolding streams_to_def body_mail_append by (rule streams_on_trans)
next
  case (3 ev s s' b)
  then show ?case by (simp add: streams_to_def main_select_streams)
next
  case (4 needed sb st sb')
  then show ?case by (simp add: streams_to_def body_run_streams)
qed (simp_all add: streams_to_def)

lemma send_body_streams:
  assumes "send_body ins phase sb = (Ok p, sb')" "buffer_inv (snd sb)" "buffer_capacity (snd sb) = cap"
    "reads_fit cap ins" "phase = None \<longrightarrow> view (snd sb) = []"
  shows "streams_used ins (fst sb) (fst sb')"
proof -
  obtain used rest where used: "ins = used @ rest" "if p = Ready () then streaming.ended used sb sb' else streams_to used sb sb'"
    using streaming.send_body_walked [OF assms] unfolding streaming.walked_def by blast
  have "streams_on (body_mail used) (fst sb) (fst sb')"
  proof (cases "p = Ready ()")
    case False
    with used(2) show ?thesis by (simp add: streams_to_def)
  next
    case True
    with used(2) obtain s1 where "streams_on (body_mail used) (fst sb) s1" "end_of_body s1 = (Ok (), fst sb')"
      by (auto simp: streaming.ended_def streams_to_def)
    with streams_on_trans [OF this(1) end_of_body_streams [OF this(2)]] show ?thesis by simp
  qed
  with used(1) show ?thesis unfolding streams_used_def by blast
qed

text \<open>The reads of the response body while it is sent, with the room of the body buffer.\<close>

fun reads_of :: "'b reader \<Rightarrow> nat \<Rightarrow> 'b \<Rightarrow> body_input list \<Rightarrow> bool" where
  "reads_of rd n b [] = True"
| "reads_of rd n b (B_Event ev # ins) = reads_of rd n b ins"
| "reads_of rd n b (B_Read r # ins) = (case rd n b of (r', b') \<Rightarrow> r = r' \<and> reads_of rd n b' ins)"

lemma reads_of_fit:
  assumes "byte_source rd pend"
  shows "reads_of rd n b ins \<Longrightarrow> reads_fit n ins"
proof (induction ins arbitrary: b)
  case (Cons i ins)
  show ?case
  proof (cases i)
    case (B_Read r)
    obtain bs b' where "rd n b = (Ok bs, b')" "length bs \<le> n"
      using byte_source.read_spec [OF assms, of n b] by blast
    with Cons B_Read show ?thesis by (auto simp: reads_fit_def)
  qed (use Cons in \<open>auto simp: reads_fit_def\<close>)
qed (simp add: reads_fit_def)

lemma reads_of_bytes:
  assumes "byte_source rd pend" "0 < n"
  shows "reads_of rd n b (used @ rest) \<Longrightarrow>
    \<exists>b'. pend b = bytes_read used @ pend b' \<and> (used \<noteq> [] \<and> last used = B_Read (Ok []) \<longrightarrow> pend b' = [])"
proof (induction used arbitrary: b)
  case (Cons i used)
  show ?case
  proof (cases i)
    case (B_Event ev)
    with Cons show ?thesis by (cases "used = []") auto
  next
    case (B_Read r)
    obtain bs b1 where rd: "rd n b = (Ok bs, b1)" "pend b = bs @ pend b1" "pend b \<noteq> [] \<longrightarrow> bs \<noteq> []"
      using byte_source.read_spec [OF assms(1), of n b] assms(2) by blast
    with Cons.prems B_Read have "r = Ok bs" "reads_of rd n b1 (used @ rest)" by simp_all
    with Cons.IH [of b1] rd B_Read show ?thesis by (cases "used = []") auto
  qed
qed auto

lemma start_stream [simp]:
  "s_id (tk_stream (start_task E req stream_end bt s)) = s_id s"
  "sent (tk_stream (start_task E req stream_end bt s)) = sent s"
  by (auto simp: start_task_def open_body_def make_h2_body_def split: body_type.splits)

text \<open>A stream before its task has begun.\<close>

definition fresh :: "stream \<Rightarrow> bool" where
  "fresh s \<longleftrightarrow> \<not> background_tx s \<and> body_queue s = []"

lemma nothing_used [simp]:
  "\<exists>u. (\<exists>u'. ins = u @ u') \<and> task_run (body_mail u) s s"
  "\<exists>w. (\<exists>w'. waits = w @ w') \<and> task_run (wait_mail w) s s"
  by (rule exI [of _ "[]"], simp add: task_run.stays)+

lemma get_response_steps:
  assumes "get_response E req stream_end waits s = (Ok p, s1)" "fresh s"
  shows "quiet s s1 \<and> (\<exists>used rest. waits = used @ rest \<and> task_run (wait_mail used) s s1)"
proof (cases "\<exists>bt. request_body_type_h2 (te_crate E) req = Ok bt")
  case False
  with assms(1) have "s1 = s"
    by (auto simp: get_response_def validate_def split: outcome.splits prod.splits)
  then show ?thesis by simp
next
  case True
  then obtain bt where bt: "request_body_type_h2 (te_crate E) req = Ok bt" by blast
  let ?t = "start_task E req stream_end bt s"
  obtain p1 t where t: "wait_handler E waits ?t = (Ok p1, t)" "s1 = tk_stream t"
    using assms(1) bt by (auto simp: get_response_def validate_def split: prod.splits)
  have inv: "body_inv (snd (make_h2_body stream_end bt)) ?t"
    by (rule start_task_inv(1)) (use assms(2) in \<open>simp_all add: fresh_def\<close>)
  from wait_handler_steps [OF t(1) inv] obtain used rest where
    u: "waits = used @ rest" "quiet (tk_stream ?t) s1" "task_run (wait_mail used) (tk_stream ?t) s1"
    using t(2) by (auto simp: flows_def)
  have "tk_stream ?t = open_body stream_end bt s"
    by (simp add: start_task_def split: prod.split)
  then have "task_run [] s (tk_stream ?t)"
    using task_run_step [OF task_step.opens] by metis
  from task_run_trans [OF this u(3)] u(1,2) show ?thesis
    by (auto simp: quiet_def)
qed

text \<open>What is sent for a response: its head, then its body.\<close>

definition with_head :: "resp_head \<Rightarrow> bool \<Rightarrow> stream \<Rightarrow> stream" where
  "with_head h es s = s\<lparr>sent := sent s @ [CR_Response h (s_id s) es]\<rparr>"

lemma with_head_simps [simp]:
  "sent (with_head h es s) = sent s @ [CR_Response h (s_id s) es]" "s_id (with_head h es s) = s_id s"
  by (simp_all add: with_head_def)

lemma send_answer_steps:
  assumes answer: "send_answer E ins resp s = (Ok p, s')"
    and fit: "bd_body (rs_body resp) \<noteq> None \<longrightarrow> reads_fit 16384 ins"
  obtains resp' s1 where "finish_response E resp = Ok resp'"
    "s1 = with_head (resp_parts (te_crate E) resp') (bd_body (rs_body resp) = None) s"
    "task_run [] s s1" "streams_used ins s1 s'" "bd_body (rs_body resp) = None \<longrightarrow> s' = s1"
    "bd_body (rs_body resp) \<noteq> None \<longrightarrow> (\<exists>b'. body_goal ins (s1, with_capacity 16384) p (s', b'))"
proof -
  obtain resp' where resp': "finish_response E resp = Ok resp'"
    using answer by (auto simp: send_answer_def sbind_def slift_def split: outcome.splits)
  then have body: "rs_body resp' = rs_body resp"
    by (auto simp: finish_response_def split: option.splits)
  let ?none = "bd_body (rs_body resp) = None" and ?h = "resp_parts (te_crate E) resp'"
  obtain s1 where s1: "send_conn (ConnErr ProtocolError) (CR_Response ?h (s_id s) ?none) s = (Ok (), s1)"
    "(if ?none then (Ok (Ready ()), s1)
      else case send_body ins None (s1, with_capacity 16384) of (r, (s'', _)) \<Rightarrow> (r, s'')) = (Ok p, s')"
    using answer resp' body
    by (auto simp: send_answer_def sbind_def slift_def Let_def split: outcome.splits prod.splits)
  have run: "task_run [] s s1" using task_run_step [OF task_step.responds [OF s1(1)]] .
  have head: "s1 = with_head ?h ?none s"
    using s1(1) by (auto simp: send_conn_def with_head_def split: if_splits)
  show thesis
  proof (cases ?none)
    case True
    then have "s' = s1" using s1(2) by simp
    then have used: "streams_used ins s1 s'" by simp
    show thesis by (rule that [OF resp' head run used]) (use True \<open>s' = s1\<close> in simp_all)
  next
    case False
    with s1(2) obtain b' where send: "send_body ins None (s1, with_capacity 16384) = (Ok p, (s', b'))"
      by (auto split: prod.splits)
    have fit: "reads_fit 16384 ins" using False fit by simp
    have used: "streams_used ins s1 s'"
      using send_body_streams [OF send, of 16384] fit by (simp add: buffer_ops)
    have goal: "body_goal ins (s1, with_capacity 16384) p (s', b')"
      using send_body_goal [OF send, of 16384] fit by (simp add: buffer_ops)
    show thesis by (rule that [OF resp' head run used]) (use False goal in auto)
  qed
qed

text \<open>
  A chunk of the body that the window at hand covers goes out at once, so that a body that is
  covered is sent to its end.
\<close>

lemma covered_chunk:
  assumes b: "buffer_inv b" "view b = []" "length bs \<le> buffer_capacity b"
    and bs: "bs \<noteq> []" "i32_ok (int (length bs))" "int (length bs) \<le> available_window s" and "conn_open s"
  shows "\<exists>s' b'. send_body (B_Read (Ok bs) # ins) None (s, b) = send_body ins None (s', b') \<and>
    buffer_inv b' \<and> view b' = [] \<and> buffer_capacity b' = buffer_capacity b \<and> conn_open s' \<and>
    available_window s' = available_window s - int (length bs)"
proof -
  let ?n = "length bs"
  obtain b1 where b1: "read_chunk (Ok bs) b = (Ok ?n, b1)" "buffer_inv b1" "view b1 = bs"
    "buffer_capacity b1 = buffer_capacity b"
    by (rule read_chunk_view [OF b])
  have avail: "available_for_read b1 = ?n" using length_view [OF b1(2)] b1(3) by simp
  have "\<exists>n s1. request_window (int ?n) s = (Ok n, s1) \<and> conn_open s1 \<and> available_window s1 = available_window s"
    using assms(7) by (simp add: request_window_def send_conn_def sbind_def Let_def)
  then obtain n s1 where req: "request_window (int ?n) s = (Ok n, s1)" "conn_open s1"
    "available_window s1 = available_window s" by blast
  have data: "obind (as_ref b1) (slice 0 ?n) = (Ok bs :: byte list h2)"
    using b1(2,3) by (simp add: as_ref_view)
  have amount: "(if nat (available_window s1) > available_for_read b1 then available_for_read b1
      else nat (available_window s1)) = ?n"
    using req(3) bs(3) avail by auto
  have "\<exists>s2. send_available (s1, b1) = (Ok (), (s2, progress ?n b1)) \<and> conn_open s2 \<and>
      available_window s2 = available_window s - int ?n"
    using req(2,3) bs(2)
    unfolding send_available_def Let_def prod.case amount data
    by (simp add: send_conn_def usize_to_i32_def checked_i32_def)
  then obtain s2 where s2: "send_available (s1, b1) = (Ok (), (s2, progress ?n b1))" "conn_open s2"
    "available_window s2 = available_window s - int ?n" by blast
  note pr = progress_ops [OF b1(2), of ?n]
  have pos: "0 < available_window s" using bs(1,3) by (cases bs) auto
  have empty: "available_for_read (progress ?n b1) = 0"
    using length_view [OF pr(1)] pr b1(3) by simp
  have "body_step (int ?n) (s, b1) = (Ok (Again n), (s2, progress ?n b1))"
    using avail req s2(1) bs pos by (simp add: body_step_def sbind_def sret_def)
  moreover have "body_run n (s2, progress ?n b1) = (Ok Sent, (s2, progress ?n b1))"
    using empty by (simp add: body_run.simps [of n] body_step_def)
  ultimately have "body_run (int ?n) (s, b1) = (Ok Sent, (s2, progress ?n b1))"
    by (simp add: body_run.simps [of "int ?n"])
  then have "send_body (B_Read (Ok bs) # ins) None (s, b) = send_body ins None (s2, progress ?n b1)"
    using b1(1) bs by (simp add: send_body_resume resume_def usize_to_i32_def checked_i32_def del: send_body.simps)
  with pr b1 s2 show ?thesis by (intro exI [of _ s2] exI [of _ "progress ?n b1"]) simp
qed

lemma covered_body_sent:
  "buffer_inv b \<Longrightarrow> view b = [] \<Longrightarrow> conn_open s \<Longrightarrow>
   \<forall>bs\<in>set pieces. bs \<noteq> [] \<and> length bs \<le> buffer_capacity b \<and> i32_ok (int (length bs)) \<Longrightarrow>
   int (length (concat pieces)) \<le> available_window s \<Longrightarrow>
   fst (send_body (map (\<lambda>bs. B_Read (Ok bs)) pieces @ [B_Read (Ok [])]) None (s, b)) = Ok (Ready ())"
proof (induction pieces arbitrary: s b)
  case Nil
  obtain b1 where "read_chunk (Ok []) b = (Ok 0, b1)"
    using read_chunk_view [OF Nil(1,2), of "[]"] by auto
  with Nil show ?case by (simp add: end_of_body_def send_conn_def)
next
  case (Cons bs pieces)
  from Cons.prems covered_chunk [of b bs s "map (\<lambda>bs. B_Read (Ok bs)) pieces @ [B_Read (Ok [])]"]
  obtain s' b' where one: "send_body (B_Read (Ok bs) # map (\<lambda>bs. B_Read (Ok bs)) pieces @ [B_Read (Ok [])]) None (s, b) =
      send_body (map (\<lambda>bs. B_Read (Ok bs)) pieces @ [B_Read (Ok [])]) None (s', b')"
    "buffer_inv b'" "view b' = []" "buffer_capacity b' = buffer_capacity b" "conn_open s'"
    "available_window s' = available_window s - int (length bs)"
    by auto
  with Cons.IH [of b' s'] Cons.prems show ?case by (simp del: send_body.simps)
qed

text \<open>
  A handler to run: it fails for \<open>/fail\<close>, and otherwise reads once and answers with what it got.
\<close>

definition echo_h2_env ::
  "(byte list, byte list, byte list, byte list, byte list list, byte list option \<times> bool) h2_env" where
  "echo_h2_env = \<lparr>te_crate = ascii_crate, te_date = Some (bytes_of ''today''),
     te_start = (\<lambda>req _. (None, rq_uri req = bytes_of ''/fail'')),
     te_act = (\<lambda>(got, fails).
       if fails then Act_Done (Failed (http_error_from_status status_not_found))
       else case got of None \<Rightarrow> Act_Read 10 | Some bs \<Rightarrow> Act_Done (Responded (plain_response None [bs]))),
     te_resume = (\<lambda>(got, fails) r. (Some (case r of Ok bs \<Rightarrow> bs | _ \<Rightarrow> []), fails))\<rparr>"

definition post_request :: "string \<Rightarrow> (byte list, byte list, byte list, byte list) request" where
  "post_request target = \<lparr>rq_method = bytes_of ''POST'', rq_uri = bytes_of target, rq_version = HTTP_2, rq_headers = []\<rparr>"

definition echo_waits :: "wait_input list" where
  "echo_waits = [W_Req (Some (AvailableWindow 2)), W_Poll,
     W_Req (Some (RequestBody \<lparr>d_stream = 1, d_end_stream = False, d_data = [7, 8]\<rparr>)), W_Poll, W_Window, W_Poll]"

definition echo_ins :: "body_input list" where
  "echo_ins = [B_Read (Ok [7, 8]), B_Read (Ok [])]"

lemma echo_response:
  "\<exists>s1. get_response echo_h2_env (post_request ''/echo'') False echo_waits (stream_new 1 Open 100 100) =
     (Ok (Ready (plain_response None [[7, 8]])), s1) \<and> conn_open s1 \<and> available_window s1 = 2"
proof -
  let ?g = "get_response echo_h2_env (post_request ''/echo'') False echo_waits (stream_new 1 Open 100 100)"
  have "fst ?g = Ok (Ready (plain_response None [[7, 8]]))" "conn_open (snd ?g) \<and> available_window (snd ?g) = 2"
    by code_simp+
  then show ?thesis by (metis prod.collapse)
qed

lemma echo_answered:
  "\<exists>s'. stream_main echo_h2_env (post_request ''/echo'') False echo_waits echo_ins (stream_new 1 Open 100 100) =
     (Ok (Ready ()), s')"
proof -
  let ?resp = "plain_response None [[7, 8]] :: (byte list, byte list, byte list list) response"
  obtain s1 where get: "get_response echo_h2_env (post_request ''/echo'') False echo_waits
      (stream_new 1 Open 100 100) = (Ok (Ready ?resp), s1)" "conn_open s1" "available_window s1 = 2"
    using echo_response by blast
  have "headers_get (te_crate echo_h2_env) (bytes_of ''date'') (rs_headers ?resp) = None"
    by (simp add: headers_get_None plain_response_def)
  then have "\<exists>resp'. finish_response echo_h2_env ?resp = Ok resp' \<and> bd_body (rs_body resp') = Some [[7, 8]]"
    by (simp add: finish_response_def plain_response_def echo_h2_env_def)
  then obtain resp' where resp': "finish_response echo_h2_env ?resp = Ok resp'" "bd_body (rs_body resp') = Some [[7, 8]]"
    by blast
  obtain s2 where s2: "send_conn (ConnErr ProtocolError)
      (CR_Response (resp_parts (te_crate echo_h2_env) resp') (s_id s1) False) s1 = (Ok (), s2)"
    "conn_open s2" "available_window s2 = 2"
    using get(2,3) by (simp add: send_conn_def)
  have "fst (send_body echo_ins None (s2, with_capacity 16384)) = Ok (Ready ())"
    using covered_body_sent [of "with_capacity 16384" s2 "[[7, 8]]"] s2(2,3)
    by (simp add: echo_ins_def buffer_ops i32_ok_def i32_max_def i32_min_def del: send_body.simps)
  then obtain s3 b where "send_body echo_ins None (s2, with_capacity 16384) = (Ok (Ready ()), (s3, b))"
    by (metis prod.collapse)
  with get(1) resp' s2(1) show ?thesis
    by (simp add: stream_main_def send_answer_def del: send_body.simps)
qed

lemma echo_fits: "reads_of chunk_reader 16384 [[7, 8]] echo_ins" "reads_fit 16384 echo_ins"
  by (simp_all add: echo_ins_def reads_fit_def)

lemma fresh_new: "fresh (stream_new i st w pw)"
  by (simp add: fresh_def stream_new_def)

text \<open>The task of a stream takes only steps of \<open>task_step\<close>.\<close>

lemma stream_main_takes_task_steps:
  assumes "stream_main E req stream_end waits ins s = (Ok p, s')" "fresh s" "reads_fit 16384 ins"
  shows "\<exists>w w' u u'. waits = w @ w' \<and> ins = u @ u' \<and> task_run (wait_mail w @ body_mail u) s s'"
proof -
  obtain q s1 where get: "get_response E req stream_end waits s = (Ok q, s1)"
    using assms(1) by (auto simp: stream_main_def sbind_def split: prod.splits outcome.splits)
  obtain w w' where w: "waits = w @ w'" "task_run (wait_mail w) s s1"
    using get_response_steps [OF get assms(2)] by blast
  have "\<exists>u u'. ins = u @ u' \<and> task_run (body_mail u) s1 s'"
  proof (cases q)
    case Pending
    with assms(1) get have "s' = s1" by (simp add: stream_main_def)
    then show ?thesis by simp
  next
    case (Ready resp)
    then have answer: "send_answer E ins resp s1 = (Ok p, s')"
      using assms(1) get by (simp add: stream_main_def)
    obtain s2 where s2: "task_run [] s1 s2" "streams_used ins s2 s'"
      by (rule send_answer_steps [OF answer]) (use assms(3) in simp_all)
    then obtain u u' where "ins = u @ u'" "task_run (body_mail u) s2 s'"
      by (auto simp: streams_used_def streams_on_def)
    with task_run_trans [OF s2(1)] show ?thesis by (metis append_Nil)
  qed
  with w task_run_trans show ?thesis by metis
qed

section \<open>Properties\<close>

text \<open>
  C10. A stream answers its request: when its task ends, it has sent exactly one head of a
  response, the one of the handler with a date, before it no data, and after it the bytes of the
  body in DATA frames, in order and complete, closed by the frame with END_STREAM; without a body
  the head itself ends the stream. This holds however the requests of the connection, the window
  grants, the reads of the handler and those of the body are interleaved.
\<close>

theorem stream_answers_request:
  assumes "stream_main E req stream_end waits ins s = (Ok (Ready ()), s')" "fresh s"
    and "get_response E req stream_end waits s = (Ok (Ready resp), s1)"
    and "byte_source rd pend" "\<forall>b. bd_body (rs_body resp) = Some b \<longrightarrow> reads_of rd 16384 b ins"
  shows "\<exists>resp' pre new. finish_response E resp = Ok resp' \<and>
    sent s' = sent s @ pre @
      CR_Response (resp_parts (te_crate E) resp') (s_id s) (bd_body (rs_body resp) = None) # new \<and>
    responses (pre @ new) = [] \<and> data_of pre = [] \<and>
    (case bd_body (rs_body resp) of None \<Rightarrow> new = []
     | Some b \<Rightarrow> data_of new = pend b \<and> last new = end_frame s)"
proof -
  have answer: "send_answer E ins resp s1 = (Ok (Ready ()), s')"
    using assms(1,3) by (simp add: stream_main_def)
  have fit: "bd_body (rs_body resp) \<noteq> None \<longrightarrow> reads_fit 16384 ins"
    using assms(5) reads_of_fit [OF assms(4), of 16384 _ ins] by (cases "bd_body (rs_body resp)") auto
  obtain pre where pre: "s_id s1 = s_id s" "sent s1 = sent s @ pre" "responses pre = []" "data_of pre = []"
    using get_response_steps [OF assms(3,2)] by (auto simp: quiet_def)
  obtain resp' s2 where a: "finish_response E resp = Ok resp'"
    "s2 = with_head (resp_parts (te_crate E) resp') (bd_body (rs_body resp) = None) s1"
    "task_run [] s1 s2" "streams_used ins s2 s'" "bd_body (rs_body resp) = None \<longrightarrow> s' = s2"
    "bd_body (rs_body resp) \<noteq> None \<longrightarrow> (\<exists>b'. body_goal ins (s2, with_capacity 16384) (Ready ()) (s', b'))"
    by (rule send_answer_steps [OF answer fit])
  show ?thesis
  proof (cases "bd_body (rs_body resp)")
    case None
    with a pre show ?thesis by simp
  next
    case (Some b)
    with a(6) obtain b' used rest new where g: "ins = used @ rest"
      "delivers used (s2, with_capacity 16384) (s', b') new" "view b' = []" "new \<noteq> []" "last new = end_frame s'"
      "used \<noteq> []" "last used = B_Read (Ok [])"
      by (auto simp: body_goal_def)
    then have new: "sent s' = sent s2 @ new" "s_id s' = s_id s2" "data_of new = bytes_read used"
      by (simp_all add: delivers_def buffer_ops)
    have "bytes_read used = pend b"
      using reads_of_bytes [OF assms(4), of 16384 b used rest] assms(5) Some g by auto
    moreover have "responses new = []"
      using a(4) new(1) by (auto simp: streams_used_def streams_on_def)
    moreover have "end_frame s' = end_frame s"
      using new(2) a(2) pre(1) by (simp add: end_frame_def)
    ultimately show ?thesis
      using a(1,2) pre new g(5) Some by (intro exI [of _ resp'] exI [of _ pre] exI [of _ new]) simp
  qed
qed

theorem stream_answers_request_witness:
  "\<exists>s' pre h new. stream_main echo_h2_env (post_request ''/echo'') False echo_waits echo_ins
      (stream_new 1 Open 100 100) = (Ok (Ready ()), s') \<and>
    sent s' = pre @ CR_Response h 1 False # new \<and> data_of new = [7, 8]"
proof -
  let ?s = "stream_new 1 Open 100 100"
  let ?resp = "plain_response None [[7, 8]] :: (byte list, byte list, byte list list) response"
  obtain s1 where get: "get_response echo_h2_env (post_request ''/echo'') False echo_waits ?s = (Ok (Ready ?resp), s1)"
    using echo_response by blast
  obtain s' where main: "stream_main echo_h2_env (post_request ''/echo'') False echo_waits echo_ins ?s = (Ok (Ready ()), s')"
    using echo_answered by blast
  have body: "bd_body (rs_body ?resp) = Some [[7, 8]]" by (simp add: plain_response_def)
  have "\<exists>resp' pre new. finish_response echo_h2_env ?resp = Ok resp' \<and>
    sent s' = sent ?s @ pre @ CR_Response (resp_parts (te_crate echo_h2_env) resp') (s_id ?s)
      (bd_body (rs_body ?resp) = None) # new \<and>
    responses (pre @ new) = [] \<and> data_of pre = [] \<and>
    (case bd_body (rs_body ?resp) of None \<Rightarrow> new = []
     | Some b \<Rightarrow> data_of new = concat b \<and> last new = end_frame ?s)"
    by (rule stream_answers_request [OF main fresh_new get chunk_source.byte_source_axioms])
      (use echo_fits(1) body in simp)
  then obtain resp' :: "(byte list, byte list, byte list list) response" and pre new where
    "sent s' = sent ?s @ pre @ CR_Response (resp_parts (te_crate echo_h2_env) resp') (s_id ?s)
      (bd_body (rs_body ?resp) = None) # new"
    "case bd_body (rs_body ?resp) of None \<Rightarrow> new = [] | Some b \<Rightarrow> data_of new = concat b \<and> last new = end_frame ?s"
    by blast
  then have sent: "sent s' = pre @ CR_Response (resp_parts ascii_crate resp') 1 False # new" and new: "data_of new = [7, 8]"
    using body by (simp_all add: stream_new_def echo_h2_env_def)
  with main show ?thesis by blast
qed

text \<open>
  C12. The task of a stream, as the code runs it, is a task of the system of connection and streams:
  with the messages it takes in its mail, the system makes the same steps, and what the task sends
  waits for the connection. What is proved of every run of that system, above all that the data
  stay within the windows of the peer, holds of the code's task.
\<close>

theorem stream_main_in_system:
  fixes C :: "('m, 'u, 'n, 'v) http_crate" and decode :: "'d hpack_decode" and encode :: "'e hpack_encode"
  assumes "stream_main E req stream_end waits ins s = (Ok p, s')" "fresh s" "reads_fit 16384 ins"
  shows "\<exists>w w' u u'. waits = w @ w' \<and> ins = u @ u' \<and>
    (\<forall>S i rest. running S i = Some s \<longrightarrow> mail (conn_of S) i = Some (wait_mail w @ body_mail u @ rest) \<longrightarrow>
      (\<exists>S'. (sys_step C decode encode)\<^sup>*\<^sup>* S S' \<and> running S' i = Some s' \<and> mail (conn_of S') i = Some rest \<and>
        waiting S' = waiting S @ new_messages s s' \<and> wire (conn_of S') = wire (conn_of S)))"
proof -
  obtain w w' u u' where used: "waits = w @ w'" "ins = u @ u'" and run: "task_run (wait_mail w @ body_mail u) s s'"
    using stream_main_takes_task_steps [OF assms] by blast
  have "\<exists>S'. (sys_step C decode encode)\<^sup>*\<^sup>* S S' \<and> running S' i = Some s' \<and> mail (conn_of S') i = Some rest \<and>
      waiting S' = waiting S @ new_messages s s' \<and> wire (conn_of S') = wire (conn_of S)"
    if "running S i = Some s" "mail (conn_of S) i = Some (wait_mail w @ body_mail u @ rest)" for S i rest
    using task_run_in_system [OF run that(1)] that(2) by simp
  with used show ?thesis by blast
qed

theorem stream_main_in_system_witness:
  "\<exists>S S' s'. stream_main echo_h2_env (post_request ''/echo'') False echo_waits echo_ins (stream_new 1 Open 100 100) =
      (Ok (Ready ()), s') \<and>
    (sys_step example_crate (\<lambda>d _. (None, d)) (\<lambda>e _. ([], e)))\<^sup>*\<^sup>* (S :: (unit, unit, unit, unit, unit, unit) sys) S' \<and>
    running S 0 = Some (stream_new 1 Open 100 100) \<and> running S' 0 = Some s' \<and> waiting S' = sent s'"
proof -
  let ?s = "stream_new 1 Open 100 100" and ?C = "example_crate" and ?d = "\<lambda>d _. (None, d)" and ?e = "\<lambda>e _. ([], e)"
  obtain s' where main: "stream_main echo_h2_env (post_request ''/echo'') False echo_waits echo_ins ?s = (Ok (Ready ()), s')"
    using echo_answered by blast
  obtain w u where run: "\<And>(S :: (unit, unit, unit, unit, unit, unit) sys) i rest. running S i = Some ?s \<Longrightarrow>
      mail (conn_of S) i = Some (wait_mail w @ body_mail u @ rest) \<Longrightarrow>
      \<exists>S'. (sys_step ?C ?d ?e)\<^sup>*\<^sup>* S S' \<and> running S' i = Some s' \<and> mail (conn_of S') i = Some rest \<and>
        waiting S' = waiting S @ new_messages ?s s' \<and> wire (conn_of S') = wire (conn_of S)"
    using stream_main_in_system [OF main fresh_new echo_fits(2), of ?C ?d ?e] by blast
  define c :: "(unit, unit, unit, unit, unit, unit) conn" where
    "c = (conn_new example_config () () [] 0)\<lparr>mail := (\<lambda>_. Some (wait_mail w @ body_mail u))\<rparr>"
  let ?S = "(sys_start c)\<lparr>running := (\<lambda>_. Some ?s)\<rparr>"
  have "running ?S 0 = Some ?s" "mail (conn_of ?S) 0 = Some (wait_mail w @ body_mail u @ [])" "waiting ?S = []"
    by (simp_all add: sys_start_def c_def)
  moreover have "new_messages ?s s' = sent s'"
    by (simp add: new_messages_def stream_new_def)
  ultimately show ?thesis using run [of ?S 0 "[]"] main by (metis append_Nil)
qed

text \<open>
  C11. While its handler runs, a stream neither loses nor invents bytes of the request's body nor
  window of the peer: what the handler has read, what its reader holds and what waits in the
  channel are together the data that came, in order; the window the peer has left, the updates
  under way and the bytes not yet reported are together the window it had; and the handler never
  reads more than the announced length.
\<close>

theorem request_body_flows:
  assumes "wait_handler E waits (start_task E req stream_end bt s) = (Ok p, t)" "fresh s"
  shows "\<exists>used rest. waits = used @ rest \<and> (p = Pending \<longrightarrow> rest = []) \<and>
    tk_read t @ unread t = body_data used \<and> s_peer_window (tk_stream t) + owed t = s_peer_window s \<and>
    (\<forall>sz. snd (make_h2_body stream_end bt) = Some sz \<longrightarrow> length (tk_read t) \<le> sz)"
proof -
  let ?m = "snd (make_h2_body stream_end bt)"
  note start = start_task_inv [where s = s and bt = bt and E = E and req = req and stream_end = stream_end]
  from wait_handler_steps [OF assms(1) start(1)] assms(2) obtain used rest where
    u: "waits = used @ rest" "p = Pending \<longrightarrow> rest = []" "flows ?m (body_data used) (start_task E req stream_end bt s) t"
    by (auto simp: fresh_def)
  then have "length (tk_read t) \<le> sz" if "?m = Some sz" for sz
    using that by (auto simp: flows_def body_inv_def limit_kept_def split: h2_reader.splits)
  with u start assms(2) show ?thesis by (auto simp: flows_def fresh_def)
qed

theorem request_body_flows_witness:
  "\<exists>t used rest. wait_handler echo_h2_env (take 5 echo_waits) (start_task echo_h2_env (post_request ''/echo'') False Chunked
      (stream_new 1 Open 100 100)) = (Ok Pending, t) \<and> take 5 echo_waits = used @ rest \<and> rest = [] \<and>
    tk_read t @ unread t = body_data used \<and> s_peer_window (tk_stream t) + owed t = 100"
proof -
  let ?w = "wait_handler echo_h2_env (take 5 echo_waits) (start_task echo_h2_env (post_request ''/echo'') False Chunked
      (stream_new 1 Open 100 100))"
  have "fst ?w = Ok Pending" by code_simp
  then obtain t where t: "?w = (Ok Pending, t)" by (metis prod.collapse)
  from request_body_flows [OF this fresh_new] t show ?thesis
    by (auto simp: stream_new_def)
qed



end
