(* ===== verification/Path_Parser.thy ===== *)
theory Path_Parser
  imports Rust_Str
begin

text \<open>
  \<open>src/src/util/path.rs\<close>: patterns of paths with variables (\<open>/home/{user}\<close>) and the extraction of
  the variables from a path. The code compares characters and nothing else, so the characters of
  HOL stand for those of Rust. What \<open>serde_json\<close> does, reading a number and making the caller's
  type of a JSON object, is a parameter.
\<close>

section \<open>Patterns\<close>

datatype path_element = Fixed string | Variable string

fun element_text :: "path_element \<Rightarrow> string" where
  "element_text (Fixed s) = s"
| "element_text (Variable s) = s"

record path_parser =
  pp_elements :: "path_element list"
  nr_of_slashes :: nat

datatype path_parser_error =
  Internal | JsonParseError | EmptyPath | NoSlashAtTheBeginning | InvalidSlash
| UnexpectedEndOfPath | InvalidNumberOfSlashes

type_synonym 'a parsed = "('a, path_parser_error) outcome"

definition normalize_and_count_slashes :: "string \<Rightarrow> (string \<times> nat) parsed" where
  "normalize_and_count_slashes path =
     (case path of
        [] \<Rightarrow> Err EmptyPath
      | c # _ \<Rightarrow>
          if c \<noteq> CHR ''/'' then Err NoSlashAtTheBeginning
          else let path' = (case strip_suffix ''/'' path of Some p \<Rightarrow> p | None \<Rightarrow> path) in
            Ok (path', length (filter (\<lambda>ch. ch = CHR ''/'') path')))"

text \<open>
  The loop of \<open>PathParser::from_str\<close>: the elements so far, the text of the current one and whether
  it is fixed.
\<close>

fun pattern_loop :: "path_element list \<Rightarrow> string \<Rightarrow> bool \<Rightarrow> string
    \<Rightarrow> (path_element list \<times> string \<times> bool) option" where
  "pattern_loop elements element fixed [] = Some (elements, element, fixed)"
| "pattern_loop elements element fixed (ch # chs) =
     (if fixed
      then if ch = CHR ''}'' then None
        else if ch = CHR ''{''
          then if element = [] then None
            else pattern_loop (elements @ [Fixed element]) [] False chs
        else pattern_loop elements (element @ [ch]) fixed chs
      else if ch = CHR ''{'' then None
        else if ch = CHR ''/'' then None
        else if ch = CHR ''}''
          then if element = [] then None
            else if list_ex (\<lambda>compare. element_text compare = element) elements then None
            else pattern_loop (elements @ [Variable element]) [] True chs
        else pattern_loop elements (element @ [ch]) fixed chs)"

definition parser_from_str :: "string \<Rightarrow> path_parser option" where
  "parser_from_str s =
     (case normalize_and_count_slashes s of
        Ok (s', slashes) \<Rightarrow>
          (case pattern_loop [] [] True s' of
             Some (elements, element, fixed) \<Rightarrow>
               if \<not> fixed then None
               else Some \<lparr>pp_elements = (if element = [] then elements else elements @ [Fixed element]),
                 nr_of_slashes = slashes\<rparr>
           | None \<Rightarrow> None)
      | _ \<Rightarrow> None)"

section \<open>Paths\<close>

definition is_path_appropriate :: "path_parser \<Rightarrow> string \<Rightarrow> bool" where
  "is_path_appropriate p path =
     (case normalize_and_count_slashes path of
        Ok (_, slashes) \<Rightarrow> slashes = nr_of_slashes p
      | _ \<Rightarrow> False)"

text \<open>The JSON values of variables; a number is what \<open>serde_json\<close> reads of it.\<close>

datatype 'n json = JNull | JBool bool | JNumber 'n | JString string

definition string_to_json_value :: "(string \<Rightarrow> 'n option) \<Rightarrow> string \<Rightarrow> 'n json" where
  "string_to_json_value number s =
     (if s = ''null'' then JNull
      else if s = ''true'' then JBool True
      else if s = ''false'' then JBool False
      else case number s of Some n \<Rightarrow> JNumber n | None \<Rightarrow> JString s)"

text \<open>
  The end of a variable: the first character of the next element, which has to come before the
  next slash, or without a next element the next slash or the end.
\<close>

fun variable_until :: "char \<Rightarrow> string \<Rightarrow> string parsed" where
  "variable_until search [] = Err UnexpectedEndOfPath"
| "variable_until search (ch # chs) =
     (if ch = search then Ok []
      else if ch = CHR ''/'' then Err InvalidSlash
      else obind (variable_until search chs) (\<lambda>pre. Ok (ch # pre)))"

definition variable_prefix :: "path_element list \<Rightarrow> string \<Rightarrow> string parsed" where
  "variable_prefix following path =
     (case following of
        element # _ \<Rightarrow>
          (case element_text element of
             [] \<Rightarrow> Err Internal
           | search # _ \<Rightarrow> variable_until search path)
      | [] \<Rightarrow> Ok (takeWhile (\<lambda>ch. ch \<noteq> CHR ''/'') path))"

fun parse_loop :: "(string \<Rightarrow> 'n option) \<Rightarrow> path_element list \<Rightarrow> string \<Rightarrow> (string \<rightharpoonup> 'n json)
    \<Rightarrow> (string \<rightharpoonup> 'n json) parsed" where
  "parse_loop number [] path m = Ok m"
| "parse_loop number (element # following) path m =
     (if path = [] then Ok m
      else case element of
        Fixed pre \<Rightarrow>
          obind (ok_or Internal (strip_prefix pre path)) (\<lambda>path'.
          parse_loop number following path' m)
      | Variable name \<Rightarrow>
          obind (variable_prefix following path) (\<lambda>pre.
          obind (ok_or Internal (strip_prefix pre path)) (\<lambda>path'.
          parse_loop number following path' (m(name \<mapsto> string_to_json_value number pre)))))"

definition path_parse ::
  "(string \<Rightarrow> 'n option) \<Rightarrow> ((string \<rightharpoonup> 'n json) \<Rightarrow> 't option) \<Rightarrow> path_parser \<Rightarrow> string \<Rightarrow> 't parsed" where
  "path_parse number from_value p path =
     obind (normalize_and_count_slashes path) (\<lambda>(path', slashes).
       if nr_of_slashes p > slashes then Err InvalidNumberOfSlashes
       else obind (parse_loop number (pp_elements p) path' Map.empty) (\<lambda>m.
         ok_or JsonParseError (from_value m)))"

section \<open>Which patterns are accepted\<close>

fun element_source :: "path_element \<Rightarrow> string" where
  "element_source (Fixed s) = s"
| "element_source (Variable s) = CHR ''{'' # s @ [CHR ''}'']"

definition pattern_source :: "path_element list \<Rightarrow> string" where
  "pattern_source es = concat (map element_source es)"

text \<open>
  Fixed parts and variables take turns; none is empty; a name is not the text of an element
  before it.
\<close>

fun elements_ok :: "string list \<Rightarrow> bool \<Rightarrow> path_element list \<Rightarrow> bool" where
  "elements_ok seen fixed [] \<longleftrightarrow> True"
| "elements_ok seen fixed (Fixed s # es) \<longleftrightarrow>
     fixed \<and> s \<noteq> [] \<and> CHR ''{'' \<notin> set s \<and> CHR ''}'' \<notin> set s \<and> elements_ok (seen @ [s]) False es"
| "elements_ok seen fixed (Variable s # es) \<longleftrightarrow>
     \<not> fixed \<and> s \<noteq> [] \<and> CHR ''{'' \<notin> set s \<and> CHR ''}'' \<notin> set s \<and> CHR ''/'' \<notin> set s \<and>
     s \<notin> set seen \<and> elements_ok (seen @ [s]) True es"

definition finish :: "path_element list \<Rightarrow> string \<Rightarrow> path_element list" where
  "finish es el = (if el = [] then es else es @ [Fixed el])"

lemma pattern_loop_fixed:
  "CHR ''{'' \<notin> set t \<Longrightarrow> CHR ''}'' \<notin> set t \<Longrightarrow>
   pattern_loop els el True (t @ r) = pattern_loop els (el @ t) True r"
  by (induction t arbitrary: el) auto

lemma pattern_loop_variable:
  "CHR ''{'' \<notin> set t \<Longrightarrow> CHR ''}'' \<notin> set t \<Longrightarrow> CHR ''/'' \<notin> set t \<Longrightarrow>
   pattern_loop els el False (t @ r) = pattern_loop els (el @ t) False r"
  by (induction t arbitrary: el) auto

lemma list_ex_element_text:
  "list_ex (\<lambda>compare. element_text compare = el) els \<longleftrightarrow> el \<in> set (map element_text els)"
  by (auto simp: list_ex_iff)

lemma pattern_loop_source:
  "elements_ok (map element_text els) True es \<Longrightarrow>
   \<exists>els' el. pattern_loop els [] True (pattern_source es) = Some (els', el, True) \<and>
     finish els' el = els @ es"
proof (induction "length es" arbitrary: es els rule: less_induct)
  case less
  show ?case
  proof (cases es)
    case Nil
    then show ?thesis by (simp add: pattern_source_def finish_def)
  next
    case (Cons e es')
    with less.prems obtain s where s: "e = Fixed s" "s \<noteq> []" "CHR ''{'' \<notin> set s" "CHR ''}'' \<notin> set s"
      "elements_ok (map element_text els @ [s]) False es'"
      by (cases e) auto
    show ?thesis
    proof (cases es')
      case Nil
      then show ?thesis
        using Cons s pattern_loop_fixed [of s els "[]" "[]"]
        by (simp add: pattern_source_def finish_def)
    next
      case (Cons e' es'')
      with s(5) obtain v where v: "e' = Variable v" "v \<noteq> []" "CHR ''{'' \<notin> set v" "CHR ''}'' \<notin> set v"
        "CHR ''/'' \<notin> set v" "v \<notin> set (map element_text els @ [s])"
        "elements_ok (map element_text els @ [s, v]) True es''"
        by (cases e') auto
      let ?els = "els @ [Fixed s, Variable v]"
      have "pattern_loop els [] True (pattern_source es) =
          pattern_loop ?els [] True (pattern_source es'')"
        using \<open>es = e # es'\<close> Cons s v(1-6)
        by (simp add: pattern_source_def pattern_loop_fixed pattern_loop_variable list_ex_element_text)
      moreover have "length es'' < length es" using \<open>es = e # es'\<close> Cons by simp
      ultimately show ?thesis
        using less.hyps [of es'' ?els] v(1,7) \<open>es = e # es'\<close> Cons s(1) by simp
    qed
  qed
qed

lemma pattern_loop_sound:
  "pattern_loop els el fixed chs = Some (els', el', True) \<Longrightarrow>
   CHR ''{'' \<notin> set el \<Longrightarrow> CHR ''}'' \<notin> set el \<Longrightarrow> (\<not> fixed \<longrightarrow> CHR ''/'' \<notin> set el) \<Longrightarrow>
   \<exists>es. finish els' el' = els @ es \<and> elements_ok (map element_text els) fixed es \<and>
     pattern_source es = (if fixed then el @ chs else CHR ''{'' # el @ chs)"
proof (induction els el fixed chs arbitrary: rule: pattern_loop.induct)
  case (1 els el fixed)
  then show ?case
    by (auto simp: finish_def pattern_source_def intro: exI [of _ "[]"] exI [of _ "[Fixed el]"])
next
  case (2 els el fixed ch chs)
  consider (var) "fixed" "ch = CHR ''{''" | (char) "fixed" "ch \<noteq> CHR ''{''" "ch \<noteq> CHR ''}''"
    | (close) "\<not> fixed" "ch = CHR ''}''" | (name) "\<not> fixed" "ch \<noteq> CHR ''{''" "ch \<noteq> CHR ''}''" "ch \<noteq> CHR ''/''"
    using 2(5) by (auto split: if_splits)
  then show ?case
  proof cases
    case var
    with 2(5) have el: "el \<noteq> []" by (auto split: if_splits)
    with var 2(1,5) obtain es where "finish els' el' = (els @ [Fixed el]) @ es"
      "elements_ok (map element_text (els @ [Fixed el])) False es" "pattern_source es = CHR ''{'' # chs"
      by auto
    with var el 2(6,7) show ?thesis
      by (intro exI [of _ "Fixed el # es"]) (simp add: pattern_source_def)
  next
    case char
    with 2(2,5-7) show ?thesis by simp
  next
    case close
    with 2(5) have el: "el \<noteq> []" "el \<notin> set (map element_text els)"
      by (auto simp: list_ex_element_text split: if_splits)
    with close 2(3,5) obtain es where "finish els' el' = (els @ [Variable el]) @ es"
      "elements_ok (map element_text (els @ [Variable el])) True es" "pattern_source es = chs"
      by (auto simp: list_ex_element_text)
    with close el 2(6-8) show ?thesis
      by (intro exI [of _ "Variable el # es"]) (simp add: pattern_source_def)
  next
    case name
    with 2(4,5-8) show ?thesis by simp
  qed
qed

lemma normalize_slash: "normalize_and_count_slashes s = Ok (s', n) \<Longrightarrow> s' = [] \<or> (\<exists>r. s' = CHR ''/'' # r)"
  by (auto simp: normalize_and_count_slashes_def Let_def Cons_eq_append_conv
      split: list.splits if_splits option.splits)

lemma parser_from_str_Some:
  "parser_from_str s = Some p \<longleftrightarrow>
   normalize_and_count_slashes s = Ok (pattern_source (pp_elements p), nr_of_slashes p) \<and>
   elements_ok [] True (pp_elements p)"
proof
  assume "parser_from_str s = Some p"
  then obtain s' els el where "normalize_and_count_slashes s = Ok (s', nr_of_slashes p)"
    "pattern_loop [] [] True s' = Some (els, el, True)" "pp_elements p = finish els el"
    by (auto simp: parser_from_str_def finish_def split: outcome.splits option.splits if_splits)
  with pattern_loop_sound [of "[]" "[]" True s' els el]
  show "normalize_and_count_slashes s = Ok (pattern_source (pp_elements p), nr_of_slashes p) \<and>
      elements_ok [] True (pp_elements p)"
    by auto
next
  assume "normalize_and_count_slashes s = Ok (pattern_source (pp_elements p), nr_of_slashes p) \<and>
    elements_ok [] True (pp_elements p)"
  with pattern_loop_source [of "[]" "pp_elements p"] show "parser_from_str s = Some p"
    by (cases p) (auto simp: parser_from_str_def finish_def)
qed

section \<open>Paths of a pattern\<close>

fun element_value :: "(string \<Rightarrow> string) \<Rightarrow> path_element \<Rightarrow> string" where
  "element_value f (Fixed s) = s"
| "element_value f (Variable v) = f v"

definition fill :: "(string \<Rightarrow> string) \<Rightarrow> path_element list \<Rightarrow> string" where
  "fill f es = concat (map (element_value f) es)"

text \<open>
  A value of a variable is not empty, and holds neither a slash nor the character the next
  element starts with.
\<close>

fun values_ok :: "(string \<Rightarrow> string) \<Rightarrow> path_element list \<Rightarrow> bool" where
  "values_ok f [] \<longleftrightarrow> True"
| "values_ok f (Fixed s # es) \<longleftrightarrow> values_ok f es"
| "values_ok f (Variable v # es) \<longleftrightarrow> f v \<noteq> [] \<and> CHR ''/'' \<notin> set (f v) \<and>
     (case es of [] \<Rightarrow> True | e # _ \<Rightarrow> hd (element_text e) \<notin> set (f v)) \<and> values_ok f es"

definition assignment ::
  "(string \<Rightarrow> 'n option) \<Rightarrow> (string \<Rightarrow> string) \<Rightarrow> path_element list \<Rightarrow> (string \<rightharpoonup> 'n json)" where
  "assignment number f es v =
     (if Variable v \<in> set es then Some (string_to_json_value number (f v)) else None)"

lemma variable_until_at:
  "c \<notin> set t \<Longrightarrow> CHR ''/'' \<notin> set t \<Longrightarrow> variable_until c (t @ c # r) = Ok t"
  by (induction t) auto

lemma takeWhile_until:
  "CHR ''/'' \<notin> set t \<Longrightarrow> rest = [] \<or> hd rest = CHR ''/'' \<Longrightarrow>
   takeWhile (\<lambda>ch. ch \<noteq> CHR ''/'') (t @ rest) = t"
  by (cases rest) (auto simp: takeWhile_append takeWhile_eq_all_conv)

lemma parse_loop_fill:
  "elements_ok seen fixed es \<Longrightarrow> values_ok f es \<Longrightarrow> rest = [] \<or> hd rest = CHR ''/'' \<Longrightarrow>
   parse_loop number es (fill f es @ rest) m = Ok (m ++ assignment number f es)"
proof (induction es arbitrary: seen fixed m)
  case Nil
  have "assignment number f [] = Map.empty" by (simp add: assignment_def fun_eq_iff)
  then show ?case by (simp add: fill_def)
next
  case (Cons e es)
  show ?case
  proof (cases e)
    case (Fixed s)
    with Cons show ?thesis
      by (auto simp: fill_def assignment_def fun_eq_iff map_add_def split: option.splits)
  next
    case (Variable v)
    with Cons.prems have ok: "elements_ok (seen @ [v]) True es" "f v \<noteq> []" "CHR ''/'' \<notin> set (f v)" "values_ok f es"
      by simp_all
    have "variable_prefix es (f v @ fill f es @ rest) = Ok (f v)"
    proof (cases es)
      case Nil
      then show ?thesis
        using takeWhile_until [OF ok(3) Cons.prems(3)] by (simp add: variable_prefix_def fill_def)
    next
      case (Cons e' es')
      with ok(1) obtain c t where t: "e' = Fixed (c # t)"
        by (cases e') (auto simp: neq_Nil_conv)
      then have "c \<notin> set (f v)" using Cons Cons.prems(2) Variable by simp
      from variable_until_at [OF this ok(3)] t Cons show ?thesis
        by (simp add: variable_prefix_def fill_def)
    qed
    moreover have "m(v \<mapsto> string_to_json_value number (f v)) ++ assignment number f es =
        m ++ assignment number f (e # es)"
      using Variable by (auto simp: assignment_def fun_eq_iff map_add_def split: option.splits)
    moreover from calculation(1) have "parse_loop number (e # es) (fill f (e # es) @ rest) m =
        parse_loop number es (fill f es @ rest) (m(v \<mapsto> string_to_json_value number (f v)))"
      using Variable ok(2) by (simp add: fill_def)
    ultimately show ?thesis
      using Cons.IH [OF ok(1,4) Cons.prems(3)] by metis
  qed
qed

definition slashes :: "string \<Rightarrow> nat" where
  "slashes s = length (filter (\<lambda>ch. ch = CHR ''/'') s)"

lemma no_slash: "CHR ''/'' \<notin> set t \<Longrightarrow> filter (\<lambda>ch. ch = CHR ''/'') t = []"
  by (auto simp: filter_empty_conv)

lemma slashes_fill:
  "elements_ok seen fixed es \<Longrightarrow> values_ok f es \<Longrightarrow> slashes (fill f es) = slashes (pattern_source es)"
proof (induction es arbitrary: seen fixed)
  case (Cons e es)
  then show ?case
    by (cases e) (auto simp: fill_def pattern_source_def slashes_def no_slash)
qed (simp add: fill_def pattern_source_def)

lemma normalize_no_slash:
  assumes "path = CHR ''/'' # r" "last path \<noteq> CHR ''/''"
  shows "normalize_and_count_slashes path = Ok (path, slashes path)"
proof -
  have "strip_suffix ''/'' path = None"
    using assms(2) by (auto simp: strip_suffix_None)
  then show ?thesis using assms(1) by (simp add: normalize_and_count_slashes_def slashes_def)
qed

lemma fill_slash:
  assumes "parser_from_str s = Some p" "pp_elements p \<noteq> []"
  obtains r where "fill f (pp_elements p) = CHR ''/'' # r"
proof -
  obtain c t es where es: "pp_elements p = Fixed (c # t) # es"
    using assms by (cases "pp_elements p"; cases "hd (pp_elements p)")
      (auto simp: parser_from_str_Some neq_Nil_conv)
  moreover have "pattern_source (pp_elements p) = [] \<or> (\<exists>r. pattern_source (pp_elements p) = CHR ''/'' # r)"
    using assms(1) normalize_slash by (auto simp: parser_from_str_Some)
  ultimately show ?thesis using that by (auto simp: fill_def pattern_source_def)
qed

lemma path_parse_fill:
  assumes "parser_from_str s = Some p" "pp_elements p \<noteq> []" "values_ok f (pp_elements p)"
    and "rest = [] \<or> hd rest = CHR ''/''" "last (fill f (pp_elements p) @ rest) \<noteq> CHR ''/''"
  shows "path_parse number from_value p (fill f (pp_elements p) @ rest) =
    ok_or JsonParseError (from_value (assignment number f (pp_elements p)))"
proof -
  let ?path = "fill f (pp_elements p) @ rest"
  obtain r where "?path = CHR ''/'' # r @ rest"
    using fill_slash [OF assms(1,2), of f] by auto
  then have norm: "normalize_and_count_slashes ?path = Ok (?path, slashes ?path)"
    using assms(5) by (rule normalize_no_slash)
  have ok: "elements_ok [] True (pp_elements p)" using assms(1) by (simp add: parser_from_str_Some)
  have "nr_of_slashes p = slashes (pattern_source (pp_elements p))"
    using assms(1) by (auto simp: parser_from_str_Some normalize_and_count_slashes_def slashes_def Let_def
        split: list.splits if_splits option.splits)
  then have "nr_of_slashes p = slashes (fill f (pp_elements p))"
    using slashes_fill [OF ok assms(3)] by simp
  then have "nr_of_slashes p \<le> slashes ?path" by (simp add: slashes_def)
  with norm parse_loop_fill [OF ok assms(3,4), of number Map.empty] show ?thesis
    by (simp add: path_parse_def)
qed

section \<open>Properties\<close>

text \<open>
  A pattern is accepted exactly when, without a trailing slash, it is the source of a list of
  elements in which fixed parts and variables take turns, no part is empty, braces are used for
  variables only, no variable holds a slash, and no variable has the text of an element before
  it, be that a variable or a fixed part; the parser returns these elements and the number of
  slashes.
\<close>

lemma path_pattern_accepted_iff:
  "parser_from_str s = Some p \<longleftrightarrow>
   normalize_and_count_slashes s = Ok (pattern_source (pp_elements p), nr_of_slashes p) \<and>
   elements_ok [] True (pp_elements p)"
  by (rule parser_from_str_Some)

text \<open>
  C39. The variables of a path are read back: a path that was made of a pattern by putting a value
  for each variable is parsed to the object that gives every variable its value and has no other
  field, also when further path elements follow. A value must not be empty and must not hold a
  slash or the character that ends the variable.
\<close>

theorem path_values_read_back:
  assumes "parser_from_str s = Some p" "pp_elements p \<noteq> []" "values_ok f (pp_elements p)"
    and "rest = [] \<or> hd rest = CHR ''/''" "last (fill f (pp_elements p) @ rest) \<noteq> CHR ''/''"
  shows "path_parse number from_value p (fill f (pp_elements p) @ rest) =
    ok_or JsonParseError (from_value (assignment number f (pp_elements p)))"
  using assms by (rule path_parse_fill)

definition user_pattern :: path_parser where
  "user_pattern = \<lparr>pp_elements = [Fixed ''/home/'', Variable ''user'', Fixed ''/folder'', Variable ''id''],
     nr_of_slashes = 3\<rparr>"

theorem path_values_read_back_witness:
  "path_parse (\<lambda>s. if s = ''123'' then Some (123 :: nat) else None) (\<lambda>m. Some (m ''user'', m ''id''))
     user_pattern ''/home/alfred/folder123/file'' = Ok (Some (JString ''alfred''), Some (JNumber 123))"
proof -
  have pattern: "parser_from_str ''/home/{user}/folder{id}/'' = Some user_pattern"
    by (simp add: parser_from_str_def normalize_and_count_slashes_def strip_suffix_def strip_prefix_def
        user_pattern_def)
  show ?thesis
    using path_values_read_back [OF pattern, where rest = "''/file''"
        and f = "\<lambda>v. if v = ''user'' then ''alfred'' else ''123''"
        and number = "\<lambda>s. if s = ''123'' then Some (123 :: nat) else None"
        and from_value = "\<lambda>m. Some (m ''user'', m ''id'')"]
    by (simp add: user_pattern_def fill_def assignment_def string_to_json_value_def)
qed

text \<open>
  A path that does not begin with the first fixed part of a pattern, an ordinary path of
  another pattern, is answered with the error that stands for a violated internal invariant,
  and \<open>is_path_appropriate\<close>, which compares the numbers of slashes only, does not tell it apart.
\<close>

lemma foreign_path_is_internal_error:
  assumes "normalize_and_count_slashes path = Ok (path', n)" "path' \<noteq> []"
    and "pp_elements p = Fixed pre # es" "\<not> starts_with pre path'" "nr_of_slashes p = n"
  shows "path_parse number from_value p path = Err Internal \<and> is_path_appropriate p path"
proof -
  have "strip_prefix pre path' = None"
    using assms(4) by (auto simp: strip_prefix_None starts_with_iff)
  with assms show ?thesis
    by (simp_all add: path_parse_def is_path_appropriate_def)
qed

text \<open>The two parts that share a text need not be variables.\<close>

lemma name_of_fixed_part_refused: "parser_from_str ''/{a}id{id}'' = None"
  by (simp add: parser_from_str_def normalize_and_count_slashes_def strip_suffix_def strip_prefix_def)

end
