(* ===== verification/File_Server.thy ===== *)
theory File_Server
  imports Http_Request
begin

text \<open>
  \<open>src/src/util/fs.rs\<close>: the handler that serves the files of a directory. The file system is a
  parameter: which paths are directories, what opening a path gives, the length of an open file.
  Opening a file is an effect, so the handler returns the paths it has opened, in order.
\<close>

section \<open>The handler\<close>

record file_server =
  fs_root :: string
  index_files :: "string list"
  hide_hidden_files :: bool

definition new_with_index_files :: "string \<Rightarrow> string list \<Rightarrow> file_server" where
  "new_with_index_files root files =
     \<lparr>fs_root = root, index_files = files, hide_hidden_files = True\<rparr>"

definition file_server_new :: "string \<Rightarrow> file_server" where
  "file_server_new root = new_with_index_files root []"

definition set_hide_hidden_files :: "bool \<Rightarrow> file_server \<Rightarrow> file_server" where
  "set_hide_hidden_files hide s = s\<lparr>hide_hidden_files := hide\<rparr>"

text \<open>
  The file system and the guess of a mime type. An open file is its reader; its metadata may
  fail.
\<close>

record 'f file_system =
  fs_is_dir :: "string \<Rightarrow> bool"
  fs_open :: "string \<Rightarrow> error_kind + 'f"
  fs_len :: "'f \<Rightarrow> error_kind + nat"
  fs_mime :: "string \<Rightarrow> byte list option"

text \<open>\<open>PathBuf::join\<close>: an absolute path replaces the one it is joined to.\<close>

definition path_join :: "string \<Rightarrow> string \<Rightarrow> string" where
  "path_join base path =
     (if starts_with ''/'' path then path
      else if base = [] \<or> last base = CHR ''/'' then base @ path
      else base @ ''/'' @ path)"

text \<open>\<open>http::Response::new\<close>.\<close>

definition new_response :: "('n, 'v, 'f) response" where
  "new_response = \<lparr>rs_version = HTTP_11, rs_status = \<lparr>st_code = bytes_of ''200'', st_reason = Some (bytes_of ''OK'')\<rparr>,
     rs_headers = [], rs_body = body_default\<rparr>"

text \<open>A status and \<open>content-length: 0\<close>.\<close>

definition answer_empty ::
  "('m, 'u, 'n, 'v, 'z) h1_crate_scheme \<Rightarrow> status \<Rightarrow> ('n, 'v, 'f) response \<Rightarrow> ('n, 'v, 'f) response" where
  "answer_empty C st resp =
     resp\<lparr>rs_status := st,
       rs_headers := header_insert (c_header C (bytes_of ''content-length'')) (c_text C (bytes_of ''0''))
         (rs_headers resp)\<rparr>"

text \<open>\<open>Body::from_file\<close> of \<open>src/src/body.rs\<close>.\<close>

definition body_from_file :: "'f file_system \<Rightarrow> 'f \<Rightarrow> error_kind + 'f body" where
  "body_from_file F file =
     (case fs_len F file of
        Inl err \<Rightarrow> Inl err
      | Inr len \<Rightarrow> Inr \<lparr>bd_body = Some file, bd_len = Some len, bd_finish_on_drop = False\<rparr>)"

definition body_from_file_path :: "'f file_system \<Rightarrow> string \<Rightarrow> error_kind + 'f body" where
  "body_from_file_path F path =
     (case fs_open F path of Inl err \<Rightarrow> Inl err | Inr file \<Rightarrow> body_from_file F file)"

definition add_mime ::
  "('m, 'u, 'n, 'v, 'z) h1_crate_scheme \<Rightarrow> 'f file_system \<Rightarrow> string \<Rightarrow> ('n, 'v, 'f) response \<Rightarrow> ('n, 'v, 'f) response" where
  "add_mime C F path resp =
     (case fs_mime F path of
        None \<Rightarrow> resp
      | Some mime \<Rightarrow>
          (case c_value C mime of
             Some v \<Rightarrow> resp\<lparr>rs_headers := header_insert (c_header C (bytes_of ''content-type'')) v (rs_headers resp)\<rparr>
           | None \<Rightarrow> resp))"

definition try_send_file ::
  "('m, 'u, 'n, 'v, 'z) h1_crate_scheme \<Rightarrow> 'f file_system \<Rightarrow> string \<Rightarrow> ('n, 'v, 'f) response
    \<Rightarrow> bool \<times> ('n, 'v, 'f) response" where
  "try_send_file C F path resp =
     (case fs_open F path of
        Inl err \<Rightarrow>
          if err = NotFound then (False, resp)
          else if err = PermissionDenied then (True, answer_empty C status_forbidden resp)
          else (True, answer_empty C status_server_error resp)
      | Inr file \<Rightarrow>
          let resp = add_mime C F path resp in
          (case body_from_file F file of
             Inl err \<Rightarrow> (True, answer_empty C status_server_error resp)
           | Inr body \<Rightarrow> (True, resp\<lparr>rs_body := body\<rparr>)))"

text \<open>The loop over the index files, with the paths it has opened.\<close>

fun try_index_files ::
  "('m, 'u, 'n, 'v, 'z) h1_crate_scheme \<Rightarrow> 'f file_system \<Rightarrow> string \<Rightarrow> string list \<Rightarrow> ('n, 'v, 'f) response
    \<Rightarrow> bool \<times> ('n, 'v, 'f) response \<times> string list" where
  "try_index_files C F fullpath [] resp = (False, resp, [])"
| "try_index_files C F fullpath (index_file # files) resp =
     (let index_path = path_join fullpath index_file in
      case try_send_file C F index_path resp of
        (True, resp') \<Rightarrow> (True, resp', [index_path])
      | (False, resp') \<Rightarrow>
          (case try_index_files C F fullpath files resp' of
             (found, resp'', opened) \<Rightarrow> (found, resp'', index_path # opened)))"

definition file_server_handle ::
  "('m, 'u, 'n, 'v, 'z) h1_crate_scheme \<Rightarrow> 'f file_system \<Rightarrow> file_server \<Rightarrow> string
    \<Rightarrow> ('n, 'v, 'f) response \<times> string list" where
  "file_server_handle C F s uri_path =
     (let resp = new_response;
          path = dropWhile (\<lambda>c. c = CHR ''/'') uri_path in
      if contains ''../'' path then (answer_empty C status_forbidden resp, [])
      else if hide_hidden_files s \<and> (starts_with ''.'' path \<or> contains ''/.'' path)
        then (answer_empty C status_not_found resp, [])
      else let fullpath = path_join (fs_root s) path in
        if fs_is_dir F fullpath
        then (case try_index_files C F fullpath (index_files s) resp of
            (True, resp', opened) \<Rightarrow> (resp', opened)
          | (False, resp', opened) \<Rightarrow> (answer_empty C status_not_found resp', opened))
        else (case try_send_file C F fullpath resp of
            (True, resp') \<Rightarrow> (resp', [fullpath])
          | (False, resp') \<Rightarrow> (answer_empty C status_not_found resp', [fullpath])))"

section \<open>Which files are opened\<close>

text \<open>The components of a path.\<close>

abbreviation path_parts :: "string \<Rightarrow> string list" where
  "path_parts \<equiv> split_on CHR ''/''"

text \<open>
  The path lies below \<open>root\<close>: no part of the path to it is hidden, let alone the parent directory.
\<close>

definition below :: "string \<Rightarrow> string \<Rightarrow> bool" where
  "below root path \<longleftrightarrow> (\<exists>rel. path = path_join root rel \<and> \<not> starts_with ''/'' rel \<and>
     (\<forall>part\<in>set (path_parts rel). \<not> starts_with ''.'' part))"

text \<open>A name of an index file that stays in its directory.\<close>

definition index_ok :: "string \<Rightarrow> bool" where
  "index_ok f \<longleftrightarrow> f \<noteq> [] \<and> \<not> starts_with ''/'' f \<and> (\<forall>part\<in>set (path_parts f). \<not> starts_with ''.'' part)"

lemma hd_split_on: "c \<noteq> d \<Longrightarrow> starts_with [d] (hd (split_on c xs)) \<longleftrightarrow> starts_with [d] xs"
  by (cases xs) (auto simp: starts_with_def split: list.split)

lemma tl_split_on:
  "(\<forall>part\<in>set (tl (split_on c xs)). \<not> starts_with [d] part) \<longleftrightarrow> \<not> contains [c, d] xs" if "c \<noteq> d"
proof (induction xs)
  case (Cons x xs)
  obtain t ts where split: "split_on c xs = t # ts" by (meson list.exhaust split_on_neq_Nil)
  show ?case
    using Cons split hd_split_on [OF that, of xs] by (auto simp: starts_with_def)
qed simp

text \<open>The check for hidden files looks at every part.\<close>

lemma no_hidden_part:
  "(\<forall>part\<in>set (path_parts path). \<not> starts_with ''.'' part) \<longleftrightarrow>
   \<not> starts_with ''.'' path \<and> \<not> contains ''/.'' path"
proof -
  have "path_parts path = hd (path_parts path) # tl (path_parts path)" by simp
  then have "(\<forall>part\<in>set (path_parts path). \<not> starts_with ''.'' part) \<longleftrightarrow>
      \<not> starts_with ''.'' (hd (path_parts path)) \<and>
      (\<forall>part\<in>set (tl (path_parts path)). \<not> starts_with ''.'' part)"
    by (metis list.set_intros(1,2) set_ConsD)
  then show ?thesis using hd_split_on [of "CHR ''/''" "CHR ''.''" path] tl_split_on [of "CHR ''/''" "CHR ''.''" path]
    by simp
qed

lemma split_on_join2: "split_on c (a @ c # b) = split_on c a @ split_on c b"
proof (induction a)
  case (Cons x a)
  obtain t ts where "split_on c a = t # ts" by (meson list.exhaust split_on_neq_Nil)
  with Cons show ?case by simp
qed simp

text \<open>A file of a directory below the root is below the root.\<close>

lemma join_below:
  assumes "\<not> starts_with ''/'' rel" "\<forall>part\<in>set (path_parts rel). \<not> starts_with ''.'' part" "index_ok f"
  shows "below root (path_join (path_join root rel) f)"
proof -
  have f: "\<not> starts_with ''/'' f" "\<forall>part\<in>set (path_parts f). \<not> starts_with ''.'' part" "f \<noteq> []"
    using assms(3) by (simp_all add: index_ok_def)
  consider (empty) "rel = []" | (slash) a where "rel = a @ ''/''" | (plain) "rel \<noteq> []" "last rel \<noteq> CHR ''/''"
    by (metis append_butlast_last_id)
  then show ?thesis
  proof cases
    case empty
    then have "path_join (path_join root rel) f = path_join root f"
      using f(1) by (auto simp: path_join_def starts_with_def)
    with f show ?thesis by (auto simp: below_def)
  next
    case slash
    then have "path_join (path_join root rel) f = path_join root (rel @ f)"
      using f(1) assms(1) by (cases a) (auto simp: path_join_def starts_with_char)
    moreover have "\<not> starts_with ''/'' (rel @ f)"
      using assms(1) slash by (cases a) (auto simp: starts_with_def)
    moreover have "\<forall>part\<in>set (path_parts (rel @ f)). \<not> starts_with ''.'' part"
      using assms(2) f(2) slash split_on_join2 [of "CHR ''/''" a f] split_on_join2 [of "CHR ''/''" a "[]"]
      by auto
    ultimately show ?thesis by (auto simp: below_def)
  next
    case plain
    then have "path_join (path_join root rel) f = path_join root (rel @ ''/'' @ f)"
      using f(1) assms(1) by (cases rel) (auto simp: path_join_def starts_with_char)
    moreover have "\<not> starts_with ''/'' (rel @ ''/'' @ f)"
      using assms(1) plain by (cases rel) (auto simp: starts_with_def)
    moreover have "\<forall>part\<in>set (path_parts (rel @ ''/'' @ f)). \<not> starts_with ''.'' part"
      using assms(2) f(2) split_on_join2 [of "CHR ''/''" rel f] by auto
    ultimately show ?thesis by (auto simp: below_def)
  qed
qed

lemma try_index_files_opened:
  "try_index_files C F fullpath files resp = (found, resp', opened) \<Longrightarrow>
   set opened \<subseteq> (\<lambda>f. path_join fullpath f) ` set files"
  by (induction files arbitrary: found resp resp' opened)
    (fastforce simp: Let_def split: prod.splits bool.splits)+

lemma handle_below:
  assumes "hide_hidden_files s" "\<forall>f\<in>set (index_files s). index_ok f"
    and "path \<in> set (snd (file_server_handle C F s uri_path))"
  shows "below (fs_root s) path"
proof -
  let ?rel = "dropWhile (\<lambda>c. c = CHR ''/'') uri_path"
  have rel: "\<not> starts_with ''/'' ?rel"
    by (metis (mono_tags, lifting) append_Cons append_self_conv2 hd_dropWhile list.sel(1) list.simps(3) starts_with_iff)
  show ?thesis
  proof (cases "contains ''../'' ?rel \<or> starts_with ''.'' ?rel \<or> contains ''/.'' ?rel")
    case True
    with assms(1,3) show ?thesis by (auto simp: file_server_handle_def Let_def split: if_splits)
  next
    case False
    then have parts: "\<forall>part\<in>set (path_parts ?rel). \<not> starts_with ''.'' part"
      by (simp add: no_hidden_part)
    obtain found resp' opened where tried: "try_index_files C F (path_join (fs_root s) ?rel) (index_files s)
        new_response = (found, resp', opened)"
      by (metis prod_cases3)
    from False assms(3) consider (plain) "path = path_join (fs_root s) ?rel" | (idx) "path \<in> set opened"
      using tried by (auto simp: file_server_handle_def Let_def split: if_splits prod.splits bool.splits)
    then show ?thesis
    proof cases
      case plain
      with rel parts show ?thesis by (auto simp: below_def)
    next
      case idx
      with try_index_files_opened [OF tried] obtain f where "f \<in> set (index_files s)"
        "path = path_join (path_join (fs_root s) ?rel) f"
        by blast
      with join_below [OF rel parts] assms(2) show ?thesis by blast
    qed
  qed
qed

section \<open>Properties\<close>

text \<open>
  C38. With hidden files hidden, the default, the server opens files below its root only: whatever
  the path of the request, every path that is opened is the root joined with a relative path none
  of whose parts is a hidden file or the parent directory.
\<close>

theorem file_server_confined:
  assumes "hide_hidden_files s" "\<forall>f\<in>set (index_files s). index_ok f"
    and "path \<in> set (snd (file_server_handle C F s uri_path))"
  shows "below (fs_root s) path"
  using assms by (rule handle_below)

definition one_file :: "string \<Rightarrow> nat file_system" where
  "one_file path = \<lparr>fs_is_dir = (\<lambda>p. last p = CHR ''/'' \<or> last p = CHR ''.''),
     fs_open = (\<lambda>p. if p = path then Inr 7 else Inl NotFound), fs_len = Inr, fs_mime = (\<lambda>_. None)\<rparr>"

theorem file_server_confined_witness:
  "below ''/srv'' ''/srv/a/index.html'' \<and>
   snd (file_server_handle ascii_crate (one_file ''/srv/a/index.html'')
     (new_with_index_files ''/srv'' [''index.html'']) ''//a/'') = [''/srv/a/index.html'']"
proof -
  have opened: "snd (file_server_handle ascii_crate (one_file ''/srv/a/index.html'')
      (new_with_index_files ''/srv'' [''index.html'']) ''//a/'') = [''/srv/a/index.html'']"
    by (simp add: file_server_handle_def new_with_index_files_def one_file_def starts_with_def path_join_def
        try_send_file_def body_from_file_def Let_def)
  have "index_ok ''index.html''" by (simp add: index_ok_def starts_with_def)
  with file_server_confined [of "new_with_index_files ''/srv'' [''index.html'']" "''/srv/a/index.html''"
      ascii_crate "one_file ''/srv/a/index.html''" "''//a/''"] opened
  show ?thesis by (simp add: new_with_index_files_def)
qed

text \<open>
  With hidden files shown, the check for \<open>../\<close> lets a path through that ends in the parent
  directory: a request for \<open>/..\<close> is answered with an index file of the directory above the root.
\<close>

lemma parent_index_served:
  assumes "\<not> hide_hidden_files s" "fs_root s \<noteq> []" "last (fs_root s) \<noteq> CHR ''/''"
    and "fs_is_dir F (fs_root s @ ''/..'')" "index_files s = f # fs" "\<not> starts_with ''/'' f"
    and "fs_open F (fs_root s @ ''/../'' @ f) = Inr g" "fs_len F g = Inr n"
  shows "\<exists>resp. file_server_handle C F s ''/..'' = (resp, [fs_root s @ ''/../'' @ f]) \<and>
    rs_body resp = \<lparr>bd_body = Some g, bd_len = Some n, bd_finish_on_drop = False\<rparr>"
proof -
  have "path_join (fs_root s) ''..'' = fs_root s @ ''/..''"
      "path_join (fs_root s @ ''/..'') f = fs_root s @ ''/../'' @ f"
    using assms(2,3,6) by (auto simp: path_join_def starts_with_char)
  with assms show ?thesis
    by (simp add: file_server_handle_def try_send_file_def body_from_file_def starts_with_def Let_def)
qed

end
