(* ===== verification/H1_Read.thy ===== *)
theory H1_Read
  imports Request
begin

text \<open>
  \<open>read_request_inner\<close> of \<open>src/src/lib.rs\<close>: how the head of an HTTP/1 request is read from the
  connection into the request buffer and parsed, line by line. The socket is a reader with a
  state; a read that takes longer than the configured time is one that answers with an error.
  The loop over the header lines frees the room of every line it has parsed, so nothing bounds
  how many lines it reads: it is a partial function, and \<open>None\<close> is a head that never ends.
\<close>

section \<open>Reading a request head\<close>

definition eof_error :: "string \<Rightarrow> 'a io" where
  "eof_error msg = Err (IoError UnexpectedEof msg)"

text \<open>The loop that looks for the end of the start line.\<close>

function start_line_read :: "'r reader \<Rightarrow> (buffer \<times> 'r, nat, io_error) stateful" where
  "start_line_read rd (b, r) =
     (case obind (as_ref b) find_start_line_end of
        Ok (Some idx) \<Rightarrow> (Ok idx, (b, r))
      | Ok None \<Rightarrow>
          (case read_from_reader rd b r of
             (Ok n, b', r') \<Rightarrow>
               if n = 0 then (eof_error ''No full request header start line was send.'', (b', r'))
               else start_line_read rd (b', r')
           | (Err e, b', r') \<Rightarrow> (Err e, (b', r'))
           | (Panic, b', r') \<Rightarrow> (Panic, (b', r')))
      | Err e \<Rightarrow> (Err e, (b, r))
      | Panic \<Rightarrow> (Panic, (b, r)))"
  by pat_completeness auto
termination
  by (relation "measure (\<lambda>(rd, (b, r)). as_mut_len b)")
    (auto dest!: sym [of "(_, _)" "read_from_reader _ _ _"] read_from_reader_room)

declare start_line_read.simps [simp del]

text \<open>One look at the buffer in the loop over the header lines.\<close>

datatype 'h head_step = Head_End | Head_Line nat 'h | Head_More

definition header_step ::
  "('m, 'u, 'n, 'v, 'z) http_crate_scheme \<Rightarrow> nat \<Rightarrow> byte list \<Rightarrow> (('n \<times> 'v) list) head_step io" where
  "header_step C line_max buf =
     obind (index buf 0) (\<lambda>b0.
       if b0 = CR
       then if length buf > 1
         then if buf ! 1 = NL then Ok Head_End
           else Err (IoError InvalidData ''A header line started with a CR but was not followed by NL.'')
         else Ok Head_More
       else obind (find_header_end buf) (\<lambda>r. case r of
         None \<Rightarrow> Ok Head_More
       | Some idx \<Rightarrow>
           if idx > line_max then Err (IoError InvalidData ''A header line exceeded the limit.'')
           else obind (parse_request_header_new (c_name C) (c_value C) buf) (\<lambda>(name, values).
             Ok (Head_Line idx (map (Pair name) values)))))"

partial_function (option) headers_read ::
  "'r reader \<Rightarrow> ('m, 'u, 'n, 'v, 'z) http_crate_scheme \<Rightarrow> nat \<Rightarrow> ('n \<times> 'v) list \<Rightarrow> buffer \<times> 'r
    \<Rightarrow> (('n \<times> 'v) list io \<times> (buffer \<times> 'r)) option" where
  "headers_read rd C line_max hs s =
     (case s of (b, r) \<Rightarrow>
       (case obind (as_ref b) (header_step C line_max) of
          Ok Head_End \<Rightarrow> Some (Ok hs, (progress 2 b, r))
        | Ok (Head_Line idx new) \<Rightarrow> headers_read rd C line_max (hs @ new) (progress idx b, r)
        | Ok Head_More \<Rightarrow>
            (case read_from_reader rd b r of
               (Ok n, b', r') \<Rightarrow>
                 if n = 0 then Some (eof_error ''No full request header was send.'', (b', r'))
                 else headers_read rd C line_max hs (b', r')
             | (Err e, b', r') \<Rightarrow> Some (Err e, (b', r'))
             | (Panic, b', r') \<Rightarrow> Some (Panic, (b', r')))
        | Err e \<Rightarrow> Some (Err e, (b, r))
        | Panic \<Rightarrow> Some (Panic, (b, r))))"

declare headers_read.simps [code]

text \<open>\<open>if available_for_read() == 0\<close>, read once more.\<close>

definition read_some_more :: "'r reader \<Rightarrow> (buffer \<times> 'r, unit, io_error) stateful" where
  "read_some_more rd = (\<lambda>(b, r).
     if available_for_read b = 0
     then (case read_from_reader rd b r of
         (Ok n, b', r') \<Rightarrow>
           (if n = 0 then eof_error ''No request header was send.'' else Ok (), (b', r'))
       | (Err e, b', r') \<Rightarrow> (Err e, (b', r'))
       | (Panic, b', r') \<Rightarrow> (Panic, (b', r')))
     else (Ok (), (b, r)))"

definition read_start_line ::
  "'r reader \<Rightarrow> ('m, 'u, 'n, 'v, 'z) http_crate_scheme \<Rightarrow> (buffer \<times> 'r, 'm \<times> 'u \<times> version, io_error) stateful" where
  "read_start_line rd C =
     sbind (start_line_read rd) (\<lambda>idx.
     sbind (\<lambda>(b, r). (obind (as_ref b) (\<lambda>bs. parse_start_line2 (c_method C) (c_uri C) (take idx bs)), (b, r)))
       (\<lambda>line.
     sbind (\<lambda>(b, r). (Ok (), (progress idx b, r))) (\<lambda>_.
     sbind (read_some_more rd) (\<lambda>_. sret line))))"

definition read_request_inner ::
  "'r reader \<Rightarrow> ('m, 'u, 'n, 'v, 'z) http_crate_scheme \<Rightarrow> nat \<Rightarrow> buffer \<times> 'r
    \<Rightarrow> (('m, 'u, 'n, 'v) request io \<times> (buffer \<times> 'r)) option" where
  "read_request_inner rd C line_max s =
     (case read_start_line rd C s of
        (Ok (m, u, v), s') \<Rightarrow>
          map_option (\<lambda>(res, s'').
            (omap (\<lambda>hs. \<lparr>rq_method = m, rq_uri = u, rq_version = v, rq_headers = hs\<rparr>) res, s''))
            (headers_read rd C line_max [] s')
      | (Err e, s') \<Rightarrow> Some (Err e, s')
      | (Panic, s') \<Rightarrow> Some (Panic, s'))"

section \<open>Partial input\<close>

text \<open>A buffer that ends before the end of the element: both searches ask for more.\<close>

lemma start_line_none:
  "\<forall>k. i \<le> k \<longrightarrow> k + 1 < length buf \<longrightarrow> buf ! k \<noteq> CR \<Longrightarrow> start_line_loop buf i = Ok None"
  by (induction buf i rule: start_line_loop.induct) (simp add: start_line_loop.simps)

lemma header_end_none:
  "\<forall>k. i \<le> k \<longrightarrow> k + 2 < length buf \<longrightarrow> buf ! k \<noteq> CR \<Longrightarrow> header_end_loop buf i = Ok None"
  by (induction buf i rule: header_end_loop.induct) (simp add: header_end_loop.simps)

lemma find_start_line_end_partial:
  assumes "CR \<notin> set line" "k < length line + 2"
  shows "find_start_line_end (take k (line @ CR # rest)) = Ok None"
proof -
  have "take k (line @ CR # rest) ! j \<noteq> CR" if "j + 1 < length (take k (line @ CR # rest))" for j
    using assms that by (auto simp: nth_append dest: nth_mem)
  then show ?thesis by (simp add: find_start_line_end_def start_line_none)
qed

lemma find_header_end_partial:
  assumes "CR \<notin> set line" "line \<noteq> []" "0 < k" "k < length line + 3"
  shows "find_header_end (take k (line @ CR # rest)) = Ok None"
proof -
  have "take k (line @ CR # rest) ! j \<noteq> CR" if "j + 2 < length (take k (line @ CR # rest))" for j
    using assms that by (auto simp: nth_append dest: nth_mem)
  moreover have "take k (line @ CR # rest) ! 0 \<noteq> CR"
    using assms by (cases line) auto
  ultimately show ?thesis using assms by (simp add: find_header_end_def header_end_none)
qed

lemma view_prefix:
  assumes "view b @ tail = t" "length (view b) = k"
  shows "view b = take k t"
  using assms by auto

section \<open>Reading what was written\<close>

definition header_line :: "byte list \<times> byte list \<Rightarrow> byte list" where
  "header_line h = fst h @ [COLON, SP] @ snd h @ CRNL"

text \<open>A header line that the parser takes, within the limits of a line and of the buffer.\<close>

definition line_ok ::
  "('m, 'u, 'n, 'v, 'z) http_crate_scheme \<Rightarrow> nat \<Rightarrow> nat \<Rightarrow> byte list \<times> byte list \<Rightarrow> bool" where
  "line_ok C line_max cap h \<longleftrightarrow>
     fst h \<noteq> [] \<and> list_all is_token (fst h) \<and> c_name C (fst h) \<noteq> None \<and>
     snd h \<noteq> [] \<and> list_all is_text (snd h) \<and> hd (snd h) \<noteq> SP \<and> c_value C (snd h) \<noteq> None \<and>
     length (header_line h) \<le> line_max \<and> length (header_line h) < cap"

definition parsed ::
  "('m, 'u, 'n, 'v, 'z) http_crate_scheme \<Rightarrow> byte list \<times> byte list \<Rightarrow> 'n \<times> 'v" where
  "parsed C h = (the (c_name C (fst h)), the (c_value C (snd h)))"

definition head_lines :: "(byte list \<times> byte list) list \<Rightarrow> byte list" where
  "head_lines hs = concat (map header_line hs) @ CRNL"

text \<open>The first line of the head.\<close>

definition start_line :: "byte list \<Rightarrow> byte list \<Rightarrow> byte list \<Rightarrow> byte list" where
  "start_line m u v = m @ SP # u @ SP # v"

lemma parse_start_line:
  assumes "SP \<notin> set m" "f m = Some x" "SP \<notin> set u" "g u = Some y" "6 \<le> length v"
  shows "parse_start_line2 f g (start_line m u v @ CRNL) = Ok (x, y, parse_version v)"
proof -
  have "find_next_sp (m @ SP # ys) = Ok (Some (length m))"
      "find_next_sp (u @ SP # ys) = Ok (Some (length u))" for ys
    using assms by (auto intro!: word_scan.find_end_prefix)
  then show ?thesis
    using assms(2,4,5) by (simp add: parse_start_line2_def CRNL_def start_line_def)
qed

text \<open>The byte after a line is the first byte of a name or the CR of the last line.\<close>

lemma head_lines_first:
  assumes "\<forall>h\<in>set hs. line_ok C line_max cap h"
  obtains c cs where "head_lines hs = c # cs" "\<not> is_lws c" "hs = [] \<longleftrightarrow> c = CR"
proof (cases hs)
  case Nil
  then show ?thesis using that [of CR "[NL]"] by (simp add: head_lines_def CRNL_def is_lws_def)
next
  case (Cons h hs')
  with assms obtain c n where "fst h = c # n" "is_token c"
    by (cases "fst h") (auto simp: line_ok_def)
  moreover from this have "\<not> is_lws c"
    by (auto simp: is_token_def is_seperator_def is_lws_def)
  ultimately show ?thesis
    using that [of c "n @ [COLON, SP] @ snd h @ CRNL @ head_lines hs'"] Cons
    by (auto simp: head_lines_def header_line_def)
qed

lemma header_step_line:
  assumes h: "line_ok C line_max cap h" and c: "\<not> is_lws c"
  shows "header_step C line_max (header_line h @ c # rest) =
    Ok (Head_Line (length (header_line h)) [parsed C h])"
proof -
  obtain nm y where names: "c_name C (fst h) = Some nm" "c_value C (snd h) = Some y"
    using h by (auto simp: line_ok_def)
  have ok: "fst h \<noteq> []" "list_all is_token (fst h)" "snd h \<noteq> []" "list_all is_text (snd h)"
    "hd (snd h) \<noteq> SP" "length (header_line h) \<le> line_max"
    using h by (simp_all add: line_ok_def)
  let ?line = "fst h @ [COLON, SP] @ snd h"
  have "CR \<notin> set ?line" using no_CR(1) [OF ok(2)] no_CR(2) [OF ok(4)] by simp
  then have "find_header_end (?line @ CR # NL # c # rest) = Ok (Some (length ?line + 2))"
    using c by (intro find_header_end_at) simp_all
  moreover have "parse_request_header_new (c_name C) (c_value C)
      (fst h @ [COLON, SP] @ snd h @ CR # NL # c # rest) = Ok (nm, [y])"
    using parse_header_single [where e = CR and rest = "NL # c # rest" and to_name = "c_name C"
        and to_value = "c_value C", OF ok(1,2) names(1) ok(3-5) names(2)] find_lws_end_line_end [OF c]
    by (simp add: is_text_def is_lws_full_def)
  moreover have "?line ! 0 \<noteq> CR" using \<open>CR \<notin> set ?line\<close> ok(1) by (cases "fst h") auto
  ultimately show ?thesis
    using ok(1,6) names
    by (simp add: header_step_def header_line_def CRNL_def parsed_def nth_append)
qed

lemma header_step_partial:
  assumes h: "line_ok C line_max cap h" and k: "0 < k" "k \<le> length (header_line h)"
  shows "header_step C line_max (take k (header_line h @ rest)) = Ok Head_More"
proof -
  let ?line = "fst h @ [COLON, SP] @ snd h"
  have "CR \<notin> set ?line" "?line \<noteq> []"
    using h no_CR by (auto simp: line_ok_def)
  then have "find_header_end (take k (?line @ CR # NL # rest)) = Ok None"
    using k by (intro find_header_end_partial) (simp_all add: header_line_def CRNL_def)
  moreover have "take k (?line @ CR # NL # rest) ! 0 \<noteq> CR"
    using \<open>CR \<notin> set ?line\<close> h k by (cases "fst h") (auto simp: line_ok_def)
  moreover have "header_line h @ rest = ?line @ CR # NL # rest"
    by (simp add: header_line_def CRNL_def)
  ultimately show ?thesis using k(1) by (simp add: header_step_def index_def)
qed

context byte_source
begin

lemma start_line_read_ok:
  assumes "CR \<notin> set line" "length line + 2 \<le> buffer_capacity b" "buffer_inv b"
    "view b @ pending r = line @ CRNL @ rest"
  shows "\<exists>b' r'. start_line_read rd (b, r) = (Ok (length line + 2), (b', r')) \<and> buffer_inv b' \<and>
    buffer_capacity b' = buffer_capacity b \<and> view b' @ pending r' = line @ CRNL @ rest \<and>
    length line + 2 \<le> length (view b')"
  using assms(2-)
proof (induction "length (pending r)" arbitrary: b r rule: less_induct)
  case less
  note view = view_prefix [OF less.prems(3) refl]
  show ?case
  proof (cases "length line + 2 \<le> length (view b)")
    case True
    then have "view b = line @ CR # NL # take (length (view b) - (length line + 2)) rest"
      by (subst view) (simp add: CRNL_def take_Cons' numeral_2_eq_2 Suc_le_eq)
    then have "find_start_line_end (view b) = Ok (Some (length line + 2))"
      using find_start_line_end_at [OF assms(1)] by metis
    with less.prems True show ?thesis
      by (simp add: start_line_read.simps [of rd b r] as_ref_view)
  next
    case False
    define k where "k = length (view b)"
    have "view b = take k (line @ CR # NL # rest)" "k < length line + 2"
      using view False by (simp_all add: CRNL_def k_def)
    then have none: "find_start_line_end (view b) = Ok None"
      using find_start_line_end_partial [OF assms(1)] by metis
    have room: "length (view b) < buffer_capacity b" "pending r \<noteq> []"
      using False less.prems by (auto simp: CRNL_def)
    obtain bs b' r' where step: "read_from_reader rd b r = (Ok (length bs), b', r')" "buffer_inv b'"
      "view b' = view b @ bs" "buffer_capacity b' = buffer_capacity b" "pending r = bs @ pending r'"
      "bs \<noteq> []"
      using read_some [OF less.prems(2), of r] room by metis
    have "start_line_read rd (b, r) = start_line_read rd (b', r')"
      using none step less.prems(2) by (simp add: start_line_read.simps [of rd b r] as_ref_view)
    moreover have "length (pending r') < length (pending r)" using step(5,6) by simp
    ultimately show ?thesis
      using less.hyps [of r' b'] less.prems step by simp
  qed
qed

lemma headers_read_ok:
  assumes "\<forall>h\<in>set hs. line_ok C line_max (buffer_capacity b) h" "2 \<le> buffer_capacity b" "buffer_inv b"
    "view b \<noteq> []" "view b @ pending r = head_lines hs @ rest"
  shows "\<exists>b' r'. headers_read rd C line_max acc (b, r) = Some (Ok (acc @ map (parsed C) hs), (b', r')) \<and>
    buffer_inv b' \<and> buffer_capacity b' = buffer_capacity b \<and> view b' @ pending r' = rest"
  using assms
proof (induction "length hs + length (pending r)" arbitrary: hs acc b r rule: less_induct)
  case less
  define k where "k = length (view b)"
  have view: "view b = take k (head_lines hs @ rest)" and k: "0 < k" "k \<le> buffer_capacity b"
    using view_prefix [OF less.prems(5) refl] less.prems(3,4) length_view_le
    by (simp_all add: k_def)
  have read: "\<exists>b' r'. headers_read rd C line_max acc (b, r) = Some (Ok (acc @ map (parsed C) hs), (b', r')) \<and>
      buffer_inv b' \<and> buffer_capacity b' = buffer_capacity b \<and> view b' @ pending r' = rest"
    if more: "header_step C line_max (view b) = Ok Head_More" and room: "k < buffer_capacity b"
      and short: "k < length (head_lines hs @ rest)"
  proof -
    have "pending r \<noteq> []" using short less.prems(5) by (auto simp: k_def dest: arg_cong [of _ _ length])
    then obtain bs b' r' where step: "read_from_reader rd b r = (Ok (length bs), b', r')" "buffer_inv b'"
      "view b' = view b @ bs" "buffer_capacity b' = buffer_capacity b" "pending r = bs @ pending r'"
      "bs \<noteq> []"
      using read_some [OF less.prems(3), of r] room by (metis k_def)
    have "headers_read rd C line_max acc (b, r) = headers_read rd C line_max acc (b', r')"
      using more step less.prems(3) by (simp add: headers_read.simps [of rd C line_max acc "(b, r)"] as_ref_view)
    moreover have "length (pending r') < length (pending r)" using step(5,6) by simp
    ultimately show ?thesis
      using less.hyps [of hs r' b' acc] less.prems step by simp
  qed
  show ?case
  proof (cases hs)
    case Nil
    have buf: "view b = take k (CR # NL # rest)" using view Nil by (simp add: head_lines_def CRNL_def)
    show ?thesis
    proof (cases "k = 1")
      case True
      then have "header_step C line_max (view b) = Ok Head_More"
        using buf by (simp add: header_step_def)
      with True less.prems(2) show ?thesis by (intro read) (simp_all add: head_lines_def CRNL_def Nil)
    next
      case False
      then have two: "view b = CR # NL # take (k - 2) rest"
        using buf k(1) by (simp add: take_Cons' numeral_2_eq_2)
      then have "header_step C line_max (view b) = Ok Head_End"
        by (simp add: header_step_def)
      moreover have "drop 2 (view b) @ pending r = rest"
        using less.prems(5) two by (simp add: Nil head_lines_def CRNL_def)
      ultimately show ?thesis
        using less.prems(3) progress_ops [OF less.prems(3), of 2] Nil
        by (simp add: headers_read.simps [of rd C line_max acc "(b, r)"] as_ref_view)
    qed
  next
    case (Cons h hs')
    have h: "line_ok C line_max (buffer_capacity b) h" and hs': "\<forall>h\<in>set hs'. line_ok C line_max (buffer_capacity b) h"
      using less.prems(1) Cons by simp_all
    let ?n = "length (header_line h)"
    have n: "?n < buffer_capacity b" using h by (simp add: line_ok_def)
    obtain c cs where c: "head_lines hs' = c # cs" "\<not> is_lws c"
      using head_lines_first [OF hs'] by metis
    have "head_lines hs @ rest = header_line h @ c # cs @ rest"
      using arg_cong [OF c(1), of "\<lambda>bs. bs @ rest"] Cons by (simp add: head_lines_def)
    then have buf: "view b = take k (header_line h @ c # cs @ rest)" using view by simp
    show ?thesis
    proof (cases "k \<le> ?n")
      case True
      then have "header_step C line_max (view b) = Ok Head_More"
        using header_step_partial [OF h k(1) True] buf by metis
      then show ?thesis
        by (rule read) (use True n c(1) Cons in \<open>simp_all add: head_lines_def\<close>)
    next
      case False
      then have line: "view b = header_line h @ c # take (k - ?n - 1) (cs @ rest)"
        using buf by (simp add: take_Cons')
      then have step: "header_step C line_max (view b) = Ok (Head_Line ?n [parsed C h])"
        using header_step_line [OF h c(2)] by metis
      let ?b = "progress ?n b"
      have prog: "buffer_inv ?b" "view ?b = drop ?n (view b)" "buffer_capacity ?b = buffer_capacity b"
        using progress_ops [OF less.prems(3)] by simp_all
      have "headers_read rd C line_max acc (b, r) = headers_read rd C line_max (acc @ [parsed C h]) (?b, r)"
        using step less.prems(3) by (simp add: headers_read.simps [of rd C line_max acc "(b, r)"] as_ref_view)
      moreover have "view ?b \<noteq> []" using prog(2) line by simp
      moreover have "view ?b @ pending r = head_lines hs' @ rest"
        using less.prems(5) line prog(2) Cons by (simp add: head_lines_def)
      ultimately show ?thesis
        using less.hyps [of hs' r ?b "acc @ [parsed C h]"] hs' less.prems(2) prog(1,3) Cons by simp
    qed
  qed
qed

text \<open>The whole head.\<close>

lemma read_request_inner_ok:
  assumes line: "SP \<notin> set m" "CR \<notin> set m" "c_method C m = Some x" "SP \<notin> set u" "CR \<notin> set u"
      "c_uri C u = Some y" "CR \<notin> set v" "6 \<le> length v"
    and cap: "length (start_line m u v) + 2 \<le> buffer_capacity b"
      "\<forall>h\<in>set hs. line_ok C line_max (buffer_capacity b) h"
    and b: "buffer_inv b" "view b @ pending r = start_line m u v @ CRNL @ head_lines hs @ rest"
  shows "\<exists>b' r'. read_request_inner rd C line_max (b, r) =
      Some (Ok \<lparr>rq_method = x, rq_uri = y, rq_version = parse_version v, rq_headers = map (parsed C) hs\<rparr>,
        (b', r')) \<and>
    buffer_inv b' \<and> buffer_capacity b' = buffer_capacity b \<and> view b' @ pending r' = rest"
proof -
  let ?line = "start_line m u v"
  let ?n = "length ?line + 2"
  have no_cr: "CR \<notin> set ?line" using line by (simp add: start_line_def)
  obtain b1 r1 where b1: "start_line_read rd (b, r) = (Ok ?n, (b1, r1))" "buffer_inv b1"
    "buffer_capacity b1 = buffer_capacity b"
    "view b1 @ pending r1 = ?line @ CRNL @ head_lines hs @ rest" "?n \<le> length (view b1)"
    using start_line_read_ok [OF no_cr cap(1) b] by blast
  have "take ?n (view b1) = take ?n (view b1 @ pending r1)" using b1(5) by simp
  also have "\<dots> = ?line @ CRNL" unfolding b1(4) by (simp add: CRNL_def)
  finally have line_bytes: "take ?n (view b1) = ?line @ CRNL" .
  have parse: "parse_start_line2 (c_method C) (c_uri C) (take ?n (view b1)) = Ok (x, y, parse_version v)"
    unfolding line_bytes using line by (intro parse_start_line)
  let ?b = "progress ?n b1"
  have prog: "buffer_inv ?b" "view ?b = drop ?n (view b1)" "buffer_capacity ?b = buffer_capacity b"
    using progress_ops [OF b1(2)] b1(3) by simp_all
  have "drop ?n (view b1) @ pending r1 = drop ?n (view b1 @ pending r1)" using b1(5) by simp
  also have "\<dots> = head_lines hs @ rest" unfolding b1(4) by (simp add: CRNL_def)
  finally have stream: "view ?b @ pending r1 = head_lines hs @ rest" using prog(2) by simp
  have cap2: "2 \<le> buffer_capacity b" and k0: "0 < buffer_capacity b" using cap(1) by simp_all
  obtain b2 r2 where b2: "read_some_more rd (?b, r1) = (Ok (), (b2, r2))" "buffer_inv b2"
    "buffer_capacity b2 = buffer_capacity b" "view b2 @ pending r2 = head_lines hs @ rest" "view b2 \<noteq> []"
  proof (cases "view ?b = []")
    case True
    then have "pending r1 \<noteq> []" using stream by (auto simp: head_lines_def CRNL_def)
    then obtain bs b' r' where step: "read_from_reader rd ?b r1 = (Ok (length bs), b', r')" "buffer_inv b'"
      "view b' = view ?b @ bs" "buffer_capacity b' = buffer_capacity ?b" "pending r1 = bs @ pending r'"
      "bs \<noteq> []"
      using read_some [OF prog(1), of r1] True cap2 prog(3) by (metis k0 length_0_conv)
    moreover have "available_for_read ?b = 0" using length_view [OF prog(1)] True by simp
    ultimately show ?thesis
      using that [of b' r'] stream True prog(3) by (simp add: read_some_more_def)
  next
    case False
    then have "available_for_read ?b \<noteq> 0" using length_view [OF prog(1)] by (metis length_0_conv)
    with False show ?thesis
      using that [of ?b r1] stream prog by (simp add: read_some_more_def)
  qed
  have "read_start_line rd C (b, r) = (Ok (x, y, parse_version v), (b2, r2))"
    using b1(1,2) b2(1) parse by (simp add: read_start_line_def sbind_def as_ref_view)
  moreover obtain b3 r3 where "headers_read rd C line_max [] (b2, r2) =
      Some (Ok (map (parsed C) hs), (b3, r3))" "buffer_inv b3"
    "buffer_capacity b3 = buffer_capacity b" "view b3 @ pending r3 = rest"
    using headers_read_ok [of hs C line_max b2 r2 rest "[]"] b2(2-5) cap(2) cap2 by auto
  ultimately show ?thesis by (simp add: read_request_inner_def)
qed

end

section \<open>Properties\<close>

text \<open>
  C15. A request head is read back as it was written: however the connection cuts the bytes, the
  result is the method, the target, the version and the headers in order, and what stays for
  the body is exactly what follows the empty line. The start line has to fit the buffer, and
  each header line the buffer and the configured limit.
\<close>

theorem request_read_back:
  assumes "SP \<notin> set m" "CR \<notin> set m" "c_method C m = Some x" "SP \<notin> set u" "CR \<notin> set u"
      "c_uri C u = Some y" "CR \<notin> set v" "6 \<le> length v"
    and "length (start_line m u v) + 2 \<le> cap" "\<forall>h\<in>set hs. line_ok C line_max cap h"
    and "concat pieces = start_line m u v @ CRNL @ head_lines hs @ rest"
  shows "\<exists>b r. read_request_inner chunk_reader C line_max (with_capacity cap, pieces) =
      Some (Ok \<lparr>rq_method = x, rq_uri = y, rq_version = parse_version v, rq_headers = map (parsed C) hs\<rparr>,
        (b, r)) \<and> view b @ concat r = rest"
  using chunk_source.read_request_inner_ok [of m C x u y v "with_capacity cap" hs line_max pieces rest] assms
  by (auto simp: buffer_ops)

definition plain_crate :: "(byte list, byte list, byte list, byte list) http_crate" where
  "plain_crate = \<lparr>c_method = Some, c_uri = Some, c_name = Some, c_value = Some,
     c_is_connect = (\<lambda>_. False), c_get = bytes_of ''GET'', c_root = bytes_of ''/''\<rparr>"

theorem request_read_back_witness:
  "\<exists>b r. read_request_inner chunk_reader plain_crate 128 (with_capacity 64,
      [bytes_of ''GE'', bytes_of ''T /x HTTP/1.1'' @ [13], [10] @ bytes_of ''Host: a'' @ [13], [10, 13], [10, 71]]) =
      Some (Ok \<lparr>rq_method = bytes_of ''GET'', rq_uri = bytes_of ''/x'', rq_version = HTTP_11,
        rq_headers = [(bytes_of ''Host'', bytes_of ''a'')]\<rparr>, (b, r)) \<and> view b @ concat r = [71]"
proof -
  have ok: "line_ok plain_crate 128 64 (bytes_of ''Host'', bytes_of ''a'')"
    by (simp add: line_ok_def plain_crate_def header_line_def CRNL_def bytes_of_def byte_class_defs is_token_def)
  have ver: "parse_version (bytes_of ''HTTP/1.1'') = HTTP_11"
    by (simp add: parse_version_def HTTP1_def HTTP1_1_def bytes_of_def)
  show ?thesis
    using request_read_back [of "bytes_of ''GET''" plain_crate "bytes_of ''GET''" "bytes_of ''/x''"
        "bytes_of ''/x''" "bytes_of ''HTTP/1.1''" 64 "[(bytes_of ''Host'', bytes_of ''a'')]" 128
        "[bytes_of ''GE'', bytes_of ''T /x HTTP/1.1'' @ [13], [10] @ bytes_of ''Host: a'' @ [13], [10, 13], [10, 71]]"
        "[71]"] ok ver
    by (simp add: start_line_def head_lines_def header_line_def CRNL_def bytes_of_def plain_crate_def parsed_def)
qed

text \<open>
  The size of the request buffer does not bound the size of a request head: the room of every
  parsed header line is used again, so a request with any number of header lines is accepted.
\<close>

lemma head_size_unbounded:
  assumes "line_ok C line_max cap h" "18 \<le> cap"
    and "c_method C (bytes_of ''GET'') = Some x" "c_uri C (bytes_of ''/'') = Some y"
  shows "\<exists>b r q. read_request_inner list_reader C line_max (with_capacity cap,
      start_line (bytes_of ''GET'') (bytes_of ''/'') HTTP1_1 @ CRNL @ head_lines (replicate n h)) =
      Some (Ok q, (b, r)) \<and> length (rq_headers q) = n"
proof -
  have "SP \<notin> set (bytes_of ''GET'')" "CR \<notin> set (bytes_of ''GET'')" "SP \<notin> set (bytes_of ''/'')"
    "CR \<notin> set (bytes_of ''/'')" "CR \<notin> set HTTP1_1" "6 \<le> length HTTP1_1"
    "length (start_line (bytes_of ''GET'') (bytes_of ''/'') HTTP1_1) + 2 \<le> cap"
    using assms(2) by (simp_all add: bytes_of_def HTTP1_1_def start_line_def)
  with list_source.read_request_inner_ok [of "bytes_of ''GET''" C x "bytes_of ''/''" y HTTP1_1
      "with_capacity cap" "replicate n h" line_max
      "start_line (bytes_of ''GET'') (bytes_of ''/'') HTTP1_1 @ CRNL @ head_lines (replicate n h)" "[]"] assms
  show ?thesis by (auto simp: buffer_ops)
qed

end
