(* ===== verification/H1_Body.thy ===== *)
theory H1_Body
  imports H1_Read H1_Write
begin

text \<open>
  How a handler reads the body of an HTTP/1 request (\<open>src/src/lib.rs\<close>). The body's reader,
  \<open>BackgroundRead\<close>, runs in the task of the handler; when its buffer is empty it sends the buffer
  through a channel to the connection task, which fills it from the connection
  (\<open>handle_background_read_req\<close>) and sends it back. A time limit that passes is a reader or a
  writer that answers with an error, or a call that does not return.
\<close>

section \<open>The connection's side\<close>

text \<open>
  The parts of \<open>Connection\<close> that serve a read request, and the variable \<open>expects_continue\<close> of the
  loop that serves it.
\<close>

record ('r, 'w) h1_conn =
  hc_buffer :: buffer
  hc_reader :: 'r
  hc_writer :: 'w
  hc_expects :: bool

text \<open>
  What becomes of a read request: the answer is sent and the connection goes on, or the connection
  stops, with an answer or without one, or the connection task panics.
\<close>

datatype served = Sent "buffer io" | Stop "buffer io option" | Crash

definition write_continue ::
  "('m, 'u, 'n, 'v, 'z) h1_crate_scheme \<Rightarrow> 'w poll_writer \<Rightarrow> 'w poll_flush \<Rightarrow> version \<Rightarrow> 'w \<Rightarrow> unit io \<times> 'w" where
  "write_continue C wr fl version w =
     (case write_continue_inner C wr fl version w of
        Some (res, w') \<Rightarrow> (res, w')
      | None \<Rightarrow> (Err (IoError TimedOut ''Writing continue took too long.''), w))"

text \<open>The end of \<open>handle_background_read_req\<close>: what is in the connection's buffer goes into \<open>buffer\<close>.\<close>

definition hand_over :: "buffer \<Rightarrow> nat \<Rightarrow> ('r, 'w) h1_conn \<Rightarrow> served \<times> ('r, 'w) h1_conn" where
  "hand_over buffer amount c =
     (case (as_ref (hc_buffer c) :: byte list io) of
        Ok bs \<Rightarrow>
          if available_for_read (hc_buffer c) \<ge> amount
          then (case buffer_write (take amount bs) buffer of
              Ok (n, buffer') \<Rightarrow> (Sent (Ok buffer'), c\<lparr>hc_buffer := progress amount (hc_buffer c)\<rparr>)
            | _ \<Rightarrow> (Crash, c))
          else (case buffer_write bs buffer of
              Ok (n, buffer') \<Rightarrow> (Sent (Ok buffer'), c\<lparr>hc_buffer := progress n (hc_buffer c)\<rparr>)
            | _ \<Rightarrow> (Crash, c))
      | _ \<Rightarrow> (Crash, c))"

definition read_chunk_for :: "'r reader \<Rightarrow> buffer \<Rightarrow> nat \<Rightarrow> ('r, 'w) h1_conn \<Rightarrow> served \<times> ('r, 'w) h1_conn" where
  "read_chunk_for rd buffer amount c =
     (case read_from_reader rd (hc_buffer c) (hc_reader c) of
        (Ok n, b, r) \<Rightarrow>
          let c' = c\<lparr>hc_buffer := b, hc_reader := r\<rparr> in
          if n = 0 then (Stop (Some (Err (IoError UnexpectedEof ''No full body was send.''))), c')
          else hand_over buffer amount c'
      | (Err e, b, r) \<Rightarrow> (Stop (Some (Err e)), c\<lparr>hc_buffer := b, hc_reader := r\<rparr>)
      | (Panic, b, r) \<Rightarrow> (Crash, c\<lparr>hc_buffer := b, hc_reader := r\<rparr>))"

definition serve_read :: "'r reader \<Rightarrow> buffer \<Rightarrow> nat \<Rightarrow> ('r, 'w) h1_conn \<Rightarrow> served \<times> ('r, 'w) h1_conn" where
  "serve_read rd buffer amount c =
     (let available = available_for_read (hc_buffer c) in
      if available > 0
      then (case (as_ref (hc_buffer c) :: byte list io) of
          Ok bs \<Rightarrow>
            if available \<ge> amount
            then (case buffer_write (take amount bs) buffer of
                Ok (n, buffer') \<Rightarrow> (Sent (Ok buffer'), c\<lparr>hc_buffer := progress amount (hc_buffer c)\<rparr>)
              | Err e \<Rightarrow> (Sent (Err e), c\<lparr>hc_buffer := progress amount (hc_buffer c)\<rparr>)
              | Panic \<Rightarrow> (Crash, c))
            else (case buffer_write bs buffer of
                Ok (n, buffer') \<Rightarrow>
                  read_chunk_for rd buffer' (amount - n) (c\<lparr>hc_buffer := progress n (hc_buffer c)\<rparr>)
              | _ \<Rightarrow> (Crash, c))
        | _ \<Rightarrow> (Crash, c))
      else read_chunk_for rd buffer amount c)"

definition handle_background_read_req ::
  "('m, 'u, 'n, 'v, 'z) h1_crate_scheme \<Rightarrow> 'r reader \<Rightarrow> 'w poll_writer \<Rightarrow> 'w poll_flush \<Rightarrow> version
    \<Rightarrow> buffer \<Rightarrow> nat \<Rightarrow> ('r, 'w) h1_conn \<Rightarrow> served \<times> ('r, 'w) h1_conn" where
  "handle_background_read_req C rd wr fl version buffer0 amount0 c =
     (let buffer = rotate_buffer buffer0;
          available = available_for_write buffer;
          amount = (if amount0 > available then available else amount0) in
      if hc_expects c
      then (case write_continue C wr fl version (hc_writer c) of
          (Ok _, w) \<Rightarrow> serve_read rd buffer amount (c\<lparr>hc_writer := w, hc_expects := False\<rparr>)
        | (_, w) \<Rightarrow> (Stop None, c\<lparr>hc_writer := w, hc_expects := False\<rparr>))
      else serve_read rd buffer amount c)"

section \<open>The handler's side\<close>

text \<open>
  The one-shot receiver of an answer: none, one that waits, or one that has already received its
  answer, which must not be polled again.
\<close>

datatype receiver = No_Receiver | Waiting | Received

record bg_read =
  bg_buffer :: "buffer option"
  bg_receiver :: receiver

definition bg_new :: "buffer \<Rightarrow> bg_read" where
  "bg_new b = \<lparr>bg_buffer = Some b, bg_receiver = No_Receiver\<rparr>"

text \<open>What \<open>drop\<close> gives back to the pool.\<close>

definition bg_drop :: "bg_read \<Rightarrow> byte list option" where
  "bg_drop g = map_option inner (bg_buffer g)"

text \<open>
  The state on the other side of the channel is a parameter: \<open>send\<close> sends a request and says
  whether the connection still listens; \<open>recv\<close> polls for the answer, \<open>None\<close> when its sender was
  dropped.
\<close>

type_synonym 'c channel_send = "buffer \<times> nat \<Rightarrow> 'c \<Rightarrow> bool \<times> 'c"
type_synonym 'c channel_recv = "'c \<Rightarrow> buffer io option poll \<times> 'c"

definition receiving_failed :: "'a io poll" where
  "receiving_failed = Ready (Err (IoError Other ''Internal error. (Receiving read response failed)''))"

text \<open>Up to \<open>n\<close> bytes out of a buffer.\<close>

definition bg_hand_out :: "nat \<Rightarrow> buffer \<Rightarrow> bg_read \<Rightarrow> byte list io poll \<times> bg_read" where
  "bg_hand_out n b g =
     (let available = available_for_read b;
          amount = (if available > n then n else available) in
      case as_ref b of
        Ok bs \<Rightarrow> (Ready (Ok (take amount bs)), g\<lparr>bg_buffer := Some (progress amount b)\<rparr>)
      | Err e \<Rightarrow> (Ready (Err e), g)
      | Panic \<Rightarrow> (Ready Panic, g))"

definition bg_poll_read ::
  "'c channel_send \<Rightarrow> 'c channel_recv \<Rightarrow> (bg_read \<times> 'c) poll_reader" where
  "bg_poll_read send recv n = (\<lambda>(g, c).
     case bg_buffer g of
       Some b \<Rightarrow>
         if available_for_read b > 0
         then (case bg_hand_out n b g of (res, g') \<Rightarrow> (res, (g', c)))
         else
           let g0 = g\<lparr>bg_buffer := None\<rparr> in
           (case send (b, n) c of
              (False, c') \<Rightarrow>
                (Ready (Err (IoError Other ''Internal error. (Sending read request failed)'')), (g0, c'))
            | (True, c') \<Rightarrow>
                (case recv c' of
                   (Pending, c'') \<Rightarrow> (Pending, (g0\<lparr>bg_receiver := Waiting\<rparr>, c''))
                 | (Ready None, c'') \<Rightarrow> (receiving_failed, (g0, c''))
                 | (Ready (Some (Err e)), c'') \<Rightarrow> (Ready (Err e), (g0, c''))
                 | (Ready (Some Panic), c'') \<Rightarrow> (Ready Panic, (g0, c''))
                 | (Ready (Some (Ok b')), c'') \<Rightarrow>
                     let g1 = g0\<lparr>bg_receiver := Received\<rparr> in
                     if available_for_read b' > 0
                     then (case bg_hand_out n b' g1 of (res, g') \<Rightarrow> (res, (g', c'')))
                     else (Ready (Ok []), (g1, c''))))
     | None \<Rightarrow>
         (case bg_receiver g of
            No_Receiver \<Rightarrow> (Ready (Err (IoError Other ''This object is no longer usable.'')), (g, c))
          | Received \<Rightarrow> (Ready Panic, (g, c))
          | Waiting \<Rightarrow>
              let g0 = g\<lparr>bg_receiver := No_Receiver\<rparr> in
              (case recv c of
                 (Pending, c') \<Rightarrow> (Pending, (g, c'))
               | (Ready None, c') \<Rightarrow> (receiving_failed, (g0, c'))
               | (Ready (Some (Err e)), c') \<Rightarrow> (Ready (Err e), (g0, c'))
               | (Ready (Some Panic), c') \<Rightarrow> (Ready Panic, (g0, c'))
               | (Ready (Some (Ok b')), c') \<Rightarrow>
                   if available_for_read b' > 0
                   then (case bg_hand_out n b' (g0\<lparr>bg_receiver := Received\<rparr>) of (res, g') \<Rightarrow> (res, (g', c')))
                   else (Ready (Ok []), (g0, c')))))"

section \<open>Both sides\<close>

text \<open>
  The connection task as the handler's polls see it: the request in the channel, whether the task
  still runs, and a schedule that says for each poll for an answer whether the task has served
  the request by then (after the schedule it always has).
\<close>

record ('r, 'w) bg_conn =
  bc_conn :: "('r, 'w) h1_conn"
  bc_request :: "(buffer \<times> nat) option"
  bc_open :: bool
  bc_schedule :: "bool list"

definition conn_send :: "('r, 'w) bg_conn channel_send" where
  "conn_send req c = (if bc_open c then (True, c\<lparr>bc_request := Some req\<rparr>) else (False, c))"

definition conn_recv ::
  "('m, 'u, 'n, 'v, 'z) h1_crate_scheme \<Rightarrow> 'r reader \<Rightarrow> 'w poll_writer \<Rightarrow> 'w poll_flush \<Rightarrow> version
    \<Rightarrow> ('r, 'w) bg_conn channel_recv" where
  "conn_recv C rd wr fl version c =
     (case bc_request c of
        None \<Rightarrow> (Ready None, c)
      | Some (b, n) \<Rightarrow>
          if bc_schedule c \<noteq> [] \<and> \<not> hd (bc_schedule c)
          then (Pending, c\<lparr>bc_schedule := tl (bc_schedule c)\<rparr>)
          else
            let c0 = c\<lparr>bc_request := None, bc_schedule := tl (bc_schedule c)\<rparr> in
            (case handle_background_read_req C rd wr fl version b n (bc_conn c) of
               (Sent res, h) \<Rightarrow> (Ready (Some res), c0\<lparr>bc_conn := h\<rparr>)
             | (Stop reply, h) \<Rightarrow> (Ready reply, c0\<lparr>bc_conn := h, bc_open := False\<rparr>)
             | (Crash, h) \<Rightarrow> (Ready None, c0\<lparr>bc_conn := h, bc_open := False\<rparr>)))"

abbreviation body_read ::
  "('m, 'u, 'n, 'v, 'z) h1_crate_scheme \<Rightarrow> 'r reader \<Rightarrow> 'w poll_writer \<Rightarrow> 'w poll_flush \<Rightarrow> version
    \<Rightarrow> (bg_read \<times> ('r, 'w) bg_conn) poll_reader" where
  "body_read C rd wr fl version \<equiv> bg_poll_read conn_send (conn_recv C rd wr fl version)"

section \<open>Serving a request\<close>

definition continue_bytes :: "('m, 'u, 'n, 'v, 'z) h1_crate_scheme \<Rightarrow> version \<Rightarrow> byte list" where
  "continue_bytes C version =
     concat (status_line (c_version_text C version) status_continue @ [CRNL])"

context poll_sink
begin

lemma write_continue_ok:
  assumes "wf w"
  shows "\<exists>w'. write_continue C wr fl version w = (Ok (), w') \<and> wf w' \<and>
    written w' = written w @ continue_bytes C version"
proof -
  obtain w1 where w1: "put_list wr (status_line (c_version_text C version) status_continue @ [CRNL]) w =
      Some (Ok (), w1)" "wf w1" "written w1 = written w @ continue_bytes C version"
    using put_list_ok [OF assms] unfolding continue_bytes_def by blast
  obtain w2 where "flush_writer fl w1 = Some (Ok (), w2)" "wf w2" "written w2 = written w1"
    using flush_writer_ok [OF w1(2)] by blast
  with w1 show ?thesis by (simp add: write_continue_def write_continue_inner_def)
qed

end

text \<open>The first \<open>amount\<close> bytes of the connection's buffer go into a buffer with room for them.\<close>

lemma buffer_write_fits:
  assumes "buffer_inv b" "length (view b) + length bs \<le> buffer_capacity b"
  obtains b' where "buffer_write bs b = Ok (length bs, b')" "buffer_inv b'"
    "buffer_capacity b' = buffer_capacity b" "view b' = view b @ bs"
  using bq.put_fits [OF assms] by metis

lemma hand_over_ok:
  assumes b: "buffer_inv b" "length (view b) + amount \<le> buffer_capacity b"
    and c: "buffer_inv (hc_buffer c)"
  obtains b' cb where "hand_over b amount c = (Sent (Ok b'), c\<lparr>hc_buffer := cb\<rparr>)"
    "buffer_inv b'" "buffer_capacity b' = buffer_capacity b"
    "view b' = view b @ take amount (view (hc_buffer c))"
    "buffer_inv cb" "buffer_capacity cb = buffer_capacity (hc_buffer c)"
    "view cb = drop amount (view (hc_buffer c))"
proof -
  let ?v = "view (hc_buffer c)"
  have len: "available_for_read (hc_buffer c) = length ?v"
    using length_view [OF c] by simp
  show ?thesis
  proof (cases "amount \<le> length ?v")
    case True
    then have "length (view b) + length (take amount ?v) \<le> buffer_capacity b"
      using b(2) by simp
    from buffer_write_fits [OF b(1) this] obtain b' where
      "buffer_write (take amount ?v) b = Ok (length (take amount ?v), b')" "buffer_inv b'"
      "buffer_capacity b' = buffer_capacity b" "view b' = view b @ take amount ?v"
      by metis
    with True len progress_ops [OF c, of amount] that [of b' "progress amount (hc_buffer c)"]
    show ?thesis by (simp add: hand_over_def as_ref_view [OF c])
  next
    case False
    then have "length (view b) + length ?v \<le> buffer_capacity b"
      using b(2) by simp
    from buffer_write_fits [OF b(1) this] obtain b' where
      "buffer_write ?v b = Ok (length ?v, b')" "buffer_inv b'"
      "buffer_capacity b' = buffer_capacity b" "view b' = view b @ ?v"
      by metis
    with False len progress_ops [OF c, of "length ?v"] that [of b' "progress (length ?v) (hc_buffer c)"]
    show ?thesis by (simp add: hand_over_def as_ref_view [OF c])
  qed
qed

text \<open>An answer with bytes: they come first in the stream, the rest stays.\<close>

lemma bg_hand_out_ok:
  assumes "buffer_inv b" "view b \<noteq> []" "0 < n"
  obtains bs b' where "bg_hand_out n b g = (Ready (Ok bs), g\<lparr>bg_buffer := Some b'\<rparr>)" "available_for_read b > 0"
    "buffer_inv b'" "buffer_capacity b' = buffer_capacity b" "view b = bs @ view b'" "bs \<noteq> []" "length bs \<le> n"
proof -
  let ?m = "min n (length (view b))"
  have len: "available_for_read b = length (view b)" using length_view [OF assms(1)] by simp
  have "bg_hand_out n b g = (Ready (Ok (take ?m (view b))), g\<lparr>bg_buffer := Some (progress ?m b)\<rparr>)"
    by (auto simp: bg_hand_out_def Let_def as_ref_view [OF assms(1)] len min_def)
  with assms len progress_ops [OF assms(1), of ?m] that [of "take ?m (view b)" "progress ?m b"]
  show ?thesis by simp
qed

context byte_source
begin

text \<open>A request for no more bytes than are to come is answered with at least one of them.\<close>

definition serves :: "buffer \<Rightarrow> nat \<Rightarrow> ('r, 'w) h1_conn \<Rightarrow> served \<times> ('r, 'w) h1_conn \<Rightarrow> bool" where
  "serves b amount c out \<longleftrightarrow> (\<exists>b' cb r bs. out = (Sent (Ok b'), c\<lparr>hc_buffer := cb, hc_reader := r\<rparr>) \<and>
     buffer_inv b' \<and> buffer_capacity b' = buffer_capacity b \<and> view b' = view b @ bs \<and>
     bs \<noteq> [] \<and> length bs \<le> amount \<and>
     buffer_inv cb \<and> buffer_capacity cb = buffer_capacity (hc_buffer c) \<and>
     view (hc_buffer c) @ pending (hc_reader c) = bs @ view cb @ pending r)"

lemma read_chunk_for_ok:
  assumes b: "buffer_inv b" "length (view b) + amount \<le> buffer_capacity b" "0 < amount"
    and c: "buffer_inv (hc_buffer c)" "0 < buffer_capacity (hc_buffer c)" "view (hc_buffer c) = []"
    and more: "pending (hc_reader c) \<noteq> []"
  shows "serves b amount c (read_chunk_for rd b amount c)"
proof -
  obtain bs cb r where read: "read_from_reader rd (hc_buffer c) (hc_reader c) = (Ok (length bs), cb, r)"
    "buffer_inv cb" "view cb = bs" "buffer_capacity cb = buffer_capacity (hc_buffer c)"
    "pending (hc_reader c) = bs @ pending r" "bs \<noteq> []"
    using read_some [OF c(1), of "hc_reader c"] c more by (metis append_Nil list.size(3))
  let ?c = "c\<lparr>hc_buffer := cb, hc_reader := r\<rparr>"
  obtain b' cb' where over: "hand_over b amount ?c = (Sent (Ok b'), ?c\<lparr>hc_buffer := cb'\<rparr>)"
    "buffer_inv b'" "buffer_capacity b' = buffer_capacity b" "view b' = view b @ take amount bs"
    "buffer_inv cb'" "buffer_capacity cb' = buffer_capacity cb" "view cb' = drop amount bs"
    using hand_over_ok [OF b(1,2), where c = ?c] read(2,3) by auto
  have "read_chunk_for rd b amount c = (Sent (Ok b'), c\<lparr>hc_buffer := cb', hc_reader := r\<rparr>)"
    using read(1,6) over(1) by (simp add: read_chunk_for_def)
  then show ?thesis
    unfolding serves_def using over read c(3) b(3)
    by (intro exI [of _ b'] exI [of _ cb'] exI [of _ r] exI [of _ "take amount bs"])
      (auto simp: min_def)
qed

lemma serve_read_ok:
  assumes b: "buffer_inv b" "length (view b) + amount \<le> buffer_capacity b" "0 < amount"
    and c: "buffer_inv (hc_buffer c)" "0 < buffer_capacity (hc_buffer c)"
    and more: "amount \<le> length (view (hc_buffer c)) + length (pending (hc_reader c))"
  shows "serves b amount c (serve_read rd b amount c)"
proof -
  let ?v = "view (hc_buffer c)"
  have len: "available_for_read (hc_buffer c) = length ?v"
    using length_view [OF c(1)] by simp
  consider (none) "?v = []" | (all) "?v \<noteq> []" "amount \<le> length ?v" | (some) "?v \<noteq> []" "length ?v < amount"
    by linarith
  then show ?thesis
  proof cases
    case none
    then have "serve_read rd b amount c = read_chunk_for rd b amount c"
      using len by (simp add: serve_read_def)
    moreover have "pending (hc_reader c) \<noteq> []" using none more b(3) by auto
    ultimately show ?thesis using read_chunk_for_ok [OF b c none] by simp
  next
    case all
    then have "length (view b) + length (take amount ?v) \<le> buffer_capacity b"
      using b(2) by simp
    from buffer_write_fits [OF b(1) this] obtain b' where
      "buffer_write (take amount ?v) b = Ok (length (take amount ?v), b')" "buffer_inv b'"
      "buffer_capacity b' = buffer_capacity b" "view b' = view b @ take amount ?v"
      by metis
    with all len progress_ops [OF c(1), of amount] b(3) show ?thesis
      unfolding serves_def
      by (intro exI [of _ b'] exI [of _ "progress amount (hc_buffer c)"] exI [of _ "hc_reader c"]
          exI [of _ "take amount ?v"])
        (simp add: serve_read_def as_ref_view [OF c(1)])
  next
    case some
    then have "length (view b) + length ?v \<le> buffer_capacity b"
      using b(2) by simp
    from buffer_write_fits [OF b(1) this] obtain b1 where
      b1: "buffer_write ?v b = Ok (length ?v, b1)" "buffer_inv b1"
      "buffer_capacity b1 = buffer_capacity b" "view b1 = view b @ ?v"
      by metis
    let ?c = "c\<lparr>hc_buffer := progress (length ?v) (hc_buffer c)\<rparr>"
    note prog = progress_ops [OF c(1), of "length ?v"]
    have "serve_read rd b amount c = read_chunk_for rd b1 (amount - length ?v) ?c"
      using some len b1(1) by (simp add: serve_read_def as_ref_view [OF c(1)] Let_def)
    moreover have "serves b1 (amount - length ?v) ?c (read_chunk_for rd b1 (amount - length ?v) ?c)"
      by (rule read_chunk_for_ok) (use b b1 some prog c more in auto)
    ultimately obtain b' cb r bs where "serve_read rd b amount c = (Sent (Ok b'), c\<lparr>hc_buffer := cb, hc_reader := r\<rparr>)"
      "buffer_inv b'" "buffer_capacity b' = buffer_capacity b" "view b' = view b @ ?v @ bs"
      "bs \<noteq> []" "length bs \<le> amount - length ?v" "buffer_inv cb"
      "buffer_capacity cb = buffer_capacity (hc_buffer c)" "pending (hc_reader c) = bs @ view cb @ pending r"
      using b1 prog by (auto simp: serves_def)
    with some show ?thesis
      unfolding serves_def
      by (intro exI [of _ b'] exI [of _ cb] exI [of _ r] exI [of _ "?v @ bs"]) simp
  qed
qed

text \<open>The whole handler: the \<open>Continue\<close> line goes out before the first bytes are read.\<close>

lemma handle_read_req_ok:
  fixes c :: "('r, 'w) h1_conn"
  assumes sink: "poll_sink wr fl wfw written st" and w: "wfw (hc_writer c)"
    and b: "buffer_inv b" "length (view b) < buffer_capacity b" "0 < amount"
    and c: "buffer_inv (hc_buffer c)" "0 < buffer_capacity (hc_buffer c)"
    and more: "amount \<le> length (view (hc_buffer c)) + length (pending (hc_reader c))"
  shows "\<exists>w'. serves b amount (c\<lparr>hc_writer := w', hc_expects := False\<rparr>)
      (handle_background_read_req C rd wr fl version b amount c) \<and> wfw w' \<and>
    written w' = written (hc_writer c) @ (if hc_expects c then continue_bytes C version else [])"
proof -
  let ?b = "rotate_buffer b"
  let ?n = "if amount > available_for_write ?b then available_for_write ?b else amount"
  note rot = rotate_buffer_ops [OF b(1)]
  have free: "available_for_write ?b = buffer_capacity b - length (view b)" by (rule rotated_free [OF b(1)])
  have n: "length (view ?b) + ?n \<le> buffer_capacity ?b" "0 < ?n" "?n \<le> amount"
    using b rot(2,3) free by auto
  have serve: "serves b amount d (serve_read rd ?b ?n d)"
    if "hc_buffer d = hc_buffer c" "hc_reader d = hc_reader c" for d :: "('r, 'w) h1_conn"
  proof -
    have "serves ?b ?n d (serve_read rd ?b ?n d)"
      using serve_read_ok [OF rot(1) n(1,2), of d] c more n(3) that by simp
    then show ?thesis
      unfolding serves_def using n(3) rot(2,3) by (metis order_trans)
  qed
  show ?thesis
  proof (cases "hc_expects c")
    case True
    obtain w' where w': "write_continue C wr fl version (hc_writer c) = (Ok (), w')" "wfw w'"
      "written w' = written (hc_writer c) @ continue_bytes C version"
      using poll_sink.write_continue_ok [OF sink w] by blast
    with True serve [of "c\<lparr>hc_writer := w', hc_expects := False\<rparr>"] show ?thesis
      by (intro exI [of _ w']) (simp add: handle_background_read_req_def Let_def)
  next
    case False
    then have same: "c\<lparr>hc_writer := hc_writer c, hc_expects := False\<rparr> = c" by (cases c) simp
    have "handle_background_read_req C rd wr fl version b amount c = serve_read rd ?b ?n c"
      using False by (simp add: handle_background_read_req_def Let_def)
    then show ?thesis
      using serve [of c] False w by (intro exI [of _ "hc_writer c"]) (simp only: same, simp)
  qed
qed

section \<open>The body as a stream\<close>

text \<open>What the handler will read if it reads on: its own buffer, the connection's, the socket.\<close>

definition conn_stream :: "('r, 'w) h1_conn \<Rightarrow> byte list" where
  "conn_stream h = view (hc_buffer h) @ pending (hc_reader h)"

definition bg_stream :: "bg_read \<times> ('r, 'w) bg_conn \<Rightarrow> byte list" where
  "bg_stream s = (case bg_buffer (fst s) of Some b \<Rightarrow> view b | None \<Rightarrow> []) @ conn_stream (bc_conn (snd s))"

definition bg_wf :: "('w \<Rightarrow> bool) \<Rightarrow> bg_read \<times> ('r, 'w) bg_conn \<Rightarrow> bool" where
  "bg_wf wfw s \<longleftrightarrow> (let g = fst s; c = snd s; h = bc_conn c in
     bc_open c \<and> buffer_inv (hc_buffer h) \<and> 0 < buffer_capacity (hc_buffer h) \<and> wfw (hc_writer h) \<and>
     ((\<exists>b. bg_buffer g = Some b \<and> buffer_inv b \<and> 0 < buffer_capacity b) \<or>
      (\<exists>b n. bg_buffer g = None \<and> bg_receiver g = Waiting \<and> bc_request c = Some (b, n) \<and> buffer_inv b \<and>
        view b = [] \<and> 0 < buffer_capacity b \<and> 0 < n \<and> n \<le> length (conn_stream h))))"

definition bg_stalls :: "bg_read \<times> ('r, 'w) bg_conn \<Rightarrow> nat" where
  "bg_stalls s = length (filter Not (bc_schedule (snd s)))"

lemma stalls_tl: "length (filter Not (tl xs)) \<le> length (filter Not xs)"
  by (cases xs) auto

text \<open>A poll for the answer to a request.\<close>

lemma conn_recv_ok:
  assumes sink: "poll_sink wr fl wfw written st"
    and c: "bc_open c" "bc_request c = Some (b, n)" "bc_conn c = h"
    and h: "buffer_inv (hc_buffer h)" "0 < buffer_capacity (hc_buffer h)" "wfw (hc_writer h)"
    and b: "buffer_inv b" "view b = []" "0 < buffer_capacity b" "0 < n" "n \<le> length (conn_stream h)"
  obtains (wait) c' where "conn_recv C rd wr fl version c = (Pending, c')" "bc_open c'"
      "bc_request c' = Some (b, n)" "bc_conn c' = h"
      "length (filter Not (bc_schedule c')) < length (filter Not (bc_schedule c))"
  | (served) c' b' where "conn_recv C rd wr fl version c = (Ready (Some (Ok b')), c')" "bc_open c'"
      "buffer_inv b'" "view b' \<noteq> []" "buffer_capacity b' = buffer_capacity b"
      "buffer_inv (hc_buffer (bc_conn c'))" "0 < buffer_capacity (hc_buffer (bc_conn c'))"
      "wfw (hc_writer (bc_conn c'))" "conn_stream h = view b' @ conn_stream (bc_conn c')"
      "length (filter Not (bc_schedule c')) \<le> length (filter Not (bc_schedule c))"
proof (cases "bc_schedule c \<noteq> [] \<and> \<not> hd (bc_schedule c)")
  case True
  then show ?thesis
    using that(1) [of "c\<lparr>bc_schedule := tl (bc_schedule c)\<rparr>"] c
    by (cases "bc_schedule c") (auto simp: conn_recv_def)
next
  case False
  obtain w' where w': "serves b n (h\<lparr>hc_writer := w', hc_expects := False\<rparr>)
      (handle_background_read_req C rd wr fl version b n h)" "wfw w'"
    using handle_read_req_ok [OF sink h(3) b(1) _ b(4) h(1,2)] b(2,3,5) by (auto simp: conn_stream_def)
  then obtain b' cb r bs where
    eq: "handle_background_read_req C rd wr fl version b n h =
      (Sent (Ok b'), h\<lparr>hc_writer := w', hc_expects := False, hc_buffer := cb, hc_reader := r\<rparr>)"
    and "buffer_inv b'" "buffer_capacity b' = buffer_capacity b" "view b' = bs" "bs \<noteq> []"
      "buffer_inv cb" "buffer_capacity cb = buffer_capacity (hc_buffer h)"
      "conn_stream h = bs @ view cb @ pending r"
    using b(2) by (auto simp: serves_def conn_stream_def)
  then show ?thesis
    using that(2) [of b' "c\<lparr>bc_request := None, bc_schedule := tl (bc_schedule c),
        bc_conn := h\<lparr>hc_writer := w', hc_expects := False, hc_buffer := cb, hc_reader := r\<rparr>\<rparr>"]
      False c h w'(2) stalls_tl
    by (simp add: conn_recv_def Let_def conn_stream_def)
qed

text \<open>
  With a working writer, polls for no more bytes than the client will send are answered from the
  reader's buffer, then from the connection.
\<close>

lemma bg_answered:
  assumes b': "buffer_inv b'" "view b' \<noteq> []" "buffer_capacity b' = k" "0 < k" "0 < n"
    and c': "bc_open c'" "buffer_inv (hc_buffer (bc_conn c'))" "0 < buffer_capacity (hc_buffer (bc_conn c'))"
      "wfw (hc_writer (bc_conn c'))"
    and stream: "bg_stream s = view b' @ conn_stream (bc_conn c')"
    and stalls: "length (filter Not (bc_schedule c')) \<le> bg_stalls s"
    and eq: "rd' n s = (case bg_hand_out n b' g of (res, g') \<Rightarrow> (res, (g', c')))"
  shows "poll_step rd' (bg_wf wfw) bg_stream bg_stalls n s"
proof -
  obtain bs b2 where out: "bg_hand_out n b' g = (Ready (Ok bs), g\<lparr>bg_buffer := Some b2\<rparr>)"
    "buffer_inv b2" "buffer_capacity b2 = buffer_capacity b'" "view b' = bs @ view b2" "bs \<noteq> []" "length bs \<le> n"
    using bg_hand_out_ok [OF b'(1,2,5), of g] by metis
  show ?thesis
    by (rule poll_step_data [where bs = bs and r' = "(g\<lparr>bg_buffer := Some b2\<rparr>, c')"])
      (use out b' c' stream stalls eq in \<open>auto simp: bg_wf_def bg_stream_def bg_stalls_def Let_def\<close>)
qed

lemma bg_feed:
  fixes wr :: "'w poll_writer"
  assumes sink: "poll_sink wr fl wfw written st"
  shows "poll_feed (body_read C rd wr fl version) (bg_wf wfw) bg_stream bg_stalls"
proof
  fix s :: "bg_read \<times> ('r, 'w) bg_conn" and n :: nat
  assume wf: "bg_wf wfw s" and n: "0 < n" "n \<le> length (bg_stream s)"
  obtain g c where s: "s = (g, c)" by fastforce
  let ?h = "bc_conn c" and ?read = "body_read C rd wr fl version"
  have c: "bc_open c" "buffer_inv (hc_buffer ?h)" "0 < buffer_capacity (hc_buffer ?h)" "wfw (hc_writer ?h)"
    using wf s by (simp_all add: bg_wf_def Let_def)
  from wf s consider
      (own) b where "bg_buffer g = Some b" "buffer_inv b" "0 < buffer_capacity b" "view b \<noteq> []"
    | (ask) b where "bg_buffer g = Some b" "buffer_inv b" "0 < buffer_capacity b" "view b = []"
    | (waiting) b m where "bg_buffer g = None" "bg_receiver g = Waiting" "bc_request c = Some (b, m)"
        "buffer_inv b" "view b = []" "0 < buffer_capacity b" "0 < m" "m \<le> length (conn_stream ?h)"
    by (auto simp: bg_wf_def Let_def)
  then show "poll_step ?read (bg_wf wfw) bg_stream bg_stalls n s"
  proof cases
    case own
    have "0 < available_for_read b" using length_view [OF own(2)] own(4) by (metis length_greater_0_conv)
    then have "?read n s = (case bg_hand_out n b g of (res, g') \<Rightarrow> (res, (g', c)))"
      using own(1) s by (simp add: bg_poll_read_def)
    then show ?thesis
      by (rule bg_answered [where wfw = wfw, OF own(2,4) refl own(3) n(1) c, rotated -1])
        (use own(1) s in \<open>simp_all add: bg_stream_def bg_stalls_def\<close>)
  next
    case ask
    let ?c = "c\<lparr>bc_request := Some (b, n)\<rparr>" and ?g = "g\<lparr>bg_buffer := None\<rparr>"
    have stream: "bg_stream s = conn_stream ?h" using ask s by (simp add: bg_stream_def)
    have none: "\<not> 0 < available_for_read b" using length_view [OF ask(2)] ask(4) by simp
    have len: "n \<le> length (conn_stream ?h)" using n(2) stream by simp
    show ?thesis
    proof (rule conn_recv_ok [OF sink, of ?c b n ?h C version])
      show "bc_open ?c" "bc_request ?c = Some (b, n)" "bc_conn ?c = ?h" using c(1) by simp_all
    next
      fix c' assume c': "conn_recv C rd wr fl version ?c = (Pending, c')" "bc_open c'"
        "bc_request c' = Some (b, n)" "bc_conn c' = ?h"
        "length (filter Not (bc_schedule c')) < length (filter Not (bc_schedule ?c))"
      then have "?read n s = (Pending, (?g\<lparr>bg_receiver := Waiting\<rparr>, c'))"
        using ask(1) s none c(1) by (simp add: bg_poll_read_def conn_send_def)
      then show ?thesis
        by (rule poll_step_wait)
          (use c' c ask n(1) len stream s in \<open>auto simp: bg_wf_def bg_stream_def bg_stalls_def Let_def\<close>)
    next
      fix c' b' assume c': "conn_recv C rd wr fl version ?c = (Ready (Some (Ok b')), c')" "bc_open c'"
        "buffer_inv b'" "view b' \<noteq> []" "buffer_capacity b' = buffer_capacity b"
        "buffer_inv (hc_buffer (bc_conn c'))" "0 < buffer_capacity (hc_buffer (bc_conn c'))"
        "wfw (hc_writer (bc_conn c'))" "conn_stream ?h = view b' @ conn_stream (bc_conn c')"
        "length (filter Not (bc_schedule c')) \<le> length (filter Not (bc_schedule ?c))"
      have "0 < available_for_read b'" using length_view [OF c'(3)] c'(4) by (metis length_greater_0_conv)
      then have "?read n s = (case bg_hand_out n b' (?g\<lparr>bg_receiver := Received\<rparr>) of (res, g') \<Rightarrow> (res, (g', c')))"
        using c'(1) ask(1) s none c(1) by (simp add: bg_poll_read_def conn_send_def Let_def)
      then show ?thesis
        by (rule bg_answered [where wfw = wfw, OF c'(3-5) ask(3) n(1) c'(2,6-8), rotated -1])
          (use c'(9,10) stream s in \<open>simp_all add: bg_stalls_def\<close>)
    qed (use c ask n(1) len in simp_all)
  next
    case waiting
    have stream: "bg_stream s = conn_stream ?h" using waiting s by (simp add: bg_stream_def)
    show ?thesis
    proof (rule conn_recv_ok [OF sink c(1) waiting(3) refl c(2-4) waiting(4-8), of C version])
      fix c' assume c': "conn_recv C rd wr fl version c = (Pending, c')" "bc_open c'"
        "bc_request c' = Some (b, m)" "bc_conn c' = ?h"
        "length (filter Not (bc_schedule c')) < length (filter Not (bc_schedule c))"
      then have "?read n s = (Pending, (g, c'))"
        using waiting(1,2) s by (simp add: bg_poll_read_def Let_def)
      then show ?thesis
        by (rule poll_step_wait)
          (use c' c waiting stream s in \<open>auto simp: bg_wf_def bg_stream_def bg_stalls_def Let_def\<close>)
    next
      fix c' b' assume c': "conn_recv C rd wr fl version c = (Ready (Some (Ok b')), c')" "bc_open c'"
        "buffer_inv b'" "view b' \<noteq> []" "buffer_capacity b' = buffer_capacity b"
        "buffer_inv (hc_buffer (bc_conn c'))" "0 < buffer_capacity (hc_buffer (bc_conn c'))"
        "wfw (hc_writer (bc_conn c'))" "conn_stream ?h = view b' @ conn_stream (bc_conn c')"
        "length (filter Not (bc_schedule c')) \<le> length (filter Not (bc_schedule c))"
      have "0 < available_for_read b'" using length_view [OF c'(3)] c'(4) by (metis length_greater_0_conv)
      then have "?read n s = (case bg_hand_out n b' (g\<lparr>bg_receiver := Received\<rparr>) of (res, g') \<Rightarrow> (res, (g', c')))"
        using c'(1) waiting(1,2) s by (simp add: bg_poll_read_def Let_def)
      then show ?thesis
        by (rule bg_answered [where wfw = wfw, OF c'(3-5) waiting(6) n(1) c'(2,6-8), rotated -1])
          (use c'(9,10) stream s in \<open>simp_all add: bg_stalls_def\<close>)
    qed
  qed
qed

end

text \<open>Polls that the reader's own buffer answers do not touch the connection.\<close>

lemma bg_own_feed:
  fixes c :: 'c
  shows "poll_feed (bg_poll_read send recv)
     (\<lambda>s. snd s = c \<and> (\<exists>b. bg_buffer (fst s) = Some b \<and> buffer_inv b))
     (\<lambda>s. case bg_buffer (fst s) of Some b \<Rightarrow> view b | None \<Rightarrow> []) (\<lambda>_. 0)"
proof
  fix s :: "bg_read \<times> 'c" and n :: nat
  assume wf: "snd s = c \<and> (\<exists>b. bg_buffer (fst s) = Some b \<and> buffer_inv b)" and n: "0 < n"
    and len: "n \<le> length (case bg_buffer (fst s) of Some b \<Rightarrow> view b | None \<Rightarrow> [])"
  then obtain g b where s: "s = (g, c)" "bg_buffer g = Some b" "buffer_inv b"
    by (cases s) auto
  have "view b \<noteq> []" using n len s by auto
  then obtain bs b' where out: "bg_hand_out n b g = (Ready (Ok bs), g\<lparr>bg_buffer := Some b'\<rparr>)"
    "available_for_read b > 0" "buffer_inv b'" "view b = bs @ view b'" "bs \<noteq> []" "length bs \<le> n"
    using bg_hand_out_ok [OF s(3) _ n, of g] by metis
  then show "poll_step (bg_poll_read send recv) (\<lambda>s. snd s = c \<and> (\<exists>b. bg_buffer (fst s) = Some b \<and> buffer_inv b))
      (\<lambda>s. case bg_buffer (fst s) of Some b \<Rightarrow> view b | None \<Rightarrow> []) (\<lambda>_. 0) n s"
    using s by (intro poll_step_data [where bs = bs and r' = "(g\<lparr>bg_buffer := Some b'\<rparr>, c)"])
      (simp_all add: bg_poll_read_def)
qed

section \<open>Properties\<close>

text \<open>The state in which a handler gets the body, with the buffer \<open>b\<close> for it.\<close>

definition body_start :: "buffer \<Rightarrow> ('r, 'w) h1_conn \<Rightarrow> bool list \<Rightarrow> bg_read \<times> ('r, 'w) bg_conn" where
  "body_start b h schedule =
     (bg_new b, \<lparr>bc_conn = h, bc_request = None, bc_open = True, bc_schedule = schedule\<rparr>)"

text \<open>What follows the body on the connection.\<close>

abbreviation conn_rest :: "bg_read \<times> (byte list list, 'w) bg_conn \<Rightarrow> byte list" where
  "conn_rest \<equiv> chunk_source.bg_stream"

lemma body_start_ok:
  assumes "buffer_inv b" "0 < buffer_capacity b" "buffer_inv (hc_buffer h)" "0 < buffer_capacity (hc_buffer h)"
  shows "chunk_source.bg_wf (\<lambda>w. True) (body_start b h schedule)"
    "conn_rest (body_start b h schedule) = view b @ view (hc_buffer h) @ concat (hc_reader h)"
    "chunk_source.bg_stalls (body_start b h schedule) = length (filter Not schedule)"
  using assms
  by (simp_all add: body_start_def bg_new_def chunk_source.bg_wf_def chunk_source.bg_stream_def
      chunk_source.conn_stream_def chunk_source.bg_stalls_def)

lemmas h1_feed = chunk_source.bg_feed [OF script_sink.poll_sink_axioms]

definition example_conn :: "byte list list \<Rightarrow> bool \<Rightarrow> (byte list list, nat list \<times> byte list) h1_conn" where
  "example_conn pieces expects = \<lparr>hc_buffer = with_capacity 64, hc_reader = pieces, hc_writer = ([], []), hc_expects = expects\<rparr>"

lemma example_conn_simps:
  "hc_buffer (example_conn pieces expects) = with_capacity 64" "hc_reader (example_conn pieces expects) = pieces"
  by (simp_all add: example_conn_def)

text \<open>
  C6. A handler that reads a body of length \<open>m\<close> to its end gets the first \<open>m\<close> bytes of what is
  unread in the body's buffer followed by what the client sends, however the connection cuts it,
  whichever polls have to wait and however much each poll asks for; and what follows these bytes
  stays for the next request. With an empty buffer that is the body the client sent.
\<close>

theorem fixed_body_read:
  assumes "buffer_inv b" "0 < buffer_capacity b" "buffer_inv (hc_buffer h)" "0 < buffer_capacity (hc_buffer h)"
    and "view b @ view (hc_buffer h) @ concat (hc_reader h) = body @ rest"
    and "\<forall>n\<in>set ns. 0 < n" "length body + length (filter Not schedule) < length ns"
  shows "\<exists>l. read_polls (limit_poll_read (body_read C chunk_reader script_write script_flush version)) ns
      (limit_new (body_start b h schedule) (length body)) = (Ok (body, True), l) \<and>
    conn_rest (lr_reader l) = rest"
proof -
  note start = body_start_ok [OF assms(1-4), of schedule]
  have "length body \<le> length (conn_rest (body_start b h schedule))"
      "length body + chunk_source.bg_stalls (body_start b h schedule) < length ns"
    using assms(5,7) start by simp_all
  from poll_feed.reads_limited [OF h1_feed start(1) this(1) assms(6) this(2), of C version] start assms(5)
  show ?thesis by auto
qed

theorem fixed_body_read_witness:
  "\<exists>l. read_polls (limit_poll_read (body_read ascii_crate chunk_reader script_write script_flush HTTP_11))
      [2, 2, 2, 2, 2, 2] (limit_new (body_start (with_capacity 2) (example_conn [[1], [2, 3, 71]] True) [False, True]) 3) =
      (Ok ([1, 2, 3 :: byte], True), l) \<and> conn_rest (lr_reader l) = [71]"
  using fixed_body_read [of "with_capacity 2" "example_conn [[1], [2, 3, 71]] True" "[1, 2, 3]" "[71]"
      "[2, 2, 2, 2, 2, 2]" "[False, True]" ascii_crate HTTP_11]
  by (simp add: buffer_ops example_conn_simps numeral_3_eq_3 del: read_polls.simps)

text \<open>
  The same for a chunked body: a handler that reads it to its end gets the body that the bytes
  of the buffer and of the client encode, and the encoding is consumed exactly.
\<close>

lemma chunked_body_read:
  assumes "buffer_inv b" "0 < buffer_capacity b" "buffer_inv (hc_buffer h)" "0 < buffer_capacity (hc_buffer h)"
    and "dechunk p cap (view b @ view (hc_buffer h) @ concat (hc_reader h)) = Some (body, rest)" "2 \<le> cap"
    and "\<forall>n\<in>set ns. 0 < n" "length body + length (filter Not schedule) < length ns"
  shows "\<exists>c. read_polls (chunked_poll_read p (body_read C chunk_reader script_write script_flush version)) ns
      (chunked_new (body_start b h schedule) cap pooled) = (Ok (body, True), c) \<and>
    conn_rest (cr_reader c) = rest"
proof -
  note start = body_start_ok [OF assms(1-4), of schedule]
  have "dechunk p cap (conn_rest (body_start b h schedule)) = Some (body, rest)"
      "length body + chunk_source.bg_stalls (body_start b h schedule) < length ns"
    using assms(5,8) start by simp_all
  from poll_feed.reads_chunked [OF h1_feed start(1) this(1) assms(6,7) this(2)] show ?thesis .
qed

lemma own_reads:
  assumes "m \<le> length v" "\<forall>n\<in>set ns. 0 < n" "m < length ns"
  shows "\<exists>l. read_polls (limit_poll_read (bg_poll_read send recv)) ns (limit_new (bg_new (buffer_from v), c) m) =
      (Ok (take m v, True), l) \<and> snd (lr_reader l) = c"
proof -
  have "snd (bg_new (buffer_from v), c) = c \<and>
      (\<exists>b. bg_buffer (fst (bg_new (buffer_from v), c)) = Some b \<and> buffer_inv b)"
    by (simp add: bg_new_def buffer_ops)
  from poll_feed.reads_limited [OF bg_own_feed this, where m = m and ns = ns] assms show ?thesis
    by (auto simp: bg_new_def buffer_ops)
qed

text \<open>
  C3. The buffer for a request body is made of a vector of zeros or of one from the pool, and
  \<open>Buffer::from\<close> takes all of it for unread bytes. So a handler that reads a body of at most the
  size \<open>request_body_buf_size\<close> to its end gets the bytes of the vector, zeros or what an earlier
  request left there, and not one byte of the client; \<open>100 Continue\<close> is not sent; and the body of
  the client, untouched, is read as the head of the next request: a client, or someone whose
  text a client forwards, can hide a request in a body.
\<close>

theorem body_parsed_as_request:
  assumes "n \<le> length v" "\<forall>k\<in>set ks. 0 < k" "n < length ks"
    and "SP \<notin> set m" "CR \<notin> set m" "c_method C m = Some x" "SP \<notin> set u" "CR \<notin> set u"
      "c_uri C u = Some y" "CR \<notin> set ver" "6 \<le> length ver"
    and "length (start_line m u ver) + 2 \<le> buffer_capacity (hc_buffer h)"
      "\<forall>l\<in>set hs. line_ok C line_max (buffer_capacity (hc_buffer h)) l"
    and "buffer_inv (hc_buffer h)"
      "view (hc_buffer h) @ concat (hc_reader h) = start_line m u ver @ CRNL @ head_lines hs @ rest"
  shows "\<exists>l b r. read_polls (limit_poll_read (body_read C chunk_reader wr fl version)) ks
      (limit_new (body_start (buffer_from v) h schedule) n) = (Ok (take n v, True), l) \<and>
    hc_writer (bc_conn (snd (lr_reader l))) = hc_writer h \<and>
    read_request_inner chunk_reader C line_max
      (hc_buffer (bc_conn (snd (lr_reader l))), hc_reader (bc_conn (snd (lr_reader l)))) =
      Some (Ok \<lparr>rq_method = x, rq_uri = y, rq_version = parse_version ver, rq_headers = map (parsed C) hs\<rparr>, (b, r))"
proof -
  let ?c = "\<lparr>bc_conn = h, bc_request = None, bc_open = True, bc_schedule = schedule\<rparr>"
  obtain l where "read_polls (limit_poll_read (body_read C chunk_reader wr fl version)) ks
      (limit_new (body_start (buffer_from v) h schedule) n) = (Ok (take n v, True), l)"
    "snd (lr_reader l) = ?c"
    using own_reads [OF assms(1-3), of conn_send "conn_recv C chunk_reader wr fl version" ?c]
    unfolding body_start_def by blast
  moreover obtain b r where "read_request_inner chunk_reader C line_max (hc_buffer h, hc_reader h) =
      Some (Ok \<lparr>rq_method = x, rq_uri = y, rq_version = parse_version ver, rq_headers = map (parsed C) hs\<rparr>, (b, r))"
    using chunk_source.read_request_inner_ok [OF assms(4-15)] by blast
  ultimately show ?thesis by simp
qed

theorem body_parsed_as_request_witness:
  "\<exists>l b r. read_polls (limit_poll_read (body_read ascii_crate chunk_reader script_write script_flush HTTP_11))
      (replicate 20 8) (limit_new (body_start (buffer_from (replicate 20 0))
        (example_conn [bytes_of ''GET / '', bytes_of ''HTTP/1.1'' @ CRNL @ CRNL] True) []) 18) =
      (Ok (replicate 18 0, True), l) \<and>
    hc_writer (bc_conn (snd (lr_reader l))) = ([], []) \<and>
    read_request_inner chunk_reader ascii_crate 128
      (hc_buffer (bc_conn (snd (lr_reader l))), hc_reader (bc_conn (snd (lr_reader l)))) =
      Some (Ok \<lparr>rq_method = bytes_of ''GET'', rq_uri = bytes_of ''/'', rq_version = parse_version (bytes_of ''HTTP/1.1''),
        rq_headers = []\<rparr>, (b, r))"
  using body_parsed_as_request [where n = 18 and v = "replicate 20 0" and ks = "replicate 20 8" and hs = "[]"
      and h = "example_conn [bytes_of ''GET / '', bytes_of ''HTTP/1.1'' @ CRNL @ CRNL] True" and schedule = "[]"
      and C = ascii_crate and m = "bytes_of ''GET''" and u = "bytes_of ''/''" and ver = "bytes_of ''HTTP/1.1''"
      and rest = "[]" and wr = script_write and fl = script_flush and version = HTTP_11 and line_max = 128]
  by (simp add: buffer_ops example_conn_def ascii_crate_def bytes_of_def start_line_def head_lines_def CRNL_def
      del: read_polls.simps)

text \<open>
  A chunked body is never read at all with such a buffer: a vector that does not begin with a
  hexadecimal digit, as one of zeros, makes the first poll of the body fail.
\<close>

lemma chunked_body_fails:
  assumes "\<not> is_hex x" "2 \<le> cap" "0 < n"
  shows "\<exists>c. chunked_poll_read p (body_read C rd wr fl version) n
      (chunked_new (body_start (buffer_from (x # xs)) h schedule) cap None) =
    (Ready (Err (IoError InvalidData ''Chunked-Encoding error: First char as not hex!'')), c)"
proof -
  let ?s = "body_start (buffer_from (x # xs)) h schedule" and ?rd = "body_read C rd wr fl version"
  have find: "find_chunk_header_end [] = Ok None"
      "find_chunk_header_end [x] = Err (IoError InvalidData ''Chunked-Encoding error: First char as not hex!'')"
    using assms(1) by (simp_all add: find_chunk_header_end_def)
  have own: "available_for_read (buffer_from (x # xs)) = Suc (length xs)"
    by (simp add: available_for_read_def buffer_from_def)
  obtain s' where "?rd 1 ?s = (Ready (Ok [x]), s')"
    using own by (simp add: body_start_def bg_new_def bg_poll_read_def bg_hand_out_def as_ref_view buffer_ops Let_def)
  moreover have "as_mut_len (with_capacity cap) = cap" "rotate_buffer (with_capacity cap) = with_capacity cap"
    using as_mut_len_eq [OF with_capacity_ops(1)]
    by (simp_all add: buffer_ops) (simp add: rotate_buffer_def with_capacity_def)
  moreover have empty: "(as_ref (with_capacity cap) :: byte list io) = Ok []"
    using as_ref_view [OF with_capacity_ops(1)] by (simp add: buffer_ops)
  moreover have byte: "(as_ref (progress_write 1 (with_capacity cap\<lparr>inner :=
      overwrite (write_pointer (with_capacity cap)) [x] (inner (with_capacity cap))\<rparr>)) :: byte list io) = Ok [x]"
    using assms(2) by (simp add: as_ref_def progress_write_def with_capacity_def overwrite_def)
  ultimately obtain c where read: "read_to_buffer ?rd (chunked_new ?s cap None) = (Ready (Ok ()), c)"
      "(as_ref (cr_buffer c) :: byte list io) = Ok [x]"
    using assms(2) by (simp add: read_to_buffer_def chunked_new_def chunked_new_with_buffer_def Let_def)
  have status: "cr_status (chunked_new ?s cap None) = WaitingForChunk"
    by (simp add: chunked_new_def chunked_new_with_buffer_def)
  have "(as_ref (cr_buffer (chunked_new ?s cap None)) :: byte list io) = Ok []"
    using empty by (simp add: chunked_new_def chunked_new_with_buffer_def)
  then have "header_loop ?rd (chunked_new ?s cap None) = header_loop ?rd c"
    using find(1) read(1) by (simp add: header_loop.simps [of ?rd "chunked_new ?s cap None"])
  also have "\<dots> = (Ready (Err (IoError InvalidData ''Chunked-Encoding error: First char as not hex!'')), c)"
    using find(2) read(2) by (simp add: header_loop.simps [of ?rd c])
  finally show ?thesis
    using status by (simp add: chunked_poll_read_def read_chunk_header_def)
qed

end
