(* ===== verification/H1_Conn.thy ===== *)
theory H1_Conn
  imports H1_Body Handler
begin

text \<open>
  The loop of an HTTP/1 connection, \<open>Connection::handle\<close> of \<open>src/src/lib.rs\<close>: wait for the next
  request, read its head, make its body, run the handler while serving its reads of the body,
  write the response, and begin anew. The handler is a state machine that asks for reads of the
  body and ends with a result. What other tasks decide is part of the state: the answers the
  shared pool gives, the polls in which the connection has not yet answered, a shutdown.
\<close>

section \<open>The state\<close>

record h1_config =
  request_header_buf_size :: nat
  request_header_line_max :: nat
  request_body_buf_size :: nat
  request_chunked_header_buf_size :: nat
  response_body_buf_size :: nat
  response_chunked_buf_size :: nat

definition h1_config_default :: h1_config where
  "h1_config_default = \<lparr>request_header_buf_size = 4096, request_header_line_max = 128,
     request_body_buf_size = 4096, request_chunked_header_buf_size = 512,
     response_body_buf_size = 4096, response_chunked_buf_size = 65536\<rparr>"

text \<open>\<open>cn_pool\<close> and \<open>cn_chunk_pool\<close> are the answers the pool will give, then it has nothing.\<close>

record ('r, 'w) connection =
  cn_buffer :: buffer
  cn_reader :: 'r
  cn_writer :: 'w
  cn_resp_body_buf :: nat
  cn_first_request :: bool
  cn_pool :: "byte list option list"
  cn_chunk_pool :: "buffer option list"
  cn_schedule :: "bool list"

text \<open>Everything a connection uses and does not change.\<close>

record ('m, 'u, 'n, 'v, 'r, 'w, 'b, 'h) h1_env =
  ev_crate :: "('m, 'u, 'n, 'v) h1_crate"
  ev_profile :: profile
  ev_socket :: "'r reader"
  ev_write :: "'w poll_writer"
  ev_flush :: "'w poll_flush"
  ev_body :: "'b reader"
  ev_config :: h1_config
  ev_date :: 'v
  ev_start :: "('m, 'u, 'n, 'v) request \<Rightarrow> nat option \<Rightarrow> 'h"
  ev_act :: "'h \<Rightarrow> ('n, 'v, 'b) response handler_action"
  ev_resume :: "'h \<Rightarrow> byte list io \<Rightarrow> 'h"

definition next_answer :: "'a option list \<Rightarrow> 'a option" where
  "next_answer xs = (case xs of [] \<Rightarrow> None | x # _ \<Rightarrow> x)"

definition connection_new :: "h1_config \<Rightarrow> buffer option \<Rightarrow> byte list option \<Rightarrow> 'r \<Rightarrow> 'w \<Rightarrow> ('r, 'w) connection" where
  "connection_new cfg pooled pooled_body reader writer =
     \<lparr>cn_buffer = (case pooled of
        Some b \<Rightarrow> set_capacity (request_header_buf_size cfg) b
      | None \<Rightarrow> with_capacity (request_header_buf_size cfg)),
      cn_reader = reader, cn_writer = writer,
      cn_resp_body_buf = (case pooled_body of Some v \<Rightarrow> length v | None \<Rightarrow> response_body_buf_size cfg),
      cn_first_request = True, cn_pool = [], cn_chunk_pool = [], cn_schedule = []\<rparr>"

section \<open>Reading the next request\<close>

definition peek_request_inner :: "'r reader \<Rightarrow> ('r, 'w) connection \<Rightarrow> bool \<times> ('r, 'w) connection" where
  "peek_request_inner rd c =
     (case read_from_reader rd (cn_buffer c) (cn_reader c) of
        (Ok _, b, r) \<Rightarrow> (True, c\<lparr>cn_buffer := b, cn_reader := r\<rparr>)
      | (_, b, r) \<Rightarrow> (False, c\<lparr>cn_buffer := b, cn_reader := r\<rparr>))"

definition peek_request :: "'r reader \<Rightarrow> ('r, 'w) connection \<Rightarrow> bool \<times> ('r, 'w) connection" where
  "peek_request rd c =
     (if available_for_read (cn_buffer c) > 0 then (True, c)
      else peek_request_inner rd (if cn_first_request c then c\<lparr>cn_first_request := False\<rparr> else c))"

text \<open>A head that never ends runs into \<open>request_header_timeout\<close>.\<close>

definition read_request ::
  "('m, 'u, 'n, 'v, 'r, 'w, 'b, 'h) h1_env \<Rightarrow> ('r, 'w) connection
    \<Rightarrow> ('m, 'u, 'n, 'v) request option \<times> ('r, 'w) connection" where
  "read_request E c =
     (case read_request_inner (ev_socket E) (ev_crate E) (request_header_line_max (ev_config E))
         (cn_buffer c, cn_reader c) of
        Some (Ok req, (b, r)) \<Rightarrow> (Some req, c\<lparr>cn_buffer := b, cn_reader := r\<rparr>)
      | Some (_, (b, r)) \<Rightarrow> (None, c\<lparr>cn_buffer := b, cn_reader := r\<rparr>)
      | None \<Rightarrow> (None, c))"

definition request_body_type ::
  "('m, 'u, 'n, 'v, 'z) h1_crate_scheme \<Rightarrow> ('m, 'u, 'n, 'v) request \<Rightarrow> body_type io" where
  "request_body_type C req =
     determine_body_type (c_to_str C) (c_is_safe C (rq_method req))
       (headers_get C (bytes_of ''transfer-encoding'') (rq_headers req))
       (headers_get C (bytes_of ''content-length'') (rq_headers req))"

section \<open>The body\<close>

text \<open>The reader in a \<open>Body\<close>, with the state below it; without a body there is only that state.\<close>

datatype 's request_body =
  Empty_Body 's | Fixed_Body "'s limit_reader" | Chunked_Body "'s chunked_reader"

fun body_state :: "'s request_body \<Rightarrow> 's" where
  "body_state (Empty_Body s) = s"
| "body_state (Fixed_Body l) = lr_reader l"
| "body_state (Chunked_Body c) = cr_reader c"

text \<open>\<open>Body::poll_read\<close>.\<close>

fun body_poll_read :: "profile \<Rightarrow> 's poll_reader \<Rightarrow> 's request_body poll_reader" where
  "body_poll_read p rd n (Empty_Body s) = (Ready (Ok []), Empty_Body s)"
| "body_poll_read p rd n (Fixed_Body l) =
     (case limit_poll_read rd n l of (res, l') \<Rightarrow> (res, Fixed_Body l'))"
| "body_poll_read p rd n (Chunked_Body c) =
     (case chunked_poll_read p rd n c of (res, c') \<Rightarrow> (res, Chunked_Body c'))"

type_synonym ('r, 'w) served_body = "(bg_read \<times> ('r, 'w) bg_conn) request_body"

definition lend_connection :: "bool \<Rightarrow> ('r, 'w) connection \<Rightarrow> ('r, 'w) bg_conn" where
  "lend_connection expects c =
     \<lparr>bc_conn = \<lparr>hc_buffer = cn_buffer c, hc_reader = cn_reader c, hc_writer = cn_writer c, hc_expects = expects\<rparr>,
      bc_request = None, bc_open = True, bc_schedule = cn_schedule c\<rparr>"

definition take_back :: "('r, 'w) bg_conn \<Rightarrow> ('r, 'w) connection \<Rightarrow> ('r, 'w) connection" where
  "take_back s c =
     (let h = bc_conn s in
      c\<lparr>cn_buffer := hc_buffer h, cn_reader := hc_reader h, cn_writer := hc_writer h, cn_schedule := bc_schedule s\<rparr>)"

definition make_body ::
  "h1_config \<Rightarrow> body_type \<Rightarrow> bool \<Rightarrow> ('r, 'w) connection \<Rightarrow> ('r, 'w) served_body \<times> ('r, 'w) connection" where
  "make_body cfg bt expects c =
     (let conn = lend_connection expects c;
          req_bod_buf = buffer_from (case next_answer (cn_pool c) of
            Some body_buf \<Rightarrow> body_buf
          | None \<Rightarrow> replicate (request_body_buf_size cfg) 0);
          c' = c\<lparr>cn_pool := tl (cn_pool c)\<rparr> in
      case bt of
        NoBody \<Rightarrow> (Empty_Body (\<lparr>bg_buffer = None, bg_receiver = No_Receiver\<rparr>, conn), c)
      | Fixed sz \<Rightarrow> (Fixed_Body (limit_new (bg_new req_bod_buf, conn) sz), c')
      | Chunked \<Rightarrow>
          (Chunked_Body (chunked_new (bg_new req_bod_buf, conn) (request_chunked_header_buf_size cfg)
             (next_answer (cn_chunk_pool c))), c'\<lparr>cn_chunk_pool := tl (cn_chunk_pool c)\<rparr>))"

fun announced_len :: "body_type \<Rightarrow> nat option" where
  "announced_len (Fixed sz) = Some sz"
| "announced_len _ = None"

section \<open>The handler\<close>

text \<open>
  The handler runs until it ends, or until serving one of its reads ends the connection
  (\<open>break None\<close>). A read that has to wait is polled again.
\<close>

partial_function (option) run_handler ::
  "('m, 'u, 'n, 'v, 'r, 'w, 'b, 'h) h1_env \<Rightarrow> version \<Rightarrow> 'h \<Rightarrow> ('r, 'w) served_body
    \<Rightarrow> (('n, 'v, 'b) response handler_result option \<times> ('r, 'w) served_body) option" where
  "run_handler E version h body =
     (if \<not> bc_open (snd (body_state body)) then Some (None, body)
      else case ev_act E h of
        Act_Done result \<Rightarrow> Some (Some result, body)
      | Act_Read n \<Rightarrow>
          (case body_poll_read (ev_profile E)
               (body_read (ev_crate E) (ev_socket E) (ev_write E) (ev_flush E) version) n body of
             (Pending, body') \<Rightarrow> run_handler E version h body'
           | (Ready res, body') \<Rightarrow> run_handler E version (ev_resume E h res) body'))"

declare run_handler.simps [code]

section \<open>The loop\<close>

definition add_date :: "('m, 'u, 'n, 'v, 'z) h1_crate_scheme \<Rightarrow> 'v \<Rightarrow> ('n, 'v, 'b) response \<Rightarrow> ('n, 'v, 'b) response" where
  "add_date C date resp =
     (case headers_get C (bytes_of ''date'') (rs_headers resp) of
        None \<Rightarrow> resp\<lparr>rs_headers := header_insert (c_header C (bytes_of ''date'')) date (rs_headers resp)\<rparr>
      | Some _ \<Rightarrow> resp)"

text \<open>The answer to a request, and whether the loop goes on.\<close>

definition send_response ::
  "('m, 'u, 'n, 'v, 'r, 'w, 'b, 'h) h1_env \<Rightarrow> ('n, 'v, 'b) response \<Rightarrow> ('r, 'w) connection
    \<Rightarrow> bool \<times> ('r, 'w) connection" where
  "send_response E resp c =
     (case write_response (ev_crate E) (ev_profile E) (ev_body E) (ev_write E) (ev_flush E)
         (cn_resp_body_buf c) (response_chunked_buf_size (ev_config E))
         (add_date (ev_crate E) (ev_date E) resp) (cn_writer c) of
        Some (Ok _, w) \<Rightarrow> (True, c\<lparr>cn_writer := w\<rparr>)
      | Some (_, w) \<Rightarrow> (False, c\<lparr>cn_writer := w\<rparr>)
      | None \<Rightarrow> (False, c))"

definition after_handler ::
  "('m, 'u, 'n, 'v, 'r, 'w, 'b, 'h) h1_env \<Rightarrow> ('n, 'v, 'b) response handler_result option
    \<Rightarrow> ('r, 'w) connection \<Rightarrow> bool \<times> ('r, 'w) connection" where
  "after_handler E result c =
     (case result of
        None \<Rightarrow> (False, c)
      | Some Panicked \<Rightarrow> (False, c)
      | Some Timed_Out \<Rightarrow> (False, c)
      | Some (Failed err) \<Rightarrow> (False, c)
      | Some (Responded resp) \<Rightarrow> send_response E resp c)"

text \<open>One turn of the loop.\<close>

definition serve_turn ::
  "('m, 'u, 'n, 'v, 'r, 'w, 'b, 'h) h1_env \<Rightarrow> ('r, 'w) connection \<Rightarrow> (bool \<times> ('r, 'w) connection) option" where
  "serve_turn E c =
     (case peek_request (ev_socket E) c of
        (False, c1) \<Rightarrow> Some (False, c1)
      | (True, c1) \<Rightarrow>
          if available_for_read (cn_buffer c1) = 0 then Some (False, c1)
          else case read_request E c1 of
            (None, c2) \<Rightarrow> Some (False, c2)
          | (Some req, c2) \<Rightarrow>
              (case (request_body_type (ev_crate E) req, validate) of
                 (Ok bt, Ok _) \<Rightarrow>
                   (case make_body (ev_config E) bt (expects_continue (ev_crate E) (rq_headers req)) c2 of
                      (body, c3) \<Rightarrow>
                        map_option (\<lambda>(result, body').
                            after_handler E result (take_back (snd (body_state body')) c3))
                          (run_handler E (rq_version req) (ev_start E req (announced_len bt)) body))
               | _ \<Rightarrow> Some (False, c2)))"

text \<open>\<open>sd\<close> says for each turn whether a shutdown is noticed before the request arrives.\<close>

partial_function (option) handle_connection ::
  "('m, 'u, 'n, 'v, 'r, 'w, 'b, 'h) h1_env \<Rightarrow> bool list \<Rightarrow> ('r, 'w) connection \<Rightarrow> ('r, 'w) connection option" where
  "handle_connection E sd c =
     (if sd \<noteq> [] \<and> hd sd then Some c
      else case serve_turn E c of
        None \<Rightarrow> None
      | Some (go_on, c') \<Rightarrow> if go_on then handle_connection E (tl sd) c' else Some c')"

declare handle_connection.simps [code]

section \<open>Answering requests\<close>

text \<open>The bytes of a response: its head, then its body, in chunks if its length is not announced.\<close>

definition body_sized :: "('b \<Rightarrow> byte list) \<Rightarrow> 'b body \<Rightarrow> bool" where
  "body_sized pend body \<longleftrightarrow>
     (case (bd_body body, bd_len body) of (Some b, Some l) \<Rightarrow> l = length (pend b) | _ \<Rightarrow> True)"

definition carries :: "profile \<Rightarrow> ('b \<Rightarrow> byte list) \<Rightarrow> 'b body \<Rightarrow> byte list \<Rightarrow> bool" where
  "carries p pend body payload \<longleftrightarrow>
     (case (bd_body body, bd_len body) of
        (None, _) \<Rightarrow> payload = []
      | (Some b, Some l) \<Rightarrow> payload = pend b
      | (Some b, None) \<Rightarrow> \<forall>rest. dechunk p 18 (payload @ rest) = Some (pend b, rest))"

definition response_bytes ::
  "('m, 'u, 'n, 'v, 'r, 'w, 'b, 'h) h1_env \<Rightarrow> ('b \<Rightarrow> byte list) \<Rightarrow> ('n, 'v, 'b) response \<Rightarrow> byte list \<Rightarrow> bool" where
  "response_bytes E pend resp bytes \<longleftrightarrow>
     (\<exists>payload. carries (ev_profile E) pend (rs_body resp) payload \<and>
        bytes = head_bytes (ev_crate E) (finalize_response (ev_crate E) (add_date (ev_crate E) (ev_date E) resp)) @ payload)"

context poll_sink
begin

lemma write_response_ok:
  assumes rd: "byte_source rd pend" and sz: "0 < n" "2 < sz" "sz < 2 ^ 64" and w: "wf w"
    and body: "body_sized pend (rs_body resp)"
  shows "\<exists>w' payload. write_response C p rd wr fl n sz resp w = Some (Ok (), w') \<and> wf w' \<and>
    carries p pend (rs_body resp) payload \<and>
    written w' = written w @ head_bytes C (finalize_response C resp) @ payload"
proof -
  let ?resp = "finalize_response C resp"
  have same: "rs_body ?resp = rs_body resp"
    by (simp add: finalize_response_def split: option.split)
  obtain w1 where w1: "write_headers C wr fl ?resp w = Some (Ok (), w1)" "wf w1"
    "written w1 = written w @ head_bytes C ?resp"
    using write_headers_ok [OF w, of C ?resp] by blast
  have eq: "write_response C p rd wr fl n sz resp w = write_body p rd wr fl n sz (rs_body resp) w1"
    using w1(1) same by (simp add: write_response_def Let_def)
  show ?thesis
  proof (cases "bd_body (rs_body resp)")
    case None
    with w1 eq show ?thesis by (simp add: write_body_def carries_def)
  next
    case (Some b)
    show ?thesis
    proof (cases "bd_len (rs_body resp)")
      case None
      from write_body_chunked [OF rd sz(1) w1(2) sz(2,3) Some None, of p] obtain w2 wire where
        "write_body p rd wr fl n sz (rs_body resp) w1 = Some (Ok (), w2)" "wf w2"
        "written w2 = written w1 @ wire" "\<forall>rest. dechunk p 18 (wire @ rest) = Some (pend b, rest)"
        by blast
      with w1 eq Some None show ?thesis by (intro exI [of _ w2] exI [of _ wire]) (simp add: carries_def)
    next
      case len: (Some l)
      then have "l = length (pend b)" using body Some by (simp add: body_sized_def)
      with write_body_fixed [OF rd sz(1) w1(2) _ Some len, of p sz] obtain w2 where
        "write_body p rd wr fl n sz (rs_body resp) w1 = Some (Ok (), w2)" "wf w2"
        "written w2 = written w1 @ pend b"
        by auto
      with w1 eq Some len show ?thesis by (intro exI [of _ w2] exI [of _ "pend b"]) (simp add: carries_def)
    qed
  qed
qed

end

text \<open>A request head as a client writes it: method, target, version and headers.\<close>

type_synonym head_text = "byte list \<times> byte list \<times> byte list \<times> (byte list \<times> byte list) list"

fun head_wire :: "head_text \<Rightarrow> byte list" where
  "head_wire (m, u, v, hs) = start_line m u v @ CRNL @ head_lines hs"

text \<open>The head is well-formed, fits the buffer, and is read as the request \<open>req\<close>.\<close>

fun spells_request ::
  "('m, 'u, 'n, 'v, 'z) h1_crate_scheme \<Rightarrow> nat \<Rightarrow> nat \<Rightarrow> head_text \<Rightarrow> ('m, 'u, 'n, 'v) request \<Rightarrow> bool" where
  "spells_request C line_max cap (m, u, v, hs) req \<longleftrightarrow>
     SP \<notin> set m \<and> CR \<notin> set m \<and> c_method C m = Some (rq_method req) \<and>
     SP \<notin> set u \<and> CR \<notin> set u \<and> c_uri C u = Some (rq_uri req) \<and>
     CR \<notin> set v \<and> 6 \<le> length v \<and> rq_version req = parse_version v \<and>
     length (start_line m u v) + 2 \<le> cap \<and>
     (\<forall>h\<in>set hs. line_ok C line_max cap h) \<and> rq_headers req = map (parsed C) hs"

definition conn_bytes :: "('r \<Rightarrow> byte list) \<Rightarrow> ('r, 'w) connection \<Rightarrow> byte list" where
  "conn_bytes pend c = view (cn_buffer c) @ pend (cn_reader c)"

definition conn_ready :: "nat \<Rightarrow> ('r, 'w) connection \<Rightarrow> bool" where
  "conn_ready cap c \<longleftrightarrow> buffer_inv (cn_buffer c) \<and> buffer_capacity (cn_buffer c) = cap"

lemma take_back_lend: "take_back (lend_connection expects c) c = c"
  by (cases c) (simp add: take_back_def lend_connection_def)

lemma head_wire_neq_Nil [simp]: "head_wire rq \<noteq> []"
  by (cases rq) (simp add: CRNL_def)

text \<open>An exchange: a head as it is written, the request it spells, the response to it.\<close>

definition exchange_ok ::
  "('m, 'u, 'n, 'v, 'r, 'w, 'b, 'h) h1_env \<Rightarrow> ('b \<Rightarrow> byte list) \<Rightarrow> nat
    \<Rightarrow> head_text \<times> ('m, 'u, 'n, 'v) request \<times> ('n, 'v, 'b) response \<Rightarrow> bool" where
  "exchange_ok E pend cap x \<longleftrightarrow> (case x of (rq, req, resp) \<Rightarrow>
     spells_request (ev_crate E) (request_header_line_max (ev_config E)) cap rq req \<and>
     request_body_type (ev_crate E) req = Ok NoBody \<and>
     ev_act E (ev_start E req None) = Act_Done (Responded resp) \<and> body_sized pend (rs_body resp))"

definition writes_ok ::
  "('m, 'u, 'n, 'v, 'r, 'w, 'b, 'h) h1_env \<Rightarrow> ('w \<Rightarrow> bool) \<Rightarrow> ('r, 'w) connection \<Rightarrow> bool" where
  "writes_ok E wfw c \<longleftrightarrow> wfw (cn_writer c) \<and> 0 < cn_resp_body_buf c \<and>
     2 < response_chunked_buf_size (ev_config E) \<and> response_chunked_buf_size (ev_config E) < 2 ^ 64"

context byte_source
begin

lemma peek_request_ok:
  assumes c: "conn_ready cap c" "0 < cap"
  obtains c' where "peek_request rd c = (True, c')" "conn_ready cap c'" "conn_bytes pending c' = conn_bytes pending c"
    "available_for_read (cn_buffer c') = 0 \<longleftrightarrow> conn_bytes pending c = []"
    "cn_writer c' = cn_writer c" "cn_resp_body_buf c' = cn_resp_body_buf c"
proof -
  have inv: "buffer_inv (cn_buffer c)" using c(1) by (simp add: conn_ready_def)
  have len: "available_for_read (cn_buffer c) = length (view (cn_buffer c))"
    using length_view [OF inv] by simp
  show ?thesis
  proof (cases "view (cn_buffer c) = []")
    case False
    then show ?thesis using that [of c] c(1) len by (simp add: peek_request_def conn_bytes_def)
  next
    case True
    let ?c = "if cn_first_request c then c\<lparr>cn_first_request := False\<rparr> else c"
    have room: "length (view (cn_buffer c)) < buffer_capacity (cn_buffer c)"
      using True c by (simp add: conn_ready_def)
    obtain bs b r where read: "read_from_reader rd (cn_buffer c) (cn_reader c) = (Ok (length bs), b, r)"
      "buffer_inv b" "view b = view (cn_buffer c) @ bs" "buffer_capacity b = buffer_capacity (cn_buffer c)"
      "pending (cn_reader c) = bs @ pending r" "pending (cn_reader c) \<noteq> [] \<longrightarrow> bs \<noteq> []"
      by (rule read_some [OF inv, of "cn_reader c"]) (use room in blast)
    have "available_for_read b = length bs" using length_view [OF read(2)] read(3) True by simp
    with read True len c(1) show ?thesis
      by (intro that [of "?c\<lparr>cn_buffer := b, cn_reader := r\<rparr>"])
        (auto simp: peek_request_def peek_request_inner_def conn_bytes_def conn_ready_def)
  qed
qed

lemma read_request_ok:
  assumes E: "ev_socket E = rd" and c: "conn_ready cap c"
    and head: "spells_request (ev_crate E) (request_header_line_max (ev_config E)) cap rq req"
    and stream: "conn_bytes pending c = head_wire rq @ rest"
  obtains c' where "read_request E c = (Some req, c')" "conn_ready cap c'" "conn_bytes pending c' = rest"
    "cn_writer c' = cn_writer c" "cn_resp_body_buf c' = cn_resp_body_buf c"
proof -
  obtain m u v hs where rq: "rq = (m, u, v, hs)" by (cases rq) auto
  have "\<exists>b' r'. read_request_inner rd (ev_crate E) (request_header_line_max (ev_config E)) (cn_buffer c, cn_reader c) =
      Some (Ok \<lparr>rq_method = rq_method req, rq_uri = rq_uri req, rq_version = parse_version v,
        rq_headers = map (parsed (ev_crate E)) hs\<rparr>, (b', r')) \<and>
    buffer_inv b' \<and> buffer_capacity b' = buffer_capacity (cn_buffer c) \<and> view b' @ pending r' = rest"
    by (rule read_request_inner_ok [of m _ _ u _ v])
      (use head c stream rq in \<open>simp_all add: conn_ready_def conn_bytes_def\<close>)
  then obtain b r where "read_request_inner rd (ev_crate E) (request_header_line_max (ev_config E))
      (cn_buffer c, cn_reader c) = Some (Ok req, (b, r))"
    "buffer_inv b" "buffer_capacity b = cap" "view b @ pending r = rest"
    using head c rq by (cases req) (auto simp: conn_ready_def)
  with E show ?thesis
    by (intro that [of "c\<lparr>cn_buffer := b, cn_reader := r\<rparr>"])
      (simp_all add: read_request_def conn_ready_def conn_bytes_def)
qed

lemma serve_turn_quick:
  assumes E: "ev_socket E = rd" and sink: "poll_sink (ev_write E) (ev_flush E) wfw written st"
    and body: "byte_source (ev_body E) pb"
    and c: "conn_ready cap c" "0 < cap" "writes_ok E wfw c"
    and x: "exchange_ok E pb cap (rq, req, resp)" and stream: "conn_bytes pending c = head_wire rq @ rest"
  obtains c' bytes where "serve_turn E c = Some (True, c')" "conn_ready cap c'" "writes_ok E wfw c'"
    "conn_bytes pending c' = rest" "written (cn_writer c') = written (cn_writer c) @ bytes"
    "response_bytes E pb resp bytes"
proof -
  have ok: "spells_request (ev_crate E) (request_header_line_max (ev_config E)) cap rq req"
    "request_body_type (ev_crate E) req = Ok NoBody"
    "ev_act E (ev_start E req None) = Act_Done (Responded resp)" "body_sized pb (rs_body resp)"
    using x by (simp_all add: exchange_ok_def)
  obtain c1 where c1: "peek_request rd c = (True, c1)" "conn_ready cap c1"
    "conn_bytes pending c1 = conn_bytes pending c" "available_for_read (cn_buffer c1) \<noteq> 0"
    "cn_writer c1 = cn_writer c" "cn_resp_body_buf c1 = cn_resp_body_buf c"
    by (rule peek_request_ok [OF c(1,2)]) (use stream in auto)
  from read_request_ok [OF E c1(2) ok(1), of rest] c1(3) stream obtain c2 where
    c2: "read_request E c1 = (Some req, c2)" "conn_ready cap c2" "conn_bytes pending c2 = rest"
    "cn_writer c2 = cn_writer c1" "cn_resp_body_buf c2 = cn_resp_body_buf c1"
    by auto
  let ?expects = "expects_continue (ev_crate E) (rq_headers req)"
  have run: "run_handler E (rq_version req) (ev_start E req None)
      (Empty_Body (g, lend_connection ?expects c2)) =
      Some (Some (Responded resp), Empty_Body (g, lend_connection ?expects c2))" for g
    using ok(3) by (subst run_handler.simps) (simp add: lend_connection_def)
  have turn: "serve_turn E c = Some (send_response E resp c2)"
    using E c1 c2(1) ok(2) run
    by (simp add: serve_turn_def validate_def make_body_def Let_def after_handler_def take_back_lend)
  have sized: "body_sized pb (rs_body (add_date (ev_crate E) (ev_date E) resp))"
    and same: "rs_body (add_date (ev_crate E) (ev_date E) resp) = rs_body resp"
    using ok(4) by (simp_all add: add_date_def split: option.split)
  have w: "wfw (cn_writer c2)" and sizes: "0 < cn_resp_body_buf c2" "2 < response_chunked_buf_size (ev_config E)"
    "response_chunked_buf_size (ev_config E) < 2 ^ 64"
    using c(3) c1(5,6) c2(4,5) by (simp_all add: writes_ok_def)
  from poll_sink.write_response_ok [OF sink body sizes w sized, of "ev_crate E" "ev_profile E"]
  obtain w' payload where w': "write_response (ev_crate E) (ev_profile E) (ev_body E) (ev_write E) (ev_flush E)
      (cn_resp_body_buf c2) (response_chunked_buf_size (ev_config E))
      (add_date (ev_crate E) (ev_date E) resp) (cn_writer c2) = Some (Ok (), w')"
    "wfw w'" "carries (ev_profile E) pb (rs_body resp) payload"
    "written w' = written (cn_writer c2) @
      head_bytes (ev_crate E) (finalize_response (ev_crate E) (add_date (ev_crate E) (ev_date E) resp)) @ payload"
    using same by auto
  show ?thesis
    by (rule that [of "c2\<lparr>cn_writer := w'\<rparr>"])
      (use turn w' c2 c1(5) sizes in \<open>auto simp: send_response_def conn_ready_def conn_bytes_def writes_ok_def
        response_bytes_def\<close>)
qed

lemma handle_pipelined:
  assumes E: "ev_socket E = rd" and sink: "poll_sink (ev_write E) (ev_flush E) wfw written st"
    and body: "byte_source (ev_body E) pb" and cap: "0 < cap"
  shows "conn_ready cap c \<Longrightarrow> writes_ok E wfw c \<Longrightarrow> \<forall>x\<in>set xs. exchange_ok E pb cap x \<Longrightarrow>
    conn_bytes pending c = concat (map (\<lambda>x. head_wire (fst x)) xs) \<Longrightarrow>
    \<exists>c' outs. handle_connection E [] c = Some c' \<and>
      written (cn_writer c') = written (cn_writer c) @ concat outs \<and>
      list_all2 (response_bytes E pb) (map (\<lambda>x. snd (snd x)) xs) outs \<and> conn_bytes pending c' = []"
proof (induction xs arbitrary: c)
  case Nil
  obtain c1 where "peek_request rd c = (True, c1)" "available_for_read (cn_buffer c1) = 0"
    "cn_writer c1 = cn_writer c" "conn_bytes pending c1 = []"
    by (rule peek_request_ok [OF Nil(1) cap]) (use Nil(4) in auto)
  then have "handle_connection E [] c = Some c1"
    using E by (subst handle_connection.simps) (simp add: serve_turn_def)
  with \<open>cn_writer c1 = cn_writer c\<close> \<open>conn_bytes pending c1 = []\<close> show ?case
    by (intro exI [of _ c1] exI [of _ "[]"]) simp
next
  case (Cons x xs)
  obtain rq req resp where x: "x = (rq, req, resp)" by (cases x) auto
  have ok: "exchange_ok E pb cap (rq, req, resp)" and rest: "\<forall>x\<in>set xs. exchange_ok E pb cap x"
    and stream: "conn_bytes pending c = head_wire rq @ concat (map (\<lambda>x. head_wire (fst x)) xs)"
    using Cons.prems(3,4) x by simp_all
  obtain c1 bytes where c1: "serve_turn E c = Some (True, c1)" "conn_ready cap c1" "writes_ok E wfw c1"
    "conn_bytes pending c1 = concat (map (\<lambda>x. head_wire (fst x)) xs)"
    "written (cn_writer c1) = written (cn_writer c) @ bytes" "response_bytes E pb resp bytes"
    by (rule serve_turn_quick [OF E sink body Cons.prems(1) cap Cons.prems(2) ok stream])
  have "handle_connection E [] c = handle_connection E [] c1"
    using c1(1) by (subst handle_connection.simps) simp
  with Cons.IH [OF c1(2,3) rest c1(4)] obtain c' outs where
    "handle_connection E [] c = Some c'" "conn_bytes pending c' = []"
    "written (cn_writer c') = written (cn_writer c1) @ concat outs"
    "list_all2 (response_bytes E pb) (map (\<lambda>x. snd (snd x)) xs) outs"
    by auto
  with c1(5,6) x show ?case by (intro exI [of _ c'] exI [of _ "bytes # outs"]) simp
qed

text \<open>A handler that fails is not answered.\<close>

lemma serve_turn_failed:
  assumes E: "ev_socket E = rd" and c: "conn_ready cap c" "0 < cap"
    and head: "spells_request (ev_crate E) (request_header_line_max (ev_config E)) cap rq req"
    and stream: "conn_bytes pending c = head_wire rq @ rest"
    and no_body: "request_body_type (ev_crate E) req = Ok NoBody"
    and failed: "ev_act E (ev_start E req None) = Act_Done (Failed err)"
  obtains c' where "serve_turn E c = Some (False, c')" "cn_writer c' = cn_writer c" "conn_bytes pending c' = rest"
proof -
  obtain c1 where c1: "peek_request rd c = (True, c1)" "conn_ready cap c1"
    "conn_bytes pending c1 = conn_bytes pending c" "available_for_read (cn_buffer c1) \<noteq> 0"
    "cn_writer c1 = cn_writer c"
    by (rule peek_request_ok [OF c]) (use stream in auto)
  from read_request_ok [OF E c1(2) head, of rest] c1(3) stream obtain c2 where
    c2: "read_request E c1 = (Some req, c2)" "conn_bytes pending c2 = rest" "cn_writer c2 = cn_writer c1"
    by auto
  let ?expects = "expects_continue (ev_crate E) (rq_headers req)"
  have run: "run_handler E (rq_version req) (ev_start E req None)
      (Empty_Body (g, lend_connection ?expects c2)) =
      Some (Some (Failed err), Empty_Body (g, lend_connection ?expects c2))" for g
    using failed by (subst run_handler.simps) (simp add: lend_connection_def)
  show ?thesis
    by (rule that [of c2])
      (use E c1 c2 no_body run in \<open>simp_all add: serve_turn_def validate_def make_body_def Let_def
        after_handler_def take_back_lend\<close>)
qed

end

section \<open>Properties\<close>

text \<open>A handler that answers with the target of the request, and fails for one target.\<close>

definition echo_env :: "(byte list, byte list, byte list, byte list, byte list list, nat list \<times> byte list,
    byte list list, byte list) h1_env" where
  "echo_env = \<lparr>ev_crate = ascii_crate, ev_profile = Release, ev_socket = chunk_reader, ev_write = script_write,
     ev_flush = script_flush, ev_body = chunk_reader, ev_config = h1_config_default, ev_date = bytes_of ''now'',
     ev_start = (\<lambda>req len. rq_uri req),
     ev_act = (\<lambda>u. Act_Done (if u = bytes_of ''/fail'' then Failed \<lparr>he_status = status_not_found, he_close = False\<rparr>
       else Responded (plain_response (Some (length u)) [u]))),
     ev_resume = (\<lambda>h res. h)\<rparr>"

definition get_head :: "string \<Rightarrow> head_text" where
  "get_head target = (bytes_of ''GET'', bytes_of target, HTTP1_1, [(bytes_of ''Host'', bytes_of ''a'')])"

definition get_request :: "string \<Rightarrow> (byte list, byte list, byte list, byte list) request" where
  "get_request target = \<lparr>rq_method = bytes_of ''GET'', rq_uri = bytes_of target, rq_version = parse_version HTTP1_1,
     rq_headers = [(bytes_of ''Host'', bytes_of ''a'')]\<rparr>"

definition get_response :: "string \<Rightarrow> (byte list, byte list, byte list list) response" where
  "get_response target = plain_response (Some (length (bytes_of target))) [bytes_of target]"

lemma get_spells:
  assumes "SP \<notin> set (bytes_of target)" "CR \<notin> set (bytes_of target)" "length target < 100"
  shows "spells_request ascii_crate 128 4096 (get_head target) (get_request target)"
proof -
  have "line_ok ascii_crate 128 4096 (bytes_of ''Host'', bytes_of ''a'')"
    by (simp add: line_ok_def ascii_crate_def header_line_def CRNL_def bytes_of_def byte_class_defs is_token_def)
  with assms show ?thesis
    by (simp add: get_head_def get_request_def ascii_crate_def parsed_def start_line_def HTTP1_1_def bytes_of_def)
qed

lemma get_no_body: "request_body_type ascii_crate (get_request target) = Ok NoBody"
  by (simp add: request_body_type_def determine_body_type_def get_request_def ascii_crate_def)

text \<open>
  C4. A connection answers requests without a body in order, each exactly once, however the
  requests are cut, also when they all arrive before the first answer is written: what the
  client receives are the responses of the handler, one after the other, each with its head and
  its whole body; at the end of the input the connection ends regularly and nothing is left
  unread. A safe method never has a body, so what follows the head of a \<open>GET\<close> is the next request,
  even when its headers announce a body.
\<close>

theorem pipelined_requests_answered:
  fixes E :: "('m, 'u, 'n, 'v, byte list list, nat list \<times> byte list, byte list list, 'h) h1_env"
    and xs :: "(head_text \<times> ('m, 'u, 'n, 'v) request \<times> ('n, 'v, byte list list) response) list"
  assumes "ev_socket E = chunk_reader" "ev_write E = script_write" "ev_flush E = script_flush" "ev_body E = chunk_reader"
    and "buffer_inv (cn_buffer c)" "buffer_capacity (cn_buffer c) = cap" "0 < cap" "0 < cn_resp_body_buf c"
    and "2 < response_chunked_buf_size (ev_config E)" "response_chunked_buf_size (ev_config E) < 2 ^ 64"
    and "\<forall>x\<in>set xs. exchange_ok E concat cap x"
    and "view (cn_buffer c) @ concat (cn_reader c) = concat (map (\<lambda>x. head_wire (fst x)) xs)"
  shows "\<exists>c' outs. handle_connection E [] c = Some c' \<and>
    snd (cn_writer c') = snd (cn_writer c) @ concat outs \<and>
    list_all2 (response_bytes E concat) (map (\<lambda>x. snd (snd x)) xs) outs \<and>
    view (cn_buffer c') @ concat (cn_reader c') = []"
proof -
  have sink: "poll_sink (ev_write E) (ev_flush E) (\<lambda>w. True) snd sink_stalls"
    using script_sink.poll_sink_axioms assms(2,3) by simp
  have body: "byte_source (ev_body E) concat"
    using chunk_source.byte_source_axioms assms(4) by simp
  show ?thesis
    using chunk_source.handle_pipelined [OF assms(1) sink body assms(7), of c xs] assms(5,6,8-12)
    by (simp add: conn_ready_def writes_ok_def conn_bytes_def)
qed

theorem pipelined_requests_answered_witness:
  "\<exists>c' outs. handle_connection echo_env [] (connection_new h1_config_default None None
      [head_wire (get_head ''/a'') @ [71], drop 1 (head_wire (get_head ''/b''))] ([3, 0], [])) = Some c' \<and>
    snd (cn_writer c') = concat outs \<and>
    list_all2 (response_bytes echo_env concat) [get_response ''/a'', get_response ''/b''] outs \<and>
    view (cn_buffer c') @ concat (cn_reader c') = []"
proof -
  let ?c = "connection_new h1_config_default None None
      [head_wire (get_head ''/a'') @ [71], drop 1 (head_wire (get_head ''/b''))] ([3, 0], [])"
  let ?xs = "map (\<lambda>t. (get_head t, get_request t, get_response t)) [''/a'', ''/b'']"
  have ok: "exchange_ok echo_env concat 4096 (get_head t, get_request t, get_response t)"
    if "t = ''/a'' \<or> t = ''/b''" for t
  proof -
    have "spells_request ascii_crate 128 4096 (get_head t) (get_request t)"
      by (rule get_spells) (use that in \<open>auto simp: bytes_of_def\<close>)
    with that get_no_body [of t] show ?thesis
      by (auto simp: exchange_ok_def echo_env_def h1_config_default_def get_request_def get_response_def
          body_sized_def plain_response_def bytes_of_def)
  qed
  have head: "[71] @ drop 1 (head_wire (get_head ''/b'')) = head_wire (get_head ''/b'')"
    by (simp add: get_head_def start_line_def bytes_of_def)
  show ?thesis
    using pipelined_requests_answered [of echo_env ?c 4096 ?xs] ok head
    by (simp add: connection_new_def buffer_ops echo_env_def h1_config_default_def)
qed



end
