(* ===== verification/Listener.thy ===== *)
theory Listener
  imports Prelude
begin

text \<open>
  \<open>src/src/listener.rs\<close>: the listeners for TCP and Unix sockets, the negotiators, and what they
  record of a connection. Sockets and the TLS handshake are inputs. Of the extensions of a
  connection the server looks up the \<open>ConnectionInfo\<close> only: they are its presence and its value.
\<close>

section \<open>What is known of a connection\<close>

record unix_info =
  ui_unnamed :: bool
  ui_pathname :: "string option"

definition unix_info_from :: "('a \<Rightarrow> bool) \<Rightarrow> ('a \<Rightarrow> string option) \<Rightarrow> 'a \<Rightarrow> unix_info" where
  "unix_info_from unnamed pathname addr = \<lparr>ui_unnamed = unnamed addr, ui_pathname = pathname addr\<rparr>"

record ('addr, 'cred) connection_info =
  peer_addr :: "'addr option"
  conn_unix_info :: "unix_info option"
  peer_cred :: "'cred option"
  alpn_protocol :: "string option"

definition connection_info_default :: "('addr, 'cred) connection_info" where
  "connection_info_default = \<lparr>peer_addr = None, conn_unix_info = None, peer_cred = None, alpn_protocol = None\<rparr>"

definition is_h2 :: "('addr, 'cred) connection_info \<Rightarrow> bool" where
  "is_h2 info = (case alpn_protocol info of Some alpn \<Rightarrow> alpn = ''h2'' | None \<Rightarrow> False)"

type_synonym ('addr, 'cred) extensions = "('addr, 'cred) connection_info option"

section \<open>Listeners\<close>

text \<open>\<open>Listener::accept\<close>; \<open>accepted\<close> is what the socket answers, \<open>cred\<close> is \<open>peer_cred\<close> of a connection.\<close>

definition tcp_accept ::
  "('conn \<times> 'addr, 'e) outcome \<Rightarrow> ('conn \<times> ('addr, 'cred) extensions, 'e) outcome" where
  "tcp_accept accepted =
     omap (\<lambda>(conn, addr). (conn, Some (connection_info_default\<lparr>peer_addr := Some addr\<rparr>))) accepted"

definition unix_accept ::
  "('a \<Rightarrow> bool) \<Rightarrow> ('a \<Rightarrow> string option) \<Rightarrow> ('conn \<Rightarrow> ('cred, 'f) outcome) \<Rightarrow> ('conn \<times> 'a, 'e) outcome
    \<Rightarrow> ('conn \<times> ('addr, 'cred) extensions, 'e) outcome" where
  "unix_accept unnamed pathname cred accepted =
     omap (\<lambda>(conn, addr).
       let info = connection_info_default\<lparr>conn_unix_info := Some (unix_info_from unnamed pathname addr)\<rparr> in
       (conn, Some (case cred conn of Ok c \<Rightarrow> info\<lparr>peer_cred := Some c\<rparr> | _ \<Rightarrow> info))) accepted"

section \<open>Negotiators\<close>

text \<open>\<open>Negotiator::negotiate\<close>: the connection to go on with, and the extensions it leaves.\<close>

type_synonym ('io, 'conn, 'addr, 'cred) negotiator =
  "'io \<Rightarrow> ('addr, 'cred) extensions \<Rightarrow> ('conn, unit) outcome \<times> ('addr, 'cred) extensions"

definition no_negotiate :: "('io, 'io, 'addr, 'cred) negotiator" where
  "no_negotiate conn ext = (Ok conn, ext)"

text \<open>
  The negotiator for TLS: \<open>handshake\<close> gives the encrypted connection with the protocol of ALPN,
  \<open>lossy\<close> stands for \<open>String::from_utf8_lossy\<close>.
\<close>

definition tls_negotiate ::
  "(byte list \<Rightarrow> string) \<Rightarrow> ('io \<Rightarrow> ('conn \<times> byte list option, unit) outcome) \<Rightarrow> ('io, 'conn, 'addr, 'cred) negotiator" where
  "tls_negotiate lossy handshake conn ext =
     (case handshake conn of
        Ok (tls, Some buf) \<Rightarrow> (Ok tls, map_option (\<lambda>info. info\<lparr>alpn_protocol := Some (lossy buf)\<rparr>) ext)
      | Ok (tls, None) \<Rightarrow> (Ok tls, ext)
      | Err e \<Rightarrow> (Err e, ext)
      | Panic \<Rightarrow> (Panic, ext))"

text \<open>The listeners record who connects, and never a protocol.\<close>

lemma accepted_info:
  "tcp_accept accepted = Ok (conn, ext) \<Longrightarrow> \<exists>info addr. accepted = Ok (conn, addr) \<and> ext = Some info \<and>
     peer_addr info = Some addr \<and> \<not> is_h2 info"
  "unix_accept unnamed pathname cred accepted = Ok (conn, ext) \<Longrightarrow> \<exists>info. ext = Some info \<and>
     peer_addr info = None \<and> conn_unix_info info \<noteq> None \<and> \<not> is_h2 info"
  by (auto simp: tcp_accept_def unix_accept_def connection_info_default_def is_h2_def Let_def split: outcome.split)

end
