(* ===== verification/Server.thy ===== *)
theory Server
  imports H1_Conn Listener
begin

text \<open>
  \<open>src/src/server.rs\<close>: the listeners of a server, the check of the configuration, the accept loop
  with its limit of connections per second, the choice of a protocol after the negotiation, the
  counter of listeners and connections, the shutdown. Accepting, negotiating and spawning are
  inputs; the tasks together are a step relation. Time is counted in milliseconds.
\<close>

section \<open>Starting and stopping\<close>

text \<open>\<open>Server::new_with_config\<close> panics on a body buffer smaller than the header buffer.\<close>

definition new_with_config :: "h1_config \<Rightarrow> (h1_config, unit) outcome" where
  "new_with_config cfg =
     (if request_header_buf_size cfg > request_body_buf_size cfg then Panic else Ok cfg)"

definition server_new :: "(h1_config, unit) outcome" where
  "server_new = new_with_config h1_config_default"

text \<open>\<open>Server::run\<close>: the signals and events it waits for, in two phases.\<close>

datatype server_input = Interrupt | Terminate | Shutdown_Complete | Shutdown_Timeout
datatype server_phase = Serving | Draining | Exited

fun server_step :: "server_phase \<Rightarrow> server_input \<Rightarrow> server_phase" where
  "server_step Serving Interrupt = Draining"
| "server_step Serving Terminate = Exited"
| "server_step Serving _ = Serving"
| "server_step Draining _ = Exited"
| "server_step Exited _ = Exited"

section \<open>The counter\<close>

datatype count_event = Opened | Closed

definition U128_MAX :: nat where "U128_MAX = 2 ^ 128 - 1"

definition counter_add :: "nat \<Rightarrow> nat" where
  "counter_add n = (if n + 1 \<le> U128_MAX then n + 1 else U128_MAX)"

definition counter_sub :: "nat \<Rightarrow> nat" where
  "counter_sub n = (if 1 \<le> n then n - 1 else 0)"

fun count :: "count_event \<Rightarrow> nat \<Rightarrow> nat" where
  "count Opened n = counter_add n"
| "count Closed n = counter_sub n"

record counter_task =
  listener_events_active :: bool
  listener_counter :: nat
  connection_events_active :: bool
  connection_counter :: nat
  ct_shutdown :: bool

definition counter_new :: counter_task where
  "counter_new = \<lparr>listener_events_active = True, listener_counter = 0, connection_events_active = True,
     connection_counter = 0, ct_shutdown = False\<rparr>"

text \<open>What \<open>select!\<close> receives; \<open>None\<close> is a channel all of whose senders are gone.\<close>

datatype counter_input =
  Listener_Event "count_event option" | Connection_Event "count_event option" | Shutdown_Changed

fun counter_receive :: "counter_input \<Rightarrow> counter_task \<Rightarrow> counter_task" where
  "counter_receive (Listener_Event (Some e)) t = t\<lparr>listener_counter := count e (listener_counter t)\<rparr>"
| "counter_receive (Listener_Event None) t = t\<lparr>listener_events_active := False\<rparr>"
| "counter_receive (Connection_Event (Some e)) t = t\<lparr>connection_counter := count e (connection_counter t)\<rparr>"
| "counter_receive (Connection_Event None) t = t\<lparr>connection_events_active := False\<rparr>"
| "counter_receive Shutdown_Changed t = t\<lparr>ct_shutdown := True\<rparr>"

text \<open>One turn: whether the task reports the shutdown as complete, and its state.\<close>

definition counter_turn :: "counter_input \<Rightarrow> counter_task \<Rightarrow> bool \<times> counter_task" where
  "counter_turn i t =
     (let t' = counter_receive i t in
      (ct_shutdown t' \<and> listener_counter t' = 0 \<and> connection_counter t' = 0, t'))"

section \<open>The protocol\<close>

datatype spawned = Spawn_H1 | Spawn_H2 | Spawn_Nothing

text \<open>
  \<open>NegotiatorTask::run\<close>: what becomes of a connection, and the events it sends. The result of the
  negotiation is the information on the connection, if the extensions hold one; an error and a
  time-out (\<open>None\<close>) end the task.
\<close>

type_synonym ('addr, 'cred) negotiated = "(('addr, 'cred) extensions, unit) outcome option"

definition negotiator_run :: "('addr, 'cred) negotiated \<Rightarrow> spawned \<times> count_event list" where
  "negotiator_run result =
     (case result of
        None \<Rightarrow> (Spawn_Nothing, [])
      | Some (Ok (Some info)) \<Rightarrow> if is_h2 info then (Spawn_H2, []) else (Spawn_Nothing, [Closed])
      | Some (Ok None) \<Rightarrow> (Spawn_Nothing, [Closed])
      | Some _ \<Rightarrow> (Spawn_Nothing, []))"

text \<open>
  A negotiation that ends in time. Over a listener without a negotiator a connection is served at
  once, over the others when its negotiation has ended.
\<close>

definition negotiation :: "('io, 'conn, 'addr, 'cred) negotiator \<Rightarrow> 'io \<Rightarrow> ('addr, 'cred) extensions \<Rightarrow> ('addr, 'cred) negotiated" where
  "negotiation negotiate conn ext = (case negotiate conn ext of (r, ext') \<Rightarrow> Some (omap (\<lambda>_. ext') r))"

definition serve_accepted ::
  "('io, 'conn, 'addr, 'cred) negotiator option \<Rightarrow> 'io \<times> ('addr, 'cred) extensions \<Rightarrow> spawned \<times> count_event list" where
  "serve_accepted negotiator accepted =
     (case negotiator of
        None \<Rightarrow> (Spawn_H1, [])
      | Some negotiate \<Rightarrow> negotiator_run (negotiation negotiate (fst accepted) (snd accepted)))"

text \<open>
  A TLS client gets a connection only when it speaks HTTP/2; clients without ALPN are dropped. A
  negotiator that negotiates nothing drops everyone.
\<close>

lemma tls_served_iff:
  assumes "tcp_accept accepted = Ok (io, ext)"
  shows "fst (serve_accepted (Some (tls_negotiate lossy handshake)) (io, ext)) = Spawn_H2
     \<longleftrightarrow> (\<exists>conn protocol. handshake io = Ok (conn, Some protocol) \<and> lossy protocol = ''h2'')"
proof -
  obtain info where "ext = Some info" "\<not> is_h2 info" using accepted_info(1) [OF assms] by blast
  then show ?thesis
    by (auto simp: serve_accepted_def negotiation_def tls_negotiate_def negotiator_run_def is_h2_def
        split: outcome.splits option.splits)
qed

lemma nothing_negotiated_nothing_served:
  assumes "tcp_accept accepted = Ok (io, ext)"
  shows "serve_accepted (Some no_negotiate) (io, ext) = (Spawn_Nothing, [Closed])"
    and "serve_accepted None (io, ext) = (Spawn_H1, [])"
proof -
  obtain info where "ext = Some info" "\<not> is_h2 info" using accepted_info(1) [OF assms] by blast
  then show "serve_accepted (Some no_negotiate) (io, ext) = (Spawn_Nothing, [Closed])"
    "serve_accepted None (io, ext) = (Spawn_H1, [])"
    by (simp_all add: serve_accepted_def negotiation_def no_negotiate_def negotiator_run_def)
qed

section \<open>The listeners of a server\<close>

text \<open>
  \<open>add_listener\<close> and \<open>add_listener_with_negotiator\<close> start a task that waits for the handler;
  \<open>Server::run\<close> gives it to all of them, and then each is open.
\<close>

record ('l, 'n) server =
  srv_config :: h1_config
  srv_listeners :: "('l \<times> 'n option) list"

definition server_made :: "h1_config \<Rightarrow> (('l, 'n) server, unit) outcome" where
  "server_made cfg = omap (\<lambda>c. \<lparr>srv_config = c, srv_listeners = []\<rparr>) (new_with_config cfg)"

definition add_listener_with_negotiator_inner :: "'l \<Rightarrow> 'n option \<Rightarrow> ('l, 'n) server \<Rightarrow> ('l, 'n) server" where
  "add_listener_with_negotiator_inner listener negotiator s =
     s\<lparr>srv_listeners := srv_listeners s @ [(listener, negotiator)]\<rparr>"

definition add_listener :: "'l \<Rightarrow> ('l, 'n) server \<Rightarrow> ('l, 'n) server" where
  "add_listener listener = add_listener_with_negotiator_inner listener None"

definition add_listener_with_negotiator :: "'l \<Rightarrow> 'n \<Rightarrow> ('l, 'n) server \<Rightarrow> ('l, 'n) server" where
  "add_listener_with_negotiator listener negotiator =
     add_listener_with_negotiator_inner listener (Some negotiator)"

section \<open>The accept loop\<close>

definition interval :: nat where "interval = 1000"

record listener_state =
  ls_start :: nat
  ls_count :: nat

text \<open>The beginning of a turn at time \<open>now\<close>: the new state and how long to sleep.\<close>

definition rate_gate :: "nat \<Rightarrow> nat \<Rightarrow> listener_state \<Rightarrow> listener_state \<times> nat" where
  "rate_gate limit now ls =
     (if limit > 0 \<and> ls_count ls \<ge> limit
      then let elapsed = now - ls_start ls in
        (ls\<lparr>ls_start := now, ls_count := 0\<rparr>, if interval > elapsed then interval - elapsed else 0)
      else (ls, 0))"

text \<open>
  The times at which the loop accepts connections that arrive at the given times; the loop itself
  takes no time.
\<close>

fun accept_times :: "nat \<Rightarrow> nat \<Rightarrow> listener_state \<Rightarrow> nat list \<Rightarrow> nat list" where
  "accept_times limit now ls [] = []"
| "accept_times limit now ls (arrival # arrivals) =
     (case rate_gate limit now ls of
        (ls', sleep) \<Rightarrow>
          let t = max arrival (now + sleep);
              ls'' = (if limit > 0 then ls'\<lparr>ls_count := ls_count ls' + 1\<rparr> else ls') in
          t # accept_times limit t ls'' arrivals)"

lemma length_accept_times [simp]: "length (accept_times limit now ls arrivals) = length arrivals"
  by (induction arrivals arbitrary: now ls) (simp_all add: Let_def split: prod.split)

lemma accept_times_after: "t \<in> set (accept_times limit now ls arrivals) \<Longrightarrow> now \<le> t"
proof (induction arrivals arbitrary: now ls)
  case (Cons a arrivals)
  then show ?case by (fastforce simp: Let_def split: prod.splits)
qed simp

text \<open>The bounds of the state in the loop.\<close>

definition ls_ok :: "nat \<Rightarrow> nat \<Rightarrow> listener_state \<Rightarrow> bool" where
  "ls_ok limit now ls \<longleftrightarrow> ls_start ls \<le> now \<and> ls_count ls \<le> limit"

lemma one_window:
  "0 < limit \<Longrightarrow> ls_ok limit now ls \<Longrightarrow> i < length arrivals \<Longrightarrow> limit \<le> ls_count ls + i \<Longrightarrow>
   ls_start ls + interval \<le> accept_times limit now ls arrivals ! i"
proof (induction arrivals arbitrary: now ls i)
  case (Cons a arrivals)
  show ?case
  proof (cases "ls_count ls = limit")
    case True
    let ?sleep = "if interval > now - ls_start ls then interval - (now - ls_start ls) else 0"
    have "accept_times limit now ls (a # arrivals) ! i \<ge> now + ?sleep"
    proof (cases i)
      case 0
      then show ?thesis using True Cons.prems(1) by (simp add: rate_gate_def Let_def)
    next
      case (Suc j)
      let ?rest = "accept_times limit (max a (now + ?sleep)) (ls\<lparr>ls_start := now, ls_count := 1\<rparr>) arrivals"
      have "?rest ! j \<in> set ?rest" using Suc Cons.prems(3) by simp
      from accept_times_after [OF this] show ?thesis
        using True Cons.prems(1) Suc by (simp add: rate_gate_def Let_def)
    qed
    then show ?thesis using Cons.prems(2) by (auto simp: ls_ok_def split: if_splits)
  next
    case False
    then have lt: "ls_count ls < limit" using Cons.prems(2) by (simp add: ls_ok_def)
    then obtain j where j: "i = Suc j" using Cons.prems(4) by (cases i) auto
    have "ls_ok limit (max a now) (ls\<lparr>ls_count := ls_count ls + 1\<rparr>)"
      using Cons.prems(2) lt by (simp add: ls_ok_def)
    from Cons.IH [OF Cons.prems(1) this, of j] show ?thesis
      using lt j Cons.prems(1,3,4) by (simp add: rate_gate_def Let_def)
  qed
qed simp

lemma two_windows:
  "0 < limit \<Longrightarrow> ls_ok limit now ls \<Longrightarrow> i < length arrivals \<Longrightarrow> 2 * limit \<le> ls_count ls + i \<Longrightarrow>
   now + interval \<le> accept_times limit now ls arrivals ! i"
proof (induction arrivals arbitrary: now ls i)
  case (Cons a arrivals)
  show ?case
  proof (cases "ls_count ls = limit")
    case True
    let ?sleep = "if interval > now - ls_start ls then interval - (now - ls_start ls) else 0"
    let ?ls = "ls\<lparr>ls_start := now, ls_count := 1\<rparr>"
    obtain j where j: "i = Suc j" using True Cons.prems(1,4) by (cases i) auto
    have "ls_ok limit (max a (now + ?sleep)) ?ls" using Cons.prems(1) by (simp add: ls_ok_def)
    from one_window [OF Cons.prems(1) this, of j arrivals] show ?thesis
      using True Cons.prems(1,3,4) j by (simp add: rate_gate_def Let_def)
  next
    case False
    then have lt: "ls_count ls < limit" using Cons.prems(2) by (simp add: ls_ok_def)
    then obtain j where j: "i = Suc j" using Cons.prems(4) by (cases i) auto
    have "ls_ok limit (max a now) (ls\<lparr>ls_count := ls_count ls + 1\<rparr>)"
      using Cons.prems(2) lt by (simp add: ls_ok_def)
    from Cons.IH [OF Cons.prems(1) this, of j] show ?thesis
      using lt j Cons.prems(1,3,4) by (simp add: rate_gate_def Let_def)
  qed
qed simp

text \<open>
  The accept rate: however the connections arrive, any \<open>2 * limit + 1\<close> connections that are accepted
  one after the other spread over at least one second.
\<close>

lemma accept_spacing:
  "0 < limit \<Longrightarrow> ls_ok limit now ls \<Longrightarrow> k + 2 * limit < length arrivals \<Longrightarrow>
   accept_times limit now ls arrivals ! k + interval \<le> accept_times limit now ls arrivals ! (k + 2 * limit)"
proof (induction arrivals arbitrary: now ls k)
  case (Cons a arrivals)
  obtain ls' sleep where gate: "rate_gate limit now ls = (ls', sleep)" by fastforce
  let ?t = "max a (now + sleep)" and ?ls = "ls'\<lparr>ls_count := ls_count ls' + 1\<rparr>"
  have ok: "ls_ok limit ?t ?ls"
    using gate Cons.prems(1,2) by (auto simp: rate_gate_def ls_ok_def Let_def split: if_splits)
  have eq: "accept_times limit now ls (a # arrivals) = ?t # accept_times limit ?t ?ls arrivals"
    using gate Cons.prems(1) by (simp add: Let_def)
  show ?case
  proof (cases k)
    case 0
    from two_windows [OF Cons.prems(1) ok, of "2 * limit - 1" arrivals] show ?thesis
      using Cons.prems(1,3) 0 eq by (cases limit) simp_all
  next
    case (Suc j)
    with Cons.IH [OF Cons.prems(1) ok, of j] Cons.prems(3) eq show ?thesis by simp
  qed
qed simp


text \<open>A flood: every connection is there when the loop looks for it.\<close>

lemma accept_within_window:
  "0 < limit \<Longrightarrow> ls_count ls + n \<le> limit \<Longrightarrow>
   accept_times limit now ls (replicate n 0 @ arrivals)
     = replicate n now @ accept_times limit now (ls\<lparr>ls_count := ls_count ls + n\<rparr>) arrivals"
  by (induction n arbitrary: ls) (simp_all add: rate_gate_def)

lemma accept_full_window:
  assumes "0 < limit" "ls_count ls = limit" "ls_start ls \<le> now"
  shows "accept_times limit now ls (replicate limit 0 @ arrivals)
    = (let t = max now (ls_start ls + interval) in
       replicate limit t @ accept_times limit t \<lparr>ls_start = now, ls_count = limit\<rparr> arrivals)"
proof -
  let ?t = "max now (ls_start ls + interval)"
  obtain n where n: "limit = Suc n" using assms(1) by (cases limit) auto
  have gate: "rate_gate limit now ls = (ls\<lparr>ls_start := now, ls_count := 0\<rparr>, ?t - now)"
    using assms by (auto simp: rate_gate_def Let_def max_def interval_def)
  have "accept_times limit now ls (replicate limit 0 @ arrivals)
      = ?t # accept_times limit ?t (ls\<lparr>ls_start := now, ls_count := 1\<rparr>) (replicate n 0 @ arrivals)"
    using gate assms(1) n by (simp add: max_def Let_def)
  also have "\<dots> = ?t # replicate n ?t @ accept_times limit ?t (ls\<lparr>ls_start := now, ls_count := limit\<rparr>) arrivals"
    using accept_within_window [OF assms(1), of "ls\<lparr>ls_start := now, ls_count := 1\<rparr>" n] n by simp
  also have "ls\<lparr>ls_start := now, ls_count := limit\<rparr> = \<lparr>ls_start = now, ls_count = limit\<rparr>" by simp
  finally show ?thesis using n by (simp add: Let_def del: accept_times.simps)
qed

fun flood :: "nat \<Rightarrow> nat \<Rightarrow> nat \<Rightarrow> nat list" where
  "flood limit t 0 = []"
| "flood limit t (Suc n) = replicate (2 * limit) t @ flood limit (t + interval) n"

lemma accept_flood_from:
  assumes "0 < limit"
  shows "accept_times limit t \<lparr>ls_start = t, ls_count = limit\<rparr> (replicate (2 * limit * n) 0)
           = flood limit (t + interval) n"
proof (induction n arbitrary: t)
  case (Suc n)
  let ?rest = "replicate (2 * limit * n) (0::nat)" and ?u = "t + interval"
  have arr: "replicate (2 * limit * Suc n) (0::nat) = replicate limit 0 @ replicate limit 0 @ ?rest"
    by (simp add: replicate_add [symmetric] algebra_simps)
  have two: "replicate (2 * limit) ?u = replicate limit ?u @ replicate limit ?u"
    by (simp add: replicate_add [symmetric] mult_2)
  show ?case
    using accept_full_window [OF assms, of "\<lparr>ls_start = t, ls_count = limit\<rparr>" t "replicate limit 0 @ ?rest"]
      accept_full_window [OF assms, of "\<lparr>ls_start = t, ls_count = limit\<rparr>" ?u ?rest] Suc.IH [of ?u]
    unfolding arr flood.simps two by (simp add: Let_def)
qed simp

text \<open>
  C24. A flood is not limited to \<open>connections_per_second\<close>: the start of a window is taken before the
  loop sleeps, so the window that follows has no time left, and twice as many connections are
  accepted every second.
\<close>

theorem accept_flood:
  "accept_times (Suc l) 0 \<lparr>ls_start = 0, ls_count = 0\<rparr> (replicate (Suc l + 2 * Suc l * n) 0)
     = replicate (Suc l) 0 @ flood (Suc l) interval n"
  using accept_within_window [of "Suc l" "\<lparr>ls_start = 0, ls_count = 0\<rparr>" "Suc l" 0 "replicate (2 * Suc l * n) 0"]
    accept_flood_from [of "Suc l" 0 n]
  unfolding replicate_add by simp

section \<open>The tasks together\<close>

text \<open>
  The listeners, the connections and the counter task. A connection has been accepted and waits for
  its task to run, or is open; listeners and connections send their events over channels, which the
  counter task reads when it gets to them. No channel is ever closed, as \<open>Server::run\<close> holds a
  sender of each. \<open>sy_complete\<close>: the counter task has told \<open>Server::run\<close> that the shutdown is complete.
\<close>

record server_sys =
  sy_listening :: nat
  sy_pending :: nat
  sy_open :: nat
  sy_listener_queue :: "count_event list"
  sy_queue :: "count_event list"
  sy_counter :: counter_task
  sy_complete :: bool

definition sys_start :: server_sys where
  "sys_start = \<lparr>sy_listening = 0, sy_pending = 0, sy_open = 0, sy_listener_queue = [], sy_queue = [],
     sy_counter = counter_new, sy_complete = False\<rparr>"

definition sys_count :: "counter_input \<Rightarrow> server_sys \<Rightarrow> server_sys" where
  "sys_count i s = (case counter_turn i (sy_counter s) of
     (complete, t) \<Rightarrow> s\<lparr>sy_counter := t, sy_complete := complete\<rparr>)"

text \<open>The steps; \<open>results\<close> says which results the negotiations can have.\<close>

inductive sys_step ::
    "(('addr, 'cred) negotiated \<Rightarrow> bool) \<Rightarrow> server_sys \<Rightarrow> server_sys \<Rightarrow> bool"
  for results where
  listen: "sys_step results s (s\<lparr>sy_listening := sy_listening s + 1, sy_listener_queue := sy_listener_queue s @ [Opened]\<rparr>)"
| unlisten: "0 < sy_listening s \<Longrightarrow>
    sys_step results s (s\<lparr>sy_listening := sy_listening s - 1, sy_listener_queue := sy_listener_queue s @ [Closed]\<rparr>)"
| accept: "0 < sy_listening s \<Longrightarrow> sys_step results s (s\<lparr>sy_pending := sy_pending s + 1\<rparr>)"
| negotiated: "results r \<Longrightarrow> negotiator_run r = (spawn, events) \<Longrightarrow>
    sys_step results s (s\<lparr>sy_pending := sy_pending s + (if spawn = Spawn_Nothing then 0 else 1),
                          sy_queue := sy_queue s @ events\<rparr>)"
| run: "0 < sy_pending s \<Longrightarrow>
    sys_step results s (s\<lparr>sy_pending := sy_pending s - 1, sy_open := sy_open s + 1, sy_queue := sy_queue s @ [Opened]\<rparr>)"
| leave: "0 < sy_open s \<Longrightarrow>
    sys_step results s (s\<lparr>sy_open := sy_open s - 1, sy_queue := sy_queue s @ [Closed]\<rparr>)"
| count_listener: "\<not> sy_complete s \<Longrightarrow> sy_listener_queue s = e # q \<Longrightarrow>
    sys_step results s (sys_count (Listener_Event (Some e)) (s\<lparr>sy_listener_queue := q\<rparr>))"
| count_connection: "\<not> sy_complete s \<Longrightarrow> sy_queue s = e # q \<Longrightarrow>
    sys_step results s (sys_count (Connection_Event (Some e)) (s\<lparr>sy_queue := q\<rparr>))"
| shutdown: "\<not> sy_complete s \<Longrightarrow> sys_step results s (sys_count Shutdown_Changed s)"

text \<open>The states after a number of steps.\<close>

inductive sys_reach ::
    "(('addr, 'cred) negotiated \<Rightarrow> bool) \<Rightarrow> nat \<Rightarrow> server_sys \<Rightarrow> bool"
  for results where
  start: "sys_reach results 0 sys_start"
| step: "sys_reach results n s \<Longrightarrow> sys_step results s s' \<Longrightarrow> sys_reach results (Suc n) s'"

text \<open>The value a counter has when it has taken in the events of a queue and was never below zero.\<close>

fun settled :: "nat \<Rightarrow> count_event list \<Rightarrow> nat option" where
  "settled n [] = Some n"
| "settled n (Opened # q) = settled (Suc n) q"
| "settled n (Closed # q) = (if n = 0 then None else settled (n - 1) q)"

lemma settled_append: "settled n (p @ q) = Option.bind (settled n p) (\<lambda>m. settled m q)"
proof (induction p arbitrary: n)
  case (Cons e p)
  then show ?case by (cases e) simp_all
qed simp

lemma settled_balance:
  "settled n q = Some m \<Longrightarrow> m + count_list q Closed = n + count_list q Opened"
proof (induction q arbitrary: n)
  case (Cons e q)
  then show ?case by (cases e) (auto split: if_splits)
qed simp

lemma settled_count:
  "settled n (e # q) = Some m \<Longrightarrow> n < U128_MAX \<Longrightarrow> settled (count e n) q = Some m"
  by (cases e) (auto simp: counter_add_def counter_sub_def split: if_splits)

lemma count_grows: "count e n \<le> Suc n"
  by (cases e) (auto simp: counter_add_def counter_sub_def)

text \<open>The invariant of the server after \<open>n\<close> steps, when no event is made up.\<close>

definition sys_inv :: "nat \<Rightarrow> server_sys \<Rightarrow> bool" where
  "sys_inv n s \<longleftrightarrow>
     settled (connection_counter (sy_counter s)) (sy_queue s) = Some (sy_open s) \<and>
     settled (listener_counter (sy_counter s)) (sy_listener_queue s) = Some (sy_listening s) \<and>
     connection_counter (sy_counter s) + length (sy_queue s) \<le> n \<and>
     listener_counter (sy_counter s) + length (sy_listener_queue s) \<le> n"

text \<open>Every negotiation that succeeds has agreed on HTTP/2.\<close>

definition all_h2 :: "('addr, 'cred) negotiated \<Rightarrow> bool" where
  "all_h2 r \<longleftrightarrow> (\<forall>c. r = Some (Ok c) \<longrightarrow> (case c of Some info \<Rightarrow> is_h2 info | None \<Rightarrow> False))"

lemma all_h2_no_events: "all_h2 r \<Longrightarrow> snd (negotiator_run r) = []"
  by (auto simp: all_h2_def negotiator_run_def split: option.splits outcome.splits)

lemma sys_count_other [simp]:
  "sy_open (sys_count i s) = sy_open s" "sy_listening (sys_count i s) = sy_listening s"
  "sy_queue (sys_count i s) = sy_queue s" "sy_listener_queue (sys_count i s) = sy_listener_queue s"
  "sy_counter (sys_count i s) = counter_receive i (sy_counter s)"
  by (simp_all add: sys_count_def counter_turn_def Let_def)

lemma sys_step_inv:
  assumes "sys_step all_h2 s s'" "sys_inv n s" "n < U128_MAX"
  shows "sys_inv (Suc n) s'"
  using assms(1)
proof cases
  case (negotiated r spawn events)
  with all_h2_no_events [of r] assms(2) show ?thesis by (simp add: sys_inv_def)
next
  case (count_listener e q)
  with settled_count [of "listener_counter (sy_counter s)" e q] count_grows [of e "listener_counter (sy_counter s)"] assms(2,3)
  show ?thesis by (simp add: sys_inv_def)
next
  case (count_connection e q)
  with settled_count [of "connection_counter (sy_counter s)" e q] count_grows [of e "connection_counter (sy_counter s)"] assms(2,3)
  show ?thesis by (simp add: sys_inv_def)
qed (use assms(2) in \<open>simp_all add: sys_inv_def settled_append\<close>)

lemma sys_reach_inv: "sys_reach all_h2 n s \<Longrightarrow> n \<le> U128_MAX \<Longrightarrow> sys_inv n s"
proof (induction rule: sys_reach.induct)
  case start
  then show ?case by (simp add: sys_inv_def sys_start_def counter_new_def)
next
  case (step n s s')
  then show ?case by (intro sys_step_inv [OF step(2)]) simp_all
qed

lemma completes_at_zero:
  assumes "sys_step results s s'" "\<not> sy_complete s" "sy_complete s'"
  shows "connection_counter (sy_counter s') = 0 \<and> listener_counter (sy_counter s') = 0"
  using assms by cases (auto simp: sys_count_def counter_turn_def Let_def)

text \<open>
  C22. The graceful shutdown. When every negotiation agrees on HTTP/2 (or no listener negotiates),
  the shutdown is reported as complete only when the listeners and connections that are still open
  are balanced by events the counter task has not received yet: with empty channels none is open.
\<close>

theorem graceful_shutdown_waits:
  assumes "sys_reach all_h2 n s" "n < U128_MAX" "sys_step all_h2 s s'" "\<not> sy_complete s" "sy_complete s'"
  shows "sy_open s' + count_list (sy_queue s') Closed = count_list (sy_queue s') Opened \<and>
    sy_listening s' + count_list (sy_listener_queue s') Closed = count_list (sy_listener_queue s') Opened"
proof -
  have "sys_inv (Suc n) s'"
    using sys_step_inv [OF assms(3) sys_reach_inv [OF assms(1)] assms(2)] assms(2) by simp
  with completes_at_zero [OF assms(3-5)] show ?thesis
    by (auto simp: sys_inv_def dest!: settled_balance)
qed


theorem graceful_shutdown_waits_witness:
  "\<exists>s s'. sys_step all_h2 s s' \<and> sy_complete s' \<and>
     sy_open s' + count_list (sy_queue s') Closed = count_list (sy_queue s') Opened \<and>
     sy_listening s' + count_list (sy_listener_queue s') Closed = count_list (sy_listener_queue s') Opened"
proof -
  let ?s = "sys_start\<lparr>sy_listening := 1, sy_listener_queue := [Opened]\<rparr>"
  let ?t = "sys_count Shutdown_Changed ?s"
  have reach: "sys_reach all_h2 1 ?s"
    using sys_reach.step [OF sys_reach.start sys_step.listen, of all_h2] by (simp add: sys_start_def)
  have step: "sys_step all_h2 ?s ?t"
    by (rule sys_step.shutdown) (simp add: sys_start_def)
  moreover have before: "\<not> sy_complete ?s" and complete: "sy_complete ?t"
    by (simp_all add: sys_start_def sys_count_def counter_turn_def counter_new_def)
  moreover have "1 < U128_MAX" by (simp add: U128_MAX_def)
  ultimately show ?thesis
    using graceful_shutdown_waits [OF reach _ step before complete] by blast
qed

lemmas sys_compute = sys_start_def sys_count_def counter_turn_def counter_new_def counter_add_def counter_sub_def U128_MAX_def

text \<open>
  C23. A connection that negotiates anything but HTTP/2 is dropped and reported as closed although it
  was never reported as open: the counter then misses a connection that is open, and the shutdown is
  complete with that connection open and every event received.
\<close>

theorem foreign_protocol_counted_off:
  "\<exists>n s. sys_reach (\<lambda>_ :: ('addr, 'cred) negotiated. True) n s \<and> sy_complete s \<and> sy_open s = 1 \<and> sy_queue s = [] \<and> sy_listener_queue s = []"
proof -
  let ?any = "\<lambda>_ :: ('addr, 'cred) negotiated. True" and ?h2 = "Some (Ok (Some (connection_info_default\<lparr>alpn_protocol := Some ''h2''\<rparr>)))"
    and ?h1 = "Some (Ok (Some (connection_info_default\<lparr>alpn_protocol := Some ''http/1.1''\<rparr>)))"
  let ?open = "\<lambda>q n done. sys_start\<lparr>sy_open := 1, sy_queue := q,
      sy_counter := counter_new\<lparr>connection_counter := n, ct_shutdown := done\<rparr>, sy_complete := done\<rparr>"
  have "sys_step ?any sys_start (sys_start\<lparr>sy_pending := 1\<rparr>)"
    using sys_step.negotiated [of ?any ?h2 Spawn_H2 "[]" sys_start]
    by (simp add: negotiator_run_def is_h2_def sys_compute)
  moreover have "sys_step ?any (sys_start\<lparr>sy_pending := 1\<rparr>) (?open [Opened] 0 False)"
    using sys_step.run [of "sys_start\<lparr>sy_pending := 1\<rparr>" ?any] by (simp add: sys_compute)
  moreover have "sys_step ?any (?open [Opened] 0 False) (?open [Opened, Closed] 0 False)"
    using sys_step.negotiated [of ?any ?h1 Spawn_Nothing "[Closed]" "?open [Opened] 0 False"]
    by (simp add: negotiator_run_def is_h2_def sys_compute)
  moreover have "sys_step ?any (?open [Opened, Closed] 0 False) (?open [Closed] 1 False)"
    using sys_step.count_connection [of "?open [Opened, Closed] 0 False" Opened "[Closed]" ?any]
    by (simp add: sys_compute)
  moreover have "sys_step ?any (?open [Closed] 1 False) (?open [] 0 False)"
    using sys_step.count_connection [of "?open [Closed] 1 False" Closed "[]" ?any]
    by (simp add: sys_compute)
  moreover have "sys_step ?any (?open [] 0 False) (?open [] 0 True)"
    using sys_step.shutdown [of "?open [] 0 False" ?any] by (simp add: sys_compute)
  ultimately obtain n where "sys_reach ?any n (?open [] 0 True)"
    using sys_reach.start sys_reach.step by metis
  then show ?thesis
    by (intro exI [of _ n] exI [of _ "?open [] 0 True"]) (simp add: sys_start_def)
qed

end
