(* ===== verification/H1_Safety.thy ===== *)
theory H1_Safety
  imports H1_Conn
begin

text \<open>
  What holds of an HTTP/1 connection whatever the peer sends and whatever the handler does: reading
  a request head never panics, serving a read of the body never panics, and the connection's buffer
  stays well formed. The socket is any reader that does not panic and reports at most what it was
  asked for.
\<close>

section \<open>The buffer\<close>

definition reader_sound :: "'r reader \<Rightarrow> bool" where
  "reader_sound rd \<longleftrightarrow> reader_bounded rd \<and> (\<forall>n r. fst (rd n r) \<noteq> Panic)"

text \<open>A buffer of a connection: well formed, and of the configured size.\<close>

definition sized_buffer :: "nat \<Rightarrow> buffer \<Rightarrow> bool" where
  "sized_buffer cap b \<longleftrightarrow> buffer_inv b \<and> buffer_capacity b = cap"

lemma sized_progress [simp]: "sized_buffer cap b \<Longrightarrow> sized_buffer cap (progress n b)"
  by (simp add: sized_buffer_def progress_ops)

lemma sized_read:
  assumes "reader_sound rd" "sized_buffer cap b" "read_from_reader rd b r = (res, b', r')"
  shows "res \<noteq> Panic" "sized_buffer cap b'" "\<And>n. res = Ok n \<Longrightarrow> available_for_read b' = available_for_read b + n"
proof -
  have inv: "buffer_inv b" and cap: "buffer_capacity b = cap" and rd: "reader_bounded rd" "\<And>n r. fst (rd n r) \<noteq> Panic"
    using assms(1,2) by (simp_all add: sized_buffer_def reader_sound_def)
  note rot = rotate_buffer_ops [OF inv]
  have free: "as_mut_len (rotate_buffer b) = cap - length (view b)"
    using as_mut_len_eq [OF rot(1)] rot(2,3) cap by simp
  obtain out r1 where read: "rd (cap - length (view b)) r = (out, r1)" by fastforce
  have "res \<noteq> Panic \<and> sized_buffer cap b'"
  proof (cases out)
    case (Ok bs)
    obtain b1 where "read_from_reader rd b r = (Ok (length bs), b1, r1)" "buffer_inv b1" "buffer_capacity b1 = cap"
      by (rule read_from_reader_Ok [OF inv rd(1)]) (use read Ok cap in auto)
    with assms(3) show ?thesis by (auto simp: sized_buffer_def)
  next
    case (Err e)
    with assms(3) read free rot(1,3) cap show ?thesis
      by (auto simp: sized_buffer_def read_from_reader_def Let_def)
  next
    case Panic
    with rd(2) [of "cap - length (view b)" r] read show ?thesis by simp
  qed
  then show "res \<noteq> Panic" "sized_buffer cap b'" by simp_all
  show "available_for_read b' = available_for_read b + n" if "res = Ok n" for n
    using read_from_reader_grows [of rd b r n b' r'] assms(3) that by simp
qed

section \<open>Reading a head\<close>

lemma start_line_no_panic: "start_line_loop buf i \<noteq> Panic"
  by (induction buf i rule: start_line_loop.induct) (subst start_line_loop.simps, simp)

lemma header_end_no_panic: "header_end_loop buf i \<noteq> Panic"
  by (induction buf i rule: header_end_loop.induct) (subst header_end_loop.simps, simp)

lemma header_end_before: "header_end_loop buf i = Ok (Some n) \<Longrightarrow> n < length buf"
proof (induction buf i rule: header_end_loop.induct)
  case (1 buf i)
  then show ?case by (subst (asm) (2) header_end_loop.simps) (auto split: if_splits)
qed

lemma lws_end_no_panic: "find_lws_end buf \<noteq> Panic"
  by (simp add: find_lws_end_def)

lemma multi_lws_no_panic: "multi_lws_loop buf i \<noteq> Panic"
proof (induction buf i rule: multi_lws_loop.induct)
  case (1 buf i)
  then show ?case
    by (subst multi_lws_loop.simps) (use lws_end_no_panic [of "drop i buf"] in \<open>auto split: outcome.split option.split\<close>)
qed

lemma header_value_no_panic: "header_value_loop to_value buf i vs \<noteq> Panic"
proof (induction to_value buf i vs rule: header_value_loop.induct)
  case (1 to_value buf i vs)
  have "find_text_end (drop i buf) \<noteq> Panic" "find_multi_lws_end (drop i buf) \<noteq> Panic"
    by (simp_all add: find_text_end_def find_multi_lws_end_def multi_lws_no_panic)
  with 1 show ?case
    by (subst header_value_loop.simps) (auto split: outcome.split option.split)
qed

lemma obind_Panic: "obind m k = Panic \<longleftrightarrow> m = Panic \<or> (\<exists>a. m = Ok a \<and> k a = Panic)"
  by (cases m) simp_all

lemma parse_header_no_panic: "parse_request_header_new to_name to_value buf \<noteq> Panic"
  by (auto simp: parse_request_header_new_def find_token_end_def find_multi_lws_end_def multi_lws_no_panic
      header_value_no_panic obind_Panic split: option.splits)

lemma parse_start_line_no_panic: "parse_start_line2 from_bytes try_from buf \<noteq> Panic"
  by (auto simp: parse_start_line2_def find_next_sp_def Let_def obind_Panic split: option.splits)


text \<open>One look at a buffer that is not empty; a line that ends leaves something for the next look.\<close>

lemma header_step_sound:
  assumes "buf \<noteq> []"
  shows "header_step C m buf \<noteq> Panic" "header_step C m buf = Ok (Head_Line idx new) \<Longrightarrow> idx < length buf"
proof -
  have "find_header_end buf \<noteq> Panic" by (simp add: find_header_end_def header_end_no_panic)
  with assms show "header_step C m buf \<noteq> Panic"
    by (auto simp: header_step_def obind_Panic parse_header_no_panic split: option.splits prod.splits if_splits)
  show "idx < length buf" if "header_step C m buf = Ok (Head_Line idx new)"
    using assms that header_end_before [of buf 1 idx]
    by (auto simp: header_step_def find_header_end_def split: option.splits prod.splits if_splits)
qed

lemma headers_read_sound:
  assumes "headers_read rd C m hs s = Some out"
    and "reader_sound rd" "sized_buffer cap (fst s)" "0 < available_for_read (fst s)"
  shows "fst out \<noteq> Panic \<and> sized_buffer cap (fst (snd out))"
proof -
  have "reader_sound rd \<longrightarrow> sized_buffer cap (fst s) \<longrightarrow> 0 < available_for_read (fst s) \<longrightarrow>
    fst out \<noteq> Panic \<and> sized_buffer cap (fst (snd out))"
  proof (rule headers_read.raw_induct [where P = "\<lambda>rd C m hs s out. reader_sound rd \<longrightarrow> sized_buffer cap (fst s) \<longrightarrow>
      0 < available_for_read (fst s) \<longrightarrow> fst out \<noteq> Panic \<and> sized_buffer cap (fst (snd out))", OF _ assms(1)], goal_cases)
    case (1 F rd C m hs s out)
    show ?case
    proof (intro impI)
      assume rd: "reader_sound rd" and sized: "sized_buffer cap (fst s)" and some: "0 < available_for_read (fst s)"
      obtain b r where s: "s = (b, r)" by fastforce
      have inv: "buffer_inv b" using sized s by (simp add: sized_buffer_def)
      have ref: "(as_ref b :: byte list io) = Ok (view b)" and len: "available_for_read b = length (view b)"
        using as_ref_view [OF inv] length_view [OF inv] by simp_all
      have buf: "view b \<noteq> []" using some len s by auto
      note step = 1(2) ref s
      show "fst out \<noteq> Panic \<and> sized_buffer cap (fst (snd out))"
      proof (cases "header_step C m (view b)")
        case (Err e)
        with step sized s show ?thesis by auto
      next
        case Panic
        with header_step_sound(1) [OF buf] show ?thesis by blast
      next
        case (Ok x)
        show ?thesis
        proof (cases x)
          case Head_End
          with step Ok sized s show ?thesis by auto
        next
          case (Head_Line idx new)
          then have "idx < length (view b)" using header_step_sound(2) [OF buf] Ok by blast
          then have "0 < available_for_read (progress idx b)"
            using progress_ops [OF inv, of idx] length_view [of "progress idx b"] by simp
          with 1(1) step Ok Head_Line rd sized s show ?thesis by fastforce
        next
          case Head_More
          obtain res b' r' where read: "read_from_reader rd b r = (res, b', r')" by (cases "read_from_reader rd b r")
          note sound = sized_read [OF rd _ read, of cap]
          show ?thesis
          proof (cases res)
            case (Ok n)
            show ?thesis
            proof (cases "n = 0")
              case True
              with step \<open>header_step C m (view b) = outcome.Ok x\<close> Head_More read Ok sound(2) sized s show ?thesis
                by (auto simp: eof_error_def)
            next
              case False
              with step \<open>header_step C m (view b) = outcome.Ok x\<close> Head_More read Ok have "F rd C m hs (b', r') = Some out"
                by simp
              with 1(1) rd sound sized s Ok False show ?thesis by fastforce
            qed
          next
            case (Err e)
            with step \<open>header_step C m (view b) = outcome.Ok x\<close> Head_More read sound(2) sized s show ?thesis by auto
          next
            case Panic
            with sound(1) sized s show ?thesis by simp
          qed
        qed
      qed
    qed
  qed
  with assms(2-4) show ?thesis by simp
qed


lemma start_line_read_sound:
  assumes rd: "reader_sound rd"
  shows "sized_buffer cap b \<Longrightarrow> start_line_read rd (b, r) = (res, s') \<Longrightarrow> res \<noteq> Panic \<and> sized_buffer cap (fst s')"
  using rd
proof (induction rd "(b, r)" arbitrary: b r rule: start_line_read.induct)
  case (1 rd b r)
  have inv: "buffer_inv b" using 1(2) by (simp add: sized_buffer_def)
  have ref: "(as_ref b :: byte list io) = Ok (view b)" using as_ref_view [OF inv] by simp
  note step = 1(3) [unfolded start_line_read.simps [of rd b r]] ref
  show ?case
  proof (cases "find_start_line_end (view b)")
    case (Err e)
    with step 1(2) show ?thesis by auto
  next
    case Panic
    then show ?thesis by (auto simp: find_start_line_end_def start_line_no_panic split: if_splits)
  next
    case (Ok x)
    obtain res1 b1 r1 where read: "read_from_reader rd b r = (res1, b1, r1)" by (cases "read_from_reader rd b r")
    note sound = sized_read [OF 1(4,2) read]
    show ?thesis
    proof (cases x)
      case (Some idx)
      with step Ok 1(2) show ?thesis by auto
    next
      case None
      have "res \<noteq> Panic \<and> sized_buffer cap (fst s')" if "res1 = outcome.Ok n" "n \<noteq> 0" "start_line_read rd (b1, r1) = (res, s')" for n
        using 1(1) that sound(2) 1(4) ref Ok None read by simp
      with sound step Ok None read show ?thesis
        by (cases res1) (auto simp: eof_error_def split: if_splits)
    qed
  qed
qed

lemma read_start_line_sound:
  assumes "reader_sound rd" "sized_buffer cap b" "read_start_line rd C (b, r) = (res, (b', r'))"
  shows "res \<noteq> Panic \<and> sized_buffer cap b' \<and> (is_ok res \<longrightarrow> 0 < available_for_read b')"
proof -
  obtain res1 b1 r1 where first: "start_line_read rd (b, r) = (res1, (b1, r1))" by (cases "start_line_read rd (b, r)") auto
  have b1: "res1 \<noteq> Panic" "sized_buffer cap b1"
    using start_line_read_sound [OF assms(1,2) first] by simp_all
  then have ref: "(as_ref b1 :: byte list io) = Ok (view b1)"
    using as_ref_view [of b1] by (simp add: sized_buffer_def)
  show ?thesis
  proof (cases res1)
    case (Ok idx)
    let ?b = "progress idx b1"
    obtain res2 b2 r2 where more: "read_from_reader rd ?b r1 = (res2, b2, r2)" by (cases "read_from_reader rd ?b r1")
    note sound = sized_read [OF assms(1) sized_progress [OF b1(2)] more]
    show ?thesis
      using assms(3) first Ok ref more sound b1 parse_start_line_no_panic [of "c_method C" "c_uri C" "take idx (view b1)"]
      by (cases res2; cases "parse_start_line2 (c_method C) (c_uri C) (take idx (view b1))") (auto simp: read_start_line_def sbind_def read_some_more_def sret_def eof_error_def
          split: outcome.splits if_splits)
  qed (use assms(3) first b1 in \<open>auto simp: read_start_line_def sbind_def\<close>)
qed

text \<open>Reading a request head: for every input it ends without a panic, if it ends.\<close>

lemma request_head_sound:
  assumes "reader_sound rd" "sized_buffer cap b" "read_request_inner rd C line_max (b, r) = Some (res, (b', r'))"
  shows "res \<noteq> Panic \<and> sized_buffer cap b'"
proof -
  obtain line b1 r1 where line: "read_start_line rd C (b, r) = (line, (b1, r1))" by (cases "read_start_line rd C (b, r)") auto
  note b1 = read_start_line_sound [OF assms(1,2) line]
  show ?thesis
  proof (cases line)
    case (Ok x)
    obtain m u v where x: "x = (m, u, v)" by (cases x) auto
    obtain out where out: "headers_read rd C line_max [] (b1, r1) = Some out"
      "res = omap (\<lambda>hs. \<lparr>rq_method = m, rq_uri = u, rq_version = v, rq_headers = hs\<rparr>) (fst out)" "(b', r') = snd out"
      using assms(3) line Ok x by (auto simp: read_request_inner_def)
    from headers_read_sound [OF out(1) assms(1), of cap] b1 Ok out(2,3) show ?thesis
      by (cases "fst out") (auto simp: prod_eq_iff)
  qed (use assms(3) line b1 in \<open>auto simp: read_request_inner_def\<close>)
qed

section \<open>Serving the body\<close>

text \<open>The parameters of a connection do not panic; its buffer is well formed and of the configured size.\<close>

definition served_sound :: "nat \<Rightarrow> served \<times> ('r, 'w) h1_conn \<Rightarrow> bool" where
  "served_sound cap out \<longleftrightarrow> (case out of (answer, c) \<Rightarrow> sized_buffer cap (hc_buffer c) \<and>
     (case answer of Sent (Ok b) \<Rightarrow> buffer_inv b | Stop (Some (Ok b)) \<Rightarrow> buffer_inv b
      | Sent Panic \<Rightarrow> False | Stop (Some Panic) \<Rightarrow> False | Crash \<Rightarrow> False | _ \<Rightarrow> True))"

lemma hand_over_sound:
  assumes "buffer_inv b" "sized_buffer cap (hc_buffer c)"
  shows "served_sound cap (hand_over b n c)"
proof -
  have inv: "buffer_inv (hc_buffer c)" using assms(2) by (simp add: sized_buffer_def)
  show ?thesis
    using buffer_write_ops [OF assms(1), of "view (hc_buffer c)"] buffer_write_ops [OF assms(1), of "take n (view (hc_buffer c))"]
      assms(2) by (auto simp: served_sound_def hand_over_def as_ref_view [OF inv])
qed

lemma read_chunk_for_sound:
  assumes "reader_sound rd" "buffer_inv b" "sized_buffer cap (hc_buffer c)"
  shows "served_sound cap (read_chunk_for rd b n c)"
proof -
  obtain res b1 r1 where read: "read_from_reader rd (hc_buffer c) (hc_reader c) = (res, b1, r1)"
    by (cases "read_from_reader rd (hc_buffer c) (hc_reader c)")
  note sound = sized_read [OF assms(1,3) read]
  have "served_sound cap (hand_over b n (c\<lparr>hc_buffer := b1, hc_reader := r1\<rparr>))"
    by (rule hand_over_sound [OF assms(2)]) (simp add: sound(2))
  with sound read show ?thesis
    by (cases res) (auto simp: read_chunk_for_def Let_def served_sound_def)
qed

lemma serve_read_sound:
  assumes "reader_sound rd" "buffer_inv b" "sized_buffer cap (hc_buffer c)"
  shows "served_sound cap (serve_read rd b n c)"
proof -
  have inv: "buffer_inv (hc_buffer c)" using assms(3) by (simp add: sized_buffer_def)
  have "served_sound cap (read_chunk_for rd b' m (c\<lparr>hc_buffer := progress k (hc_buffer c)\<rparr>))" if "buffer_inv b'" for b' m k
    by (rule read_chunk_for_sound [OF assms(1) that]) (simp add: assms(3))
  with read_chunk_for_sound [OF assms, of n] buffer_write_ops [OF assms(2), of "view (hc_buffer c)"]
    buffer_write_ops [OF assms(2), of "take n (view (hc_buffer c))"] assms(3) show ?thesis
    by (auto simp: serve_read_def Let_def as_ref_view [OF inv]) (auto simp: served_sound_def)
qed

lemma handle_background_read_req_sound:
  assumes "reader_sound rd" "buffer_inv b" "sized_buffer cap (hc_buffer c)"
  shows "served_sound cap (handle_background_read_req C rd wr fl version b n c)"
  using serve_read_sound [OF assms(1) rotate_buffer_ops(1) [OF assms(2)]] assms(3)
  by (auto simp: handle_background_read_req_def Let_def split: prod.split outcome.split) (auto simp: served_sound_def)


section \<open>The handler's side\<close>

text \<open>The readers of bodies change the state below them only by polling it.\<close>

lemma keeps_limit:
  assumes "\<And>n. keeps P (rd n)"
  shows "keeps (\<lambda>l. P (lr_reader l)) (limit_poll_read rd n)"
proof -
  have "keeps (\<lambda>l. P (lr_reader l)) (limit_count rd m)" for m
    using assms [of m] by (fastforce simp: keeps_def limit_count_def split: prod.split poll.split outcome.split)
  then show ?thesis by (auto simp: keeps_def limit_poll_read_def Let_def)
qed

lemma keeps_pbind: "keeps P m \<Longrightarrow> (\<And>a. keeps P (k a)) \<Longrightarrow> keeps P (pbind m k)"
  by (fastforce simp: keeps_def pbind_def split: prod.split poll.split outcome.split)

lemma keeps_read_to_buffer:
  assumes "\<And>n. keeps P (rd n)"
  shows "keeps (\<lambda>c. P (cr_reader c)) (read_to_buffer rd)"
  using assms [of 1] by (fastforce simp: keeps_def read_to_buffer_def Let_def split: prod.split poll.split outcome.split)

lemma keeps_read_data:
  assumes "\<And>n. keeps P (rd n)"
  shows "keeps (\<lambda>c. P (cr_reader c)) (read_data rd n)"
proof (rule keepsI)
  fix c :: "'a chunked_reader" assume "P (cr_reader c)"
  then have "P (snd (rd m (cr_reader c)))" for m using keepsD [OF assms] by blast
  then show "P (cr_reader (snd (read_data rd n c)))"
    using \<open>P (cr_reader c)\<close>
    by (auto simp: read_data_def Let_def split: prod.split poll.split outcome.split) (metis snd_conv)+
qed

lemma keeps_header_loop:
  assumes "\<And>n. keeps P (rd n)"
  shows "P (cr_reader c) \<Longrightarrow> P (cr_reader (snd (header_loop rd c)))"
  using assms
proof (induction rd c rule: header_loop.induct)
  case (1 rd c)
  obtain res c' where more: "read_to_buffer rd c = (res, c')" by fastforce
  have "P (cr_reader c')"
    using keepsD [OF keeps_read_to_buffer [where rd = rd and P = P, OF 1(3)] 1(2)] more by simp
  moreover have "P (cr_reader (snd (header_loop rd c')))"
    if "(as_ref (cr_buffer c) :: byte list io) = Ok bs" "find_chunk_header_end bs = Ok None" "res = Ready (Ok u)" for bs u
    using 1 that more \<open>P (cr_reader c')\<close> by simp
  ultimately show ?case
    using 1(2) more by (subst header_loop.simps) (simp split: poll.split outcome.split option.split)
qed

lemma keeps_crlf_loop:
  assumes "\<And>n. keeps P (rd n)"
  shows "P (cr_reader c) \<Longrightarrow> P (cr_reader (snd (crlf_loop rd c)))"
  using assms
proof (induction rd c rule: crlf_loop.induct)
  case (1 rd c)
  obtain res c' where more: "read_to_buffer rd c = (res, c')" by fastforce
  have "P (cr_reader c')"
    using keepsD [OF keeps_read_to_buffer [where rd = rd and P = P, OF 1(3)] 1(2)] more by simp
  moreover have "P (cr_reader (snd (crlf_loop rd c')))"
    if "(as_ref (cr_buffer c) :: byte list io) = Ok bs" "length bs < 2" "res = Ready (Ok u)" for bs u
    using 1 that more \<open>P (cr_reader c')\<close> by simp
  ultimately show ?case
    using 1(2) more by (subst crlf_loop.simps) (simp split: poll.split outcome.split)
qed

lemma keeps_chunked:
  assumes rd: "\<And>n. keeps P (rd n)"
  shows "keeps (\<lambda>c. P (cr_reader c)) (chunked_poll_read p rd n)"
proof -
  note data = keepsD [OF keeps_read_data [OF rd]]
  have crlf: "keeps (\<lambda>c. P (cr_reader c)) (crlf_loop rd)" and hdr: "keeps (\<lambda>c. P (cr_reader c)) (header_loop rd)"
    using keeps_crlf_loop [OF rd] keeps_header_loop [OF rd] by (simp_all add: keeps_def)
  have last: "keeps (\<lambda>c. P (cr_reader c)) (read_terminating_crlf rd)"
    using keepsD [OF keeps_pbind [OF crlf, of "\<lambda>bs. pret (if bs ! 0 = CR \<and> bs ! 1 = NL then Ok []
        else Err (IoError InvalidData ''Chunked body did not end with a CRNL.''))"]]
    by (auto simp: keeps_def read_terminating_crlf_def)
  have "keeps (\<lambda>c. P (cr_reader c)) (\<lambda>c. case obind (as_ref (cr_buffer c)) (\<lambda>bs. parse_chunk_header p (take idx bs)) of
          Ok sz \<Rightarrow>
            let c' = c\<lparr>cr_buffer := progress idx (cr_buffer c), cr_chunk_size := unat sz, cr_chunk_count := 0\<rparr> in
            if sz > 0 then read_data rd n (c'\<lparr>cr_status := ReadingChunk\<rparr>)
            else read_terminating_crlf rd (c'\<lparr>cr_status := Done\<rparr>)
        | Err e \<Rightarrow> (Ready (Err e), c)
        | Panic \<Rightarrow> (Ready Panic, c))" for idx
    by (rule keepsI) (auto simp: Let_def intro!: data keepsD [OF last] split: outcome.split)
  from keeps_pbind [OF hdr this] have header: "keeps (\<lambda>c. P (cr_reader c)) (read_chunk_header p rd n)"
    by (simp add: keeps_def read_chunk_header_def)
  have "keeps (\<lambda>c. P (cr_reader c)) (\<lambda>c.
      if bs ! 0 = CR \<and> bs ! 1 = NL
      then read_chunk_header p rd n (c\<lparr>cr_buffer := progress 2 (cr_buffer c), cr_status := WaitingForChunk\<rparr>)
      else (Ready (Err (IoError InvalidData ''Chunk data did not end with a CRNL.'')), c))" for bs
    by (rule keepsI) (auto intro!: keepsD [OF header])
  from keepsD [OF keeps_pbind [OF crlf this]] have "keeps (\<lambda>c. P (cr_reader c)) (read_chunk_data p rd n)"
    by (auto simp: keeps_def read_chunk_data_def intro!: data split: outcome.split)
  with last header show ?thesis
    by (simp add: keeps_def chunked_poll_read_def split: chunked_status.split)
qed

lemma keeps_body:
  assumes "\<And>n. keeps P (rd n)"
  shows "keeps (\<lambda>b. P (body_state b)) (body_poll_read p rd n)"
proof (rule keepsI)
  fix b assume P: "P (body_state b)"
  show "P (body_state (snd (body_poll_read p rd n b)))"
  proof (cases b)
    case (Fixed_Body l)
    with P keepsD [OF keeps_limit [where rd = rd and P = P, OF assms], of l n] show ?thesis
      by (cases "limit_poll_read rd n l") simp
  next
    case (Chunked_Body c)
    with P keepsD [OF keeps_chunked [where rd = rd and P = P, OF assms], of c p n] show ?thesis
      by (cases "chunked_poll_read p rd n c") simp
  qed (use P in simp)
qed


text \<open>Both sides of the channel: every buffer on its way is well formed, and so is the connection's.\<close>

definition lent_sound :: "nat \<Rightarrow> bg_read \<times> ('r, 'w) bg_conn \<Rightarrow> bool" where
  "lent_sound cap s \<longleftrightarrow> (case s of (g, c) \<Rightarrow>
     (\<forall>b. bg_buffer g = Some b \<longrightarrow> buffer_inv b) \<and> (\<forall>b n. bc_request c = Some (b, n) \<longrightarrow> buffer_inv b) \<and>
     sized_buffer cap (hc_buffer (bc_conn c)))"

text \<open>A request in the channel is served without a panic.\<close>

lemma request_served_sound:
  assumes "reader_sound rd" "lent_sound cap (g, c)" "bc_request c = Some (b, n)"
  shows "served_sound cap (handle_background_read_req C rd wr fl version b n (bc_conn c))"
  using assms by (auto simp: lent_sound_def intro: handle_background_read_req_sound)

lemma conn_recv_sound:
  assumes "reader_sound rd" "lent_sound cap (g, c)" "conn_recv C rd wr fl version c = (res, c')"
  shows "lent_sound cap (g, c')" "res = Ready (Some (Ok b')) \<Longrightarrow> buffer_inv b'" "res \<noteq> Ready (Some Panic)"
proof -
  have "lent_sound cap (g, c') \<and> (\<forall>b'. res = Ready (Some (Ok b')) \<longrightarrow> buffer_inv b') \<and> res \<noteq> Ready (Some Panic)"
  proof (cases "bc_request c")
    case None
    with assms show ?thesis by (auto simp: conn_recv_def)
  next
    case (Some bn)
    obtain b n where bn: "bn = (b, n)" by (cases bn)
    obtain answer h where served: "handle_background_read_req C rd wr fl version b n (bc_conn c) = (answer, h)"
      by fastforce
    have "served_sound cap (answer, h)"
      using request_served_sound [OF assms(1,2)] Some bn served by metis
    with assms(2,3) Some bn served show ?thesis
      by (cases answer) (auto simp: conn_recv_def Let_def served_sound_def lent_sound_def split: if_splits outcome.splits option.splits)
  qed
  then show "lent_sound cap (g, c')" "res = Ready (Some (Ok b')) \<Longrightarrow> buffer_inv b'" "res \<noteq> Ready (Some Panic)"
    by auto
qed

lemma hand_out_sound:
  assumes "buffer_inv b" "lent_sound cap (g, c)" "bg_hand_out n b g = (res, g')"
  shows "lent_sound cap (g', c)"
  using assms progress_ops(1) [OF assms(1)]
  by (auto simp: bg_hand_out_def Let_def as_ref_view lent_sound_def)

lemma lent_sound_receiver [simp]: "lent_sound cap (g\<lparr>bg_receiver := x\<rparr>, c) = lent_sound cap (g, c)"
  by (simp add: lent_sound_def)

text \<open>The answer that has come is handed out, or leaves the body without a buffer.\<close>

lemma answer_sound:
  assumes "reader_sound rd" "lent_sound cap (g, c)" "conn_recv C rd wr fl version c = (Ready (Some (Ok b)), c')"
    and "bg_hand_out n b (g\<lparr>bg_receiver := x\<rparr>) = (res, g')"
  shows "lent_sound cap (g', c')"
  using hand_out_sound [OF _ _ assms(4)] conn_recv_sound [OF assms(1-3)] by simp

lemma body_read_sound:
  assumes rd: "reader_sound rd"
  shows "keeps (lent_sound cap) (body_read C rd wr fl version n)"
proof (rule keepsI)
  fix s :: "bg_read \<times> ('a, 'b) bg_conn" assume s0: "lent_sound cap s"
  obtain g c where s: "s = (g, c)" by fastforce
  have sound: "lent_sound cap (g, c)" using s0 s by simp
  note recv = conn_recv_sound(1) [OF rd]
  show "lent_sound cap (snd (body_read C rd wr fl version n s))"
  proof (cases "bg_buffer g")
    case None
    with sound s recv [OF sound] answer_sound [OF rd sound] show ?thesis
      by (auto simp: bg_poll_read_def Let_def receiving_failed_def split: receiver.split prod.split poll.split option.split outcome.split)
  next
    case (Some b)
    then have b: "buffer_inv b" using sound by (simp add: lent_sound_def)
    let ?g = "g\<lparr>bg_buffer := None\<rparr>"
    have sent: "lent_sound cap (?g, c\<lparr>bc_request := Some (b, n)\<rparr>)" "lent_sound cap (?g, c)"
      using sound b by (simp_all add: lent_sound_def)
    from Some s hand_out_sound [OF b sound] sent recv [OF sent(1)] answer_sound [OF rd sent(1)] show ?thesis
      by (auto simp: bg_poll_read_def Let_def receiving_failed_def conn_send_def split: prod.split poll.split option.split outcome.split)
  qed
qed

lemma run_handler_sound:
  assumes "run_handler E version h body = Some (res, body')"
    and "reader_sound (ev_socket E)" "lent_sound cap (body_state body)"
  shows "lent_sound cap (body_state body')"
proof -
  have "reader_sound (ev_socket E) \<longrightarrow> lent_sound cap (body_state body) \<longrightarrow> lent_sound cap (body_state (snd (res, body')))"
  proof (rule run_handler.raw_induct [where P = "\<lambda>E version h body out. reader_sound (ev_socket E) \<longrightarrow>
      lent_sound cap (body_state body) \<longrightarrow> lent_sound cap (body_state (snd out))", OF _ assms(1)], goal_cases)
    case (1 F E version h body out)
    show ?case
    proof (intro impI)
      assume rd: "reader_sound (ev_socket E)" and body: "lent_sound cap (body_state body)"
      have read: "lent_sound cap (body_state b)" if "body_poll_read (ev_profile E)
          (body_read (ev_crate E) (ev_socket E) (ev_write E) (ev_flush E) version) n body = (x, b)" for n x b
      proof -
        note keeps_body [where P = "lent_sound cap" and rd = "body_read (ev_crate E) (ev_socket E) (ev_write E) (ev_flush E) version",
          OF body_read_sound [OF rd]]
        from keepsD [OF this body, of "ev_profile E" n] that show ?thesis by simp
      qed
      show "lent_sound cap (body_state (snd out))"
      proof (cases "bc_open (snd (body_state body))")
        case opened: True
        show ?thesis
        proof (cases "ev_act E h")
          case (Act_Read n)
          obtain x b where polled: "body_poll_read (ev_profile E)
              (body_read (ev_crate E) (ev_socket E) (ev_write E) (ev_flush E) version) n body = (x, b)" by fastforce
          have next_step: "\<exists>h'. F E version h' b = Some out"
            using 1(2) opened Act_Read polled by (cases x) auto
          with 1(1) rd read [OF polled] show ?thesis by blast
        qed (use 1(2) body opened in auto)
      qed (use 1(2) body in auto)
    qed
  qed
  with assms(2,3) show ?thesis by simp
qed

section \<open>The loop\<close>

lemma peek_request_sound:
  assumes "reader_sound rd" "sized_buffer cap (cn_buffer c)" "peek_request rd c = (go_on, c')"
  shows "sized_buffer cap (cn_buffer c')"
  using assms sized_read [OF assms(1,2)]
  by (auto simp: peek_request_def peek_request_inner_def split: if_splits prod.splits outcome.splits)

lemma read_request_sound:
  assumes "reader_sound (ev_socket E)" "sized_buffer cap (cn_buffer c)" "read_request E c = (req, c')"
  shows "sized_buffer cap (cn_buffer c')"
  using assms
  by (auto simp: read_request_def split: option.splits prod.splits outcome.splits dest: request_head_sound [OF assms(1,2)])

lemma serve_turn_sound:
  fixes E :: "('m, 'u, 'n, 'v, 'r, 'w, 'b, 'h) h1_env"
  assumes rd: "reader_sound (ev_socket E)" and c: "sized_buffer cap (cn_buffer c)"
    and turn: "serve_turn E c = Some (go_on, c')"
  shows "sized_buffer cap (cn_buffer c')"
proof -
  obtain more c1 where peek: "peek_request (ev_socket E) c = (more, c1)" by fastforce
  have c1: "sized_buffer cap (cn_buffer c1)" by (rule peek_request_sound [OF rd c peek])
  obtain req c2 where read: "read_request E c1 = (req, c2)" by fastforce
  have c2: "sized_buffer cap (cn_buffer c2)" by (rule read_request_sound [OF rd c1 read])
  have made: "lent_sound cap (body_state body)" "sized_buffer cap (cn_buffer c3)"
    if "make_body cfg bt expects c2 = (body, c3)" for cfg bt expects body c3
    using that c2 by (cases bt; auto simp: make_body_def Let_def lent_sound_def lend_connection_def limit_new_def
      chunked_new_def chunked_new_with_buffer_def bg_new_def buffer_from_ops)+
  have returned: "sized_buffer cap (cn_buffer (take_back (snd (body_state body)) c3))" if "lent_sound cap (body_state body)"
    for body :: "('r, 'w) served_body" and c3 :: "('r, 'w) connection"
    using that by (auto simp: lent_sound_def take_back_def Let_def split: prod.splits)
  have after: "sized_buffer cap (cn_buffer c4)" if "after_handler E result c3 = (go_on, c4)" "sized_buffer cap (cn_buffer c3)"
    for result go_on and c3 c4 :: "('r, 'w) connection"
    using that by (auto simp: after_handler_def send_response_def split: option.splits handler_result.splits prod.splits outcome.splits)
  show ?thesis
    using turn peek c1 read c2
    by (auto simp: serve_turn_def split: if_splits option.splits prod.splits outcome.splits bool.splits)
      (meson made run_handler_sound [OF _ rd] returned after)
qed


section \<open>Properties\<close>


lemma bad_line: "find_start_line_end [CR, 65] = Err (IoError InvalidData ''The start line had a CR that was not followed by NL.'')"
  by (simp add: find_start_line_end_def start_line_loop.simps)

lemma bad_head: "read_request_inner rd C n (buffer_from [CR, 65], r) =
    Some (Err (IoError InvalidData ''The start line had a CR that was not followed by NL.''), (buffer_from [CR, 65], r))"
  by (simp add: read_request_inner_def read_start_line_def sbind_def start_line_read.simps as_ref_view buffer_from_ops bad_line)





end
