(* ===== verification/Ring_Buffer.thy ===== *)
theory Ring_Buffer
  imports Byte_Buffer
begin

text \<open>
  \<open>RingBuffer\<close> of \<open>src/src/buffer.rs\<close>, its slices and its iterator. A vector with two pointers that
  wrap at its end; \<open>ring_view\<close> is the queue of bytes it stands for. An empty vector makes the code
  divide by zero, slices out of range panic.
\<close>

section \<open>\<open>RingBuffer\<close>\<close>

record ring_buffer =
  rb_inner :: "byte list"
  rb_write :: nat
  rb_read :: nat

definition ring_from :: "byte list \<Rightarrow> ring_buffer" where
  "ring_from buf = \<lparr>rb_inner = buf, rb_write = 0, rb_read = 0\<rparr>"

definition ring_with_len :: "nat \<Rightarrow> ring_buffer" where
  "ring_with_len len = \<lparr>rb_inner = replicate len 0, rb_write = 0, rb_read = 0\<rparr>"

definition ring_reset :: "ring_buffer \<Rightarrow> ring_buffer" where
  "ring_reset b = b\<lparr>rb_write := 0, rb_read := 0\<rparr>"

text \<open>\<open>Vec::resize\<close> cuts the vector or fills it up with zeros.\<close>

definition ring_resize :: "nat \<Rightarrow> ring_buffer \<Rightarrow> ring_buffer" where
  "ring_resize len b =
     ring_reset (b\<lparr>rb_inner := take len (rb_inner b) @ replicate (len - length (rb_inner b)) 0\<rparr>)"

definition ring_available_for_read :: "ring_buffer \<Rightarrow> nat" where
  "ring_available_for_read b =
     (if rb_write b \<ge> rb_read b then rb_write b - rb_read b
      else length (rb_inner b) - rb_read b + rb_write b)"

definition ring_available_for_write :: "ring_buffer \<Rightarrow> nat" where
  "ring_available_for_write b =
     (if rb_write b \<ge> rb_read b then length (rb_inner b) - rb_write b + rb_read b
      else rb_read b - rb_write b)"

definition ring_get :: "nat \<Rightarrow> ring_buffer \<Rightarrow> byte option" where
  "ring_get idx b =
     (let idx' =
        (if rb_write b \<ge> rb_read b
         then if idx \<ge> rb_write b - rb_read b then None else Some (rb_read b + idx)
         else
           let available1 = length (rb_inner b) - rb_read b in
           if available1 > idx then Some (rb_read b + idx)
           else if available1 + rb_write b > idx then Some (idx - available1)
           else None) in
      case idx' of
        None \<Rightarrow> None
      | Some i \<Rightarrow> if i < length (rb_inner b) then Some (rb_inner b ! i) else None)"

text \<open>\<open>Index::index\<close>, with its \<open>unwrap\<close>.\<close>

definition ring_index :: "nat \<Rightarrow> ring_buffer \<Rightarrow> byte io" where
  "ring_index idx b = (case ring_get idx b of Some x \<Rightarrow> Ok x | None \<Rightarrow> Panic)"

definition ring_to_vec :: "ring_buffer \<Rightarrow> byte list io" where
  "ring_to_vec b =
     (if rb_write b \<ge> rb_read b then slice (rb_read b) (rb_write b) (rb_inner b)
      else
        obind (slice (rb_read b) (length (rb_inner b)) (rb_inner b)) (\<lambda>part1.
        obind (slice 0 (rb_write b) (rb_inner b)) (\<lambda>part2. Ok (part1 @ part2))))"

definition ring_progress_read :: "nat \<Rightarrow> ring_buffer \<Rightarrow> ring_buffer io" where
  "ring_progress_read amount b =
     (if rb_inner b = [] then Panic
      else Ok (b\<lparr>rb_read := (rb_read b + amount) mod length (rb_inner b)\<rparr>))"

definition ring_progress_write :: "nat \<Rightarrow> ring_buffer \<Rightarrow> ring_buffer io" where
  "ring_progress_write amount b =
     (if rb_inner b = [] then Panic
      else Ok (b\<lparr>rb_write := (rb_write b + amount) mod length (rb_inner b)\<rparr>))"

text \<open>The slice \<open>get_write_buf\<close> hands out, by its bounds.\<close>

definition get_write_buf :: "ring_buffer \<Rightarrow> nat \<times> nat" where
  "get_write_buf b =
     (if rb_write b \<ge> rb_read b then (rb_write b, length (rb_inner b)) else (rb_write b, rb_read b))"

text \<open>Up to \<open>n\<close> bytes of the front part go into the caller's slice, or its \<open>ReadBuf\<close>.\<close>

definition write_to_buf :: "nat \<Rightarrow> ring_buffer \<Rightarrow> (byte list \<times> ring_buffer) io" where
  "write_to_buf n b =
     (let available =
        (if rb_write b \<ge> rb_read b then rb_write b - rb_read b else length (rb_inner b) - rb_read b);
          amount = min available n in
      obind (slice (rb_read b) (rb_read b + amount) (rb_inner b)) (\<lambda>bs.
      obind (ring_progress_read amount b) (\<lambda>b'. Ok (bs, b'))))"

definition write_to_read_buf :: "nat \<Rightarrow> ring_buffer \<Rightarrow> (byte list \<times> ring_buffer) io" where
  "write_to_read_buf n b =
     (let amount =
        (if rb_write b \<ge> rb_read b then min (rb_write b - rb_read b) n
         else min (length (rb_inner b) - rb_read b) n) in
      obind (slice (rb_read b) (rb_read b + amount) (rb_inner b)) (\<lambda>bs.
      obind (ring_progress_read amount b) (\<lambda>b'. Ok (bs, b'))))"

definition write_from_buf :: "byte list \<Rightarrow> ring_buffer \<Rightarrow> (nat \<times> ring_buffer) io" where
  "write_from_buf buf b =
     (case get_write_buf b of (begin, stop) \<Rightarrow>
        obind (slice begin stop (rb_inner b)) (\<lambda>write_buf.
          let amount = min (length write_buf) (length buf) in
          Ok (amount, b\<lparr>rb_inner := overwrite begin (take amount buf) (rb_inner b)\<rparr>)))"

text \<open>\<open>Read::read\<close> and \<open>Write::write\<close>: the part up to the end of the vector, then the rest.\<close>

definition ring_read :: "nat \<Rightarrow> ring_buffer \<Rightarrow> (byte list \<times> ring_buffer) io" where
  "ring_read n b =
     obind (write_to_buf n b) (\<lambda>(bs, b').
       if length bs > 0 \<and> n > length bs
       then obind (write_to_buf (n - length bs) b') (\<lambda>(cs, b''). Ok (bs @ cs, b''))
       else Ok (bs, b'))"

definition ring_write :: "byte list \<Rightarrow> ring_buffer \<Rightarrow> (nat \<times> ring_buffer) io" where
  "ring_write buf b =
     obind (write_from_buf buf b) (\<lambda>(n, b').
       if n > 0 \<and> length buf > n
       then obind (write_from_buf (drop n buf) b') (\<lambda>(m, b''). Ok (n + m, b''))
       else Ok (n, b'))"

text \<open>One read of a reader into the free slice, as for \<open>Buffer\<close>.\<close>

definition ring_read_from_reader :: "'r reader \<Rightarrow> ring_buffer \<Rightarrow> 'r \<Rightarrow> nat io \<times> ring_buffer \<times> 'r" where
  "ring_read_from_reader rd b r =
     (case get_write_buf b of (begin, stop) \<Rightarrow>
        if begin > stop \<or> stop > length (rb_inner b) then (Panic, b, r)
        else case rd (stop - begin) r of
          (Ok bs, r') \<Rightarrow>
            if length bs > stop - begin then (Panic, b, r')
            else
              let b' = b\<lparr>rb_inner := overwrite begin bs (rb_inner b)\<rparr> in
              (case ring_progress_write (length bs) b' of
                 Ok b'' \<Rightarrow> (Ok (length bs), b'', r')
               | _ \<Rightarrow> (Panic, b', r'))
        | (Err e, r') \<Rightarrow> (Err e, b, r')
        | (Panic, r') \<Rightarrow> (Panic, b, r'))"

text \<open>\<open>copy_from_reader\<close>: the same until the slice or the reader is empty; it need not return.\<close>

partial_function (option) copy_from_reader ::
    "'r reader \<Rightarrow> nat \<Rightarrow> ring_buffer \<times> 'r \<Rightarrow> (nat io \<times> (ring_buffer \<times> 'r)) option" where
  "copy_from_reader rd total_amount s =
     (case s of (b, r) \<Rightarrow>
        if fst (get_write_buf b) = snd (get_write_buf b) then Some (Ok total_amount, (b, r))
        else case ring_read_from_reader rd b r of
          (Ok amount, b', r') \<Rightarrow>
            if amount = 0 then Some (Ok total_amount, (b', r')) else copy_from_reader rd (total_amount + amount) (b', r')
        | (Err e, b', r') \<Rightarrow> Some (Err e, (b', r'))
        | (Panic, b', r') \<Rightarrow> Some (Panic, (b', r')))"

declare copy_from_reader.simps [code]

section \<open>Slices and the iterator\<close>

record ring_slice =
  sl_buffer :: ring_buffer
  sl_begin :: nat
  sl_end :: nat

text \<open>\<open>BufferSlice::slice\<close> is \<open>get_slice\<close>, of the buffer and of a slice.\<close>

definition ring_get_slice :: "nat \<Rightarrow> nat \<Rightarrow> ring_buffer \<Rightarrow> ring_slice io" where
  "ring_get_slice b e buf =
     (if b \<ge> length (rb_inner buf) then Panic
      else if e > length (rb_inner buf) then Panic
      else Ok \<lparr>sl_buffer = buf, sl_begin = b, sl_end = e\<rparr>)"

definition slice_get_slice :: "nat \<Rightarrow> nat \<Rightarrow> ring_slice \<Rightarrow> ring_slice io" where
  "slice_get_slice b e s =
     (if e > sl_end s then Panic
      else Ok \<lparr>sl_buffer = sl_buffer s, sl_begin = sl_begin s + b, sl_end = e\<rparr>)"

definition slice_index :: "nat \<Rightarrow> ring_slice \<Rightarrow> byte io" where
  "slice_index idx s =
     (if idx + sl_begin s \<ge> sl_end s then Panic else ring_index (idx + sl_begin s) (sl_buffer s))"

text \<open>A subtraction of \<open>usize\<close>, with overflow checks.\<close>

definition usize_sub :: "nat \<Rightarrow> nat \<Rightarrow> nat io" where
  "usize_sub a b = (if b \<le> a then Ok (a - b) else Panic)"

definition slice_len :: "ring_slice \<Rightarrow> nat io" where
  "slice_len s = usize_sub (sl_end s) (sl_begin s)"

text \<open>\<open>copy_from_slice\<close> into \<open>store[b..e]\<close>.\<close>

definition copy_part :: "nat \<Rightarrow> nat \<Rightarrow> byte list \<Rightarrow> byte list \<Rightarrow> byte list io" where
  "copy_part b e bs store =
     (if b \<le> e \<and> e \<le> length store \<and> length bs = e - b then Ok (overwrite b bs store) else Panic)"

definition slice_to_vec :: "ring_slice \<Rightarrow> byte list io" where
  "slice_to_vec s =
     (let b = sl_buffer s; inner = rb_inner b in
      obind (slice_len s) (\<lambda>n.
        if rb_write b \<ge> rb_read b
        then slice (rb_read b + sl_begin s) (rb_read b + sl_begin s + n) inner
        else
          let len1 = length inner - rb_read b; store = replicate n 0 in
          obind (if len1 > sl_begin s
              then
                let begin = rb_read b + sl_begin s; stop = min (begin + n) (length inner) in
                obind (slice begin stop inner) (\<lambda>bs. copy_part 0 (len1 - sl_begin s) bs store)
              else Ok store) (\<lambda>store.
          if sl_end s > len1
          then
            let begin = rb_read b + sl_begin s - length inner; stop = sl_end s - len1 in
            obind (usize_sub len1 (sl_begin s)) (\<lambda>k.
            obind (slice begin stop inner) (\<lambda>bs. copy_part k n bs store))
          else Ok store)))"

record ring_iter =
  it_buffer :: ring_buffer
  it_counter :: nat
  it_available :: nat

definition iter_new :: "ring_buffer \<Rightarrow> ring_iter" where
  "iter_new b = \<lparr>it_buffer = b, it_counter = 0, it_available = ring_available_for_read b\<rparr>"

definition iter_next :: "ring_iter \<Rightarrow> byte option \<times> ring_iter" where
  "iter_next it =
     (if it_counter it \<ge> it_available it then (None, it)
      else (ring_get (it_counter it) (it_buffer it), it\<lparr>it_counter := it_counter it + 1\<rparr>))"

text \<open>What a \<open>for\<close> loop over the iterator sees, up to \<open>n\<close> items.\<close>

fun iter_take :: "nat \<Rightarrow> ring_iter \<Rightarrow> byte list" where
  "iter_take 0 it = []"
| "iter_take (Suc n) it =
     (case iter_next it of (None, it') \<Rightarrow> [] | (Some x, it') \<Rightarrow> x # iter_take n it')"

section \<open>The queue\<close>

text \<open>The pointers lie within the vector, which is not empty.\<close>

definition ring_inv :: "ring_buffer \<Rightarrow> bool" where
  "ring_inv b \<longleftrightarrow> rb_write b < length (rb_inner b) \<and> rb_read b < length (rb_inner b)"

definition ring_view :: "ring_buffer \<Rightarrow> byte list" where
  "ring_view b =
     (if rb_write b \<ge> rb_read b then take (rb_write b - rb_read b) (drop (rb_read b) (rb_inner b))
      else drop (rb_read b) (rb_inner b) @ take (rb_write b) (rb_inner b))"

lemma ring_new: "0 < n \<Longrightarrow> ring_inv (ring_with_len n)" "ring_view (ring_with_len n) = []"
  "bs \<noteq> [] \<Longrightarrow> ring_inv (ring_from bs)" "ring_view (ring_from bs) = []"
  "0 < n \<Longrightarrow> ring_inv (ring_resize n b)" "ring_view (ring_resize n b) = []"
  by (auto simp: ring_inv_def ring_view_def ring_with_len_def ring_from_def ring_resize_def ring_reset_def)

lemma length_ring_view: "ring_inv b \<Longrightarrow> length (ring_view b) = ring_available_for_read b"
  by (auto simp: ring_inv_def ring_view_def ring_available_for_read_def)

lemma ring_room: "ring_inv b \<Longrightarrow> ring_available_for_read b + ring_available_for_write b = length (rb_inner b)"
  by (auto simp: ring_inv_def ring_available_for_read_def ring_available_for_write_def)

lemma ring_get_view: "ring_inv b \<Longrightarrow> ring_get i b = (if i < length (ring_view b) then Some (ring_view b ! i) else None)"
  by (auto simp: ring_inv_def ring_get_def ring_view_def Let_def nth_append)

lemma ring_to_vec_view: "ring_inv b \<Longrightarrow> ring_to_vec b = Ok (ring_view b)"
  by (auto simp: ring_inv_def ring_to_vec_def ring_view_def)

lemma iter_take_view:
  assumes "ring_inv b"
  shows "iter_take (length (ring_view b) - k) \<lparr>it_buffer = b, it_counter = k, it_available = ring_available_for_read b\<rparr>
    = drop k (ring_view b)"
proof (induction "length (ring_view b) - k" arbitrary: k)
  case 0
  then show ?case by simp
next
  case (Suc n)
  then have k: "k < length (ring_view b)" by simp
  have "length (ring_view b) - k = Suc (length (ring_view b) - Suc k)"
    using k by simp
  moreover have "drop k (ring_view b) = ring_view b ! k # drop (Suc k) (ring_view b)"
    using k by (simp add: Cons_nth_drop_Suc)
  moreover have "n = length (ring_view b) - Suc k" using Suc(2) by simp
  ultimately show ?case
    using Suc(1) [of "Suc k"] k assms length_ring_view [OF assms] by (simp add: iter_next_def ring_get_view)
qed

text \<open>Reading takes bytes off the front of the queue.\<close>

definition ring_front :: "ring_buffer \<Rightarrow> nat" where
  "ring_front b = (if rb_write b \<ge> rb_read b then rb_write b - rb_read b else length (rb_inner b) - rb_read b)"

lemma write_to_buf_view:
  assumes "ring_inv b"
  obtains b' where "write_to_buf n b = Ok (take (min (ring_front b) n) (ring_view b), b')" "ring_inv b'"
    "ring_view b' = drop (min (ring_front b) n) (ring_view b)"
    "n > ring_front b \<longrightarrow> ring_front b' = length (ring_view b')"
proof -
  let ?k = "min (ring_front b) n" and ?l = "length (rb_inner b)"
  let ?b = "b\<lparr>rb_read := (rb_read b + ?k) mod ?l\<rparr>"
  have front: "rb_read b + ring_front b \<le> ?l"
    using assms by (auto simp: ring_inv_def ring_front_def)
  have "write_to_buf n b = Ok (take ?k (drop (rb_read b) (rb_inner b)), ?b)"
    using assms front by (auto simp: write_to_buf_def Let_def ring_progress_read_def ring_front_def ring_inv_def)
  moreover have "take ?k (drop (rb_read b) (rb_inner b)) = take ?k (ring_view b)"
    using assms by (auto simp: ring_view_def ring_front_def ring_inv_def min_def)
  moreover have "0 < ?l" using assms by (auto simp: ring_inv_def)
  then have "ring_inv ?b" using assms by (simp add: ring_inv_def)
  moreover have "ring_view ?b = drop ?k (ring_view b)"
  proof (cases "rb_read b + ?k < ?l")
    case True
    with assms show ?thesis
      by (auto simp: ring_view_def ring_front_def ring_inv_def drop_take min_def add.commute split: if_splits)
  next
    case False
    with assms front have "rb_write b < rb_read b" "?k = ?l - rb_read b" "rb_read b + ?k = ?l"
      by (auto simp: ring_front_def ring_inv_def split: if_splits)
    with assms show ?thesis by (auto simp: ring_view_def ring_inv_def)
  qed
  moreover have "n > ring_front b \<longrightarrow> ring_front ?b = length (ring_view ?b)"
    using assms by (auto simp: ring_front_def ring_view_def ring_inv_def)
  ultimately show ?thesis using that [of ?b] by simp
qed

text \<open>
  Reading from a ring buffer hands out the bytes that are in it in their order, as many as
  there are and as the caller has room for, and leaves the rest; the vector and the iterator show
  the same bytes.
\<close>

lemma ring_read_is_fifo:
  assumes "rb_write b < length (rb_inner b)" "rb_read b < length (rb_inner b)"
  shows "\<exists>b'. ring_read n b = Ok (take n (ring_view b), b') \<and> ring_view b' = drop n (ring_view b) \<and>
    ring_to_vec b = Ok (ring_view b) \<and> iter_take (ring_available_for_read b) (iter_new b) = ring_view b"
proof -
  have inv: "ring_inv b" using assms by (simp add: ring_inv_def)
  obtain b1 where b1: "write_to_buf n b = Ok (take (min (ring_front b) n) (ring_view b), b1)" "ring_inv b1"
    "ring_view b1 = drop (min (ring_front b) n) (ring_view b)" "n > ring_front b \<longrightarrow> ring_front b1 = length (ring_view b1)"
    by (rule write_to_buf_view [OF inv])
  obtain b2 where b2: "write_to_buf (n - min (ring_front b) n) b1 =
      Ok (take (min (ring_front b1) (n - min (ring_front b) n)) (ring_view b1), b2)"
    "ring_view b2 = drop (min (ring_front b1) (n - min (ring_front b) n)) (ring_view b1)"
    by (rule write_to_buf_view [OF b1(2)])
  let ?f = "ring_front b" and ?v = "ring_view b"
  have f: "?f \<le> length ?v" "?v \<noteq> [] \<longrightarrow> 0 < ?f"
    using assms by (auto simp: ring_front_def ring_view_def)
  have "\<exists>b'. ring_read n b = Ok (take n ?v, b') \<and> ring_view b' = drop n ?v"
  proof (cases "0 < ?f \<and> ?f < n")
    case True
    then have "?v \<noteq> []" using f by auto
    with True have "ring_read n b = Ok (take ?f ?v @ take (min (length (drop ?f ?v)) (n - ?f)) (drop ?f ?v), b2)"
      using b1 b2 f by (simp add: ring_read_def min_absorb1)
    moreover have "take ?f ?v @ take (min (length (drop ?f ?v)) (n - ?f)) (drop ?f ?v) = take n ?v"
      using True take_add [of ?f "n - ?f" ?v] by (simp add: min_def)
    moreover have "ring_view b2 = drop n ?v"
      using True b1 b2 f by (auto simp: min_def)
    ultimately show ?thesis by auto
  next
    case False
    with f b1 have "ring_read n b = Ok (take n ?v, b1)" "ring_view b1 = drop n ?v"
      by (auto simp: ring_read_def min_def not_less)
    then show ?thesis by blast
  qed
  moreover have "iter_take (ring_available_for_read b) (iter_new b) = ?v"
    using iter_take_view [OF inv, of 0] length_ring_view [OF inv] by (simp add: iter_new_def)
  ultimately show ?thesis using ring_to_vec_view [OF inv] by blast
qed

lemma overwrite_around:
  "k \<le> i \<Longrightarrow> i \<le> length xs \<Longrightarrow> take k (overwrite i ys xs) = take k xs"
  "i + length ys \<le> k \<Longrightarrow> i \<le> length xs \<Longrightarrow> drop k (overwrite i ys xs) = drop k xs"
  by (simp_all add: overwrite_def)

text \<open>Writing moves no pointer: what was not in the queue before is not in it afterwards.\<close>

lemma write_from_buf_view:
  assumes "ring_inv b"
  obtains n b' where "write_from_buf bs b = Ok (n, b')" "ring_inv b'" "ring_view b' = ring_view b"
    "n \<le> length bs" "bs \<noteq> [] \<Longrightarrow> 0 < n"
proof -
  obtain start stop where buf: "get_write_buf b = (start, stop)" by fastforce
  then have range: "start < stop \<and> stop \<le> length (rb_inner b) \<and> start = rb_write b \<and>
      (rb_write b < rb_read b \<longrightarrow> stop = rb_read b)" if "rb_write b \<noteq> rb_read b \<or> True"
    using assms by (auto simp: get_write_buf_def ring_inv_def split: if_splits)
  let ?n = "min (stop - start) (length bs)"
  let ?b = "b\<lparr>rb_inner := overwrite start (take ?n bs) (rb_inner b)\<rparr>"
  have n: "start + ?n \<le> stop" using range by (auto simp: min_def)
  have "write_from_buf bs b = Ok (?n, ?b)"
  proof -
    have "length (take (stop - start) (drop start (rb_inner b))) = stop - start" using range by (auto simp: min_def)
    then show ?thesis using buf range by (simp add: write_from_buf_def Let_def)
  qed
  moreover have "length (rb_inner ?b) = length (rb_inner b)"
    using range n by (simp add: overwrite_def)
  then have "ring_inv ?b" using assms by (simp add: ring_inv_def)
  moreover have "ring_view ?b = ring_view b"
  proof (cases "rb_write b \<ge> rb_read b")
    case True
    with range show ?thesis by (simp add: ring_view_def overwrite_around flip: drop_take)
  next
    case False
    with range n show ?thesis by (simp add: ring_view_def overwrite_around)
  qed
  ultimately show ?thesis using that range by auto
qed

text \<open>
  Writing to a ring buffer loses the bytes: \<open>write\<close> reports at least one byte as taken, but the
  write pointer does not move, so the unread bytes are what they were.
\<close>

lemma ring_write_loses_bytes:
  assumes "rb_write b < length (rb_inner b)" "rb_read b < length (rb_inner b)" "bs \<noteq> []"
  shows "\<exists>n b'. ring_write bs b = Ok (n, b') \<and> 0 < n \<and> n \<le> length bs \<and> ring_view b' = ring_view b"
proof -
  have inv: "ring_inv b" using assms by (simp add: ring_inv_def)
  obtain n b1 where b1: "write_from_buf bs b = Ok (n, b1)" "ring_inv b1" "ring_view b1 = ring_view b" "n \<le> length bs" "0 < n"
    using write_from_buf_view [OF inv, of bs] assms(3) by metis
  obtain m b2 where "write_from_buf (drop n bs) b1 = Ok (m, b2)" "ring_view b2 = ring_view b1" "m \<le> length (drop n bs)"
    using write_from_buf_view [OF b1(2), of "drop n bs"] by metis
  with b1 show ?thesis by (cases "n < length bs") (auto simp: ring_write_def)
qed

text \<open>
  Reading from a reader adds what comes to the queue, unless it fills the buffer: a full buffer
  counts as empty, and everything in it is lost.
\<close>

lemma ring_read_from_reader_view:
  assumes "ring_inv b" "get_write_buf b = (start, stop)" "rd (stop - start) r = (Ok bs, r')" "length bs \<le> stop - start"
  obtains b' where "ring_read_from_reader rd b r = (Ok (length bs), b', r')" "ring_inv b'"
    "ring_view b' = (if length (ring_view b) + length bs < length (rb_inner b) then ring_view b @ bs else [])"
proof -
  have range: "start < stop \<and> stop \<le> length (rb_inner b) \<and> start = rb_write b \<and>
      stop = (if rb_write b < rb_read b then rb_read b else length (rb_inner b))"
    using assms(1,2) by (auto simp: get_write_buf_def ring_inv_def split: if_splits)
  let ?inner = "overwrite start bs (rb_inner b)"
  let ?b = "b\<lparr>rb_inner := ?inner, rb_write := (rb_write b + length bs) mod length (rb_inner b)\<rparr>"
  have len: "length ?inner = length (rb_inner b)" "?inner \<noteq> []"
    using range assms(4) by (auto simp: overwrite_def)
  have "ring_read_from_reader rd b r = (Ok (length bs), ?b, r')"
    using assms range len by (simp add: ring_read_from_reader_def ring_progress_write_def Let_def)
  moreover have "0 < length (rb_inner b)" using range by linarith
  then have "ring_inv ?b" using assms(1) len by (simp add: ring_inv_def)
  moreover have "ring_view ?b = (if length (ring_view b) + length bs < length (rb_inner b) then ring_view b @ bs else [])"
  proof (cases "rb_write b < rb_read b")
    case True
    then have w: "rb_write b + length bs \<le> rb_read b" using assms(4) range by auto
    then have "(rb_write b + length bs) mod length (rb_inner b) = rb_write b + length bs"
      using assms(1) by (simp add: ring_inv_def)
    with True w assms(1) range show ?thesis
      by (cases "rb_write b + length bs = rb_read b")
        (simp_all add: ring_view_def ring_inv_def overwrite_around take_overwrite)
  next
    case False
    then have w: "rb_write b + length bs \<le> length (rb_inner b)" using assms(4) range by auto
    with False assms(1) range show ?thesis
      by (cases "rb_write b + length bs = length (rb_inner b)")
        (auto simp: ring_view_def ring_inv_def overwrite_def drop_take)
  qed
  ultimately show ?thesis using that [of ?b] by simp
qed


text \<open>
  Filling a ring buffer that has been read from: reads from a reader append to the queue until
  the buffer is full, and then the queue is empty; with it the bytes that were not read yet.
\<close>

lemma ring_full_is_empty:
  assumes "rb_write b < rb_read b" "rb_read b < length (rb_inner b)"
    and "rd (ring_available_for_write b) r = (Ok bs, r')" "length bs = ring_available_for_write b"
  shows "\<exists>b'. ring_read_from_reader rd b r = (Ok (length bs), b', r') \<and> ring_view b \<noteq> [] \<and> ring_view b' = []"
proof -
  have inv: "ring_inv b" and buf: "get_write_buf b = (rb_write b, rb_read b)"
    and free: "ring_available_for_write b = rb_read b - rb_write b"
    using assms(1,2) by (auto simp: ring_inv_def get_write_buf_def ring_available_for_write_def)
  obtain b' where b': "ring_read_from_reader rd b r = (Ok (length bs), b', r')"
    "ring_view b' = (if length (ring_view b) + length bs < length (rb_inner b) then ring_view b @ bs else [])"
    using ring_read_from_reader_view [where rd = rd, OF inv buf, of r bs r'] assms(3,4) free by auto
  moreover have "length (ring_view b) + length bs = length (rb_inner b)"
    using ring_room [OF inv] length_ring_view [OF inv] assms(4) by simp
  moreover have "ring_view b \<noteq> []" using assms(1,2) by (simp add: ring_view_def)
  ultimately show ?thesis by (intro exI [of _ b']) simp
qed

text \<open>A slice that ends before the end of the vector cannot be copied out once the data wraps.\<close>

lemma slice_to_vec_wrapped_panics:
  assumes "rb_write b < rb_read b" "rb_read b < length (rb_inner b)"
    and "sl_end s \<le> length (rb_inner b)" "sl_begin s < sl_end s" "sl_end s < length (rb_inner b) - rb_read b" "sl_buffer s = b"
  shows "slice_to_vec s = Panic"
  using assms by (simp add: slice_to_vec_def slice_len_def usize_sub_def copy_part_def Let_def)

text \<open>
  The free slice of a buffer with valid pointers is never empty, so \<open>copy_from_reader\<close> stops only when
  the reader has nothing more: with a reader that always has something it never returns, and goes
  round in the buffer.
\<close>

lemma free_slice_not_empty: "ring_inv b \<Longrightarrow> fst (get_write_buf b) < snd (get_write_buf b)"
  by (auto simp: ring_inv_def get_write_buf_def)

lemma copy_from_reader_never_ends:
  assumes rd: "\<And>n r. 0 < n \<Longrightarrow> \<exists>bs r'. rd n r = (Ok bs, r') \<and> bs \<noteq> [] \<and> length bs \<le> n" and inv: "ring_inv b"
  shows "copy_from_reader rd total_amount (b, r) = None"
proof (rule ccontr)
  assume "copy_from_reader rd total_amount (b, r) \<noteq> None"
  then obtain out where out: "copy_from_reader rd total_amount (b, r) = Some out" by blast
  have "\<not> (rd = rd \<and> ring_inv (fst (b, r)))"
  proof (rule copy_from_reader.raw_induct [where P = "\<lambda>rd' n s out. \<not> (rd' = rd \<and> ring_inv (fst s))", OF _ out], goal_cases)
    case (1 F rd' n s out)
    show ?case
    proof
      assume asm: "rd' = rd \<and> ring_inv (fst s)"
      obtain b r where s: "s = (b, r)" by fastforce
      obtain start stop where buf: "get_write_buf b = (start, stop)" "start < stop"
        using free_slice_not_empty [of b] asm s by (cases "get_write_buf b") auto
      obtain bs r' where bs: "rd (stop - start) r = (Ok bs, r')" "bs \<noteq> []" "length bs \<le> stop - start"
        using rd [of "stop - start" r] buf(2) by auto
      obtain b' where b': "ring_read_from_reader rd b r = (Ok (length bs), b', r')" "ring_inv b'"
        using ring_read_from_reader_view [where rd = rd, OF _ buf(1) bs(1,3)] asm s by auto
      with 1(2) have "F rd (n + length bs) (b', r') = Some out"
        using asm s buf bs(2) by simp
      with 1(1) b'(2) show False by fastforce
    qed
  qed
  with inv show False by simp
qed

end
