(* ===== verification/Body.thy ===== *)
theory Body
  imports H1_Write
begin

text \<open>
  \<open>src/src/body.rs\<close>: the type of bodies as handlers use it. The reader in a body is a state; what
  \<open>tokio\<close> does with it (\<open>take\<close> and \<open>read_to_end\<close>, called on the body) is a parameter, and so is the
  JSON library.
\<close>

section \<open>Making bodies\<close>

definition body_new :: "'b \<Rightarrow> nat option \<Rightarrow> bool \<Rightarrow> 'b body" where
  "body_new reader len finish = \<lparr>bd_body = Some reader, bd_len = len, bd_finish_on_drop = finish\<rparr>"

text \<open>\<open>to_vec\<close> stands for \<open>serde_json::to_vec\<close>; the reader is a cursor, the bytes that are left.\<close>

definition body_from_json :: "('j \<Rightarrow> byte list option) \<Rightarrow> 'j \<Rightarrow> byte list body io" where
  "body_from_json to_vec json =
     (case to_vec json of
        None \<Rightarrow> Err (IoError Other ''Serializing response failed.'')
      | Some bytes \<Rightarrow> Ok \<lparr>bd_body = Some bytes, bd_len = Some (length bytes), bd_finish_on_drop = False\<rparr>)"

definition activate_finish_on_drop :: "'b body \<Rightarrow> 'b body" where
  "activate_finish_on_drop b = b\<lparr>bd_finish_on_drop := True\<rparr>"

text \<open>\<open>drop\<close>: the reader that is read to its end in a task of its own, if any.\<close>

definition body_drop :: "'b body \<Rightarrow> 'b option" where
  "body_drop b = (if bd_finish_on_drop b then bd_body b else None)"

section \<open>Reading a body into memory\<close>

text \<open>
  \<open>read_to_end max_len\<close> stands for \<open>take(max_len)\<close> and \<open>read_to_end\<close> on the body: how many bytes it read, the
  vector they were put into, and the body after that.
\<close>

type_synonym 'b read_to_end = "nat \<Rightarrow> 'b body \<Rightarrow> (nat \<times> byte list) io \<times> 'b body"

definition read_to_vec :: "'b read_to_end \<Rightarrow> nat \<Rightarrow> 'b body \<Rightarrow> byte list io \<times> 'b body" where
  "read_to_vec read_to_end max_len b =
     (let limit = (case bd_len b of
          Some body_len \<Rightarrow>
            if body_len > max_len then Err (IoError InvalidData ''The request body is too large.'') else Ok body_len
        | None \<Rightarrow> Ok max_len) in
      case limit of
        Ok m \<Rightarrow>
          (case read_to_end m b of
             (Ok (amount, buf), b') \<Rightarrow>
               (if amount > length buf then Err (IoError Other ''The request body is too large.'') else Ok buf, b')
           | (Err e, b') \<Rightarrow> (Err e, b')
           | (Panic, b') \<Rightarrow> (Panic, b'))
      | Err e \<Rightarrow> (Err e, b)
      | Panic \<Rightarrow> (Panic, b))"

text \<open>\<open>from_slice\<close> stands for \<open>serde_json::from_slice\<close>.\<close>

definition body_to_json :: "(byte list \<Rightarrow> 'j option) \<Rightarrow> 'b read_to_end \<Rightarrow> nat \<Rightarrow> 'b body \<Rightarrow> 'j io \<times> 'b body" where
  "body_to_json from_slice read_to_end max_len b =
     (case read_to_vec read_to_end max_len b of (res, b') \<Rightarrow>
        (obind res (\<lambda>buf. case from_slice buf of
           None \<Rightarrow> Err (IoError InvalidData ''Invalid json.'')
         | Some json \<Rightarrow> Ok json), b'))"

section \<open>Properties\<close>

text \<open>The bytes a body has still to give; a body without a reader is at its end.\<close>

definition body_pending :: "('b \<Rightarrow> byte list) \<Rightarrow> 'b body \<Rightarrow> byte list" where
  "body_pending pend b = (case bd_body b of None \<Rightarrow> [] | Some r \<Rightarrow> pend r)"

text \<open>
  What is documented of \<open>take\<close> and \<open>read_to_end\<close>: everything up to the end of the stream, but not
  more than the limit, is appended to the vector, and its length is the result.
\<close>

definition reads_up_to :: "('b \<Rightarrow> byte list) \<Rightarrow> 'b read_to_end \<Rightarrow> bool" where
  "reads_up_to pend f \<longleftrightarrow> (\<forall>m b. \<exists>b'. f m b = (Ok (length (take m (body_pending pend b)), take m (body_pending pend b)), b'))"

text \<open>Bodies over a list of bytes.\<close>

definition list_read_to_end :: "byte list read_to_end" where
  "list_read_to_end m b =
     (let bs = (case bd_body b of None \<Rightarrow> [] | Some bs \<Rightarrow> bs) in
      (Ok (length (take m bs), take m bs), b\<lparr>bd_body := map_option (drop m) (bd_body b)\<rparr>))"

lemma list_reads_up_to: "reads_up_to (\<lambda>bs. bs) list_read_to_end"
  by (simp add: reads_up_to_def list_read_to_end_def body_pending_def Let_def split: option.split)

text \<open>
  What \<open>read_to_vec\<close> returns: a body that announces more than \<open>max_len\<close> bytes is an error; otherwise
  the announced length, or \<open>max_len\<close> for a body without one, is a limit at which the body is cut without
  an error. So a chunked or HTTP/2 body that is too long is not rejected but truncated, and a body
  that ends early is returned as it is.
\<close>

lemma read_to_vec_cuts:
  assumes "reads_up_to pend f"
  shows "fst (read_to_vec f max_len b) =
    (case bd_len b of
       Some len \<Rightarrow>
         if len > max_len then Err (IoError InvalidData ''The request body is too large.'')
         else Ok (take len (body_pending pend b))
     | None \<Rightarrow> Ok (take max_len (body_pending pend b)))"
proof -
  have read: "\<exists>b'. f m b = (Ok (length (take m (body_pending pend b)), take m (body_pending pend b)), b')" for m
    using assms by (simp add: reads_up_to_def)
  show ?thesis
  proof (cases "bd_len b")
    case None
    with read [of max_len] show ?thesis by (auto simp: read_to_vec_def)
  next
    case (Some len)
    with read [of len] show ?thesis by (auto simp: read_to_vec_def)
  qed
qed

text \<open>An object that is sent as JSON is read back, when the limit allows its length.\<close>

lemma json_roundtrip:
  assumes "to_vec json = Some bytes" "from_slice bytes = Some json" "length bytes \<le> max_len"
  obtains b where "body_from_json to_vec json = Ok b" "fst (body_to_json from_slice list_read_to_end max_len b) = Ok json"
proof -
  let ?b = "\<lparr>bd_body = Some bytes, bd_len = Some (length bytes), bd_finish_on_drop = False\<rparr>"
  have "fst (body_to_json from_slice list_read_to_end max_len ?b) = Ok json"
    using assms by (simp add: body_to_json_def read_to_vec_def list_read_to_end_def)
  with assms(1) show ?thesis using that [of ?b] by (simp add: body_from_json_def)
qed

end
