(* ===== verification/Spec2Isabelle.thy ===== *)
theory Spec2Isabelle
  imports H2_Task Byte_Ranges Path_Parser File_Server Server H1_Safety Ring_Buffer Body
begin

text \<open>
  QHTTP is an HTTP/1.1 and HTTP/2 server library on \<open>tokio\<close>. A listener task accepts connections and
  starts a task for each. A connection task reads requests from its socket into a buffer, gives
  them to a handler that runs as a task of its own, serves the handler's reads of the request body,
  and writes the response. An HTTP/2 connection task does the same for many streams: it decodes
  frames, keeps the flow-control windows, and talks to one task per stream over channels. The files
  are under \<open>src/src/\<close>.

  \<^bold>\<open>Theories and what they model.\<close> Shared foundations:

  \<^item> \<open>Prelude\<close>: results with the third outcome of Rust code, the panic; big-endian integers, slices
    that panic out of range, \<open>i32\<close> windows with checked operations, methods with \<open>&mut self\<close>
    (\<open>stateful\<close>, \<open>sbind\<close> for \<open>?\<close>) and the predicates \<open>keeps\<close> and \<open>upholds\<close> for invariants.
  \<^item> \<open>Rust_Str\<close>: the methods of \<open>str\<close> the utilities use.
  \<^item> \<open>Byte_Buffer\<close> (\<open>buffer.rs\<close>, \<open>Buffer\<close>): the vector with a read and a write pointer. \<open>view\<close> is
    the queue of bytes it stands for; the locale \<open>byte_fifo\<close> states the queue contract, the
    locale \<open>byte_source\<close> what a reader below promises.
  \<^item> \<open>Ring_Buffer\<close> (\<open>buffer.rs\<close>, \<open>RingBuffer\<close>, its slices and its iterator).
  \<^item> \<open>Http_Parse\<close> (\<open>parse.rs\<close>): byte classes, the searches for the end of a start line, a header
    and a chunk header, and the parsers of their parts.
  \<^item> \<open>Poll_IO\<close>: readers and writers at the level of single polls (\<open>AsyncRead\<close>, \<open>AsyncWrite\<close>), with
    the locales \<open>poll_feed\<close>, \<open>poll_source\<close> and \<open>poll_sink\<close>.

  Requests, responses and handlers:

  \<^item> \<open>Request\<close> (\<open>request.rs\<close>): how long a body is, \<open>LimitReader\<close>, \<open>ChunkedReader\<close>, and a one-shot
    decoder of the chunked coding (\<open>dechunk\<close>) they are compared with.
  \<^item> \<open>Response\<close> (\<open>response.rs\<close>): \<open>ChunkedWriter\<close>, poll by poll. \<open>Body\<close> (\<open>body.rs\<close>): bodies as handlers
    make and read them.
  \<^item> \<open>Http_Request\<close> (\<open>request.rs\<close>, \<open>lib.rs\<close>): the header lookups of \<open>HttpRequest\<close>, and \<open>HttpError\<close>.
    \<open>Byte_Ranges\<close> (\<open>util/byterange.rs\<close>): the \<open>Range\<close> header.
  \<^item> \<open>Handler\<close> (\<open>lib.rs\<close>): what the task of a handler answers, and handlers behind pointers.
  \<^item> \<open>Path_Parser\<close> (\<open>util/path.rs\<close>): patterns of paths. \<open>File_Server\<close> (\<open>util/fs.rs\<close>): the handler that
    serves files.

  HTTP/1, the type \<open>Connection\<close> of \<open>lib.rs\<close>:

  \<^item> \<open>H1_Read\<close> and \<open>H1_Write\<close>: reading a request head, writing a response. \<open>H1_Body\<close>: the reader of the
    request body and how the connection serves it. \<open>H1_Conn\<close>: the loop from one request to the
    next. \<open>H1_Safety\<close>: what holds whatever the peer and the handler do.

  HTTP/2:

  \<^item> \<open>H2_Settings\<close> (\<open>http2/error.rs\<close>, \<open>http2/settings.rs\<close>), \<open>H2_Frame\<close> (\<open>http2/frame.rs\<close>), \<open>H2_Wire\<close>
    (frames on the wire, \<open>http2/mod.rs\<close>), \<open>H2_Request\<close> (header lists to requests).
  \<^item> \<open>H2_Stream\<close> (\<open>http2/stream.rs\<close>, and \<open>BackgroundRead\<close> of \<open>http2/mod.rs\<close>): the parts of a stream task,
    its messages and windows, the sending of a body (with the locale \<open>body_walk\<close> for what every piece
    of it establishes), the reader of the request body. \<open>H2_Task\<close>: the whole task, from the request
    through the handler to the end of the response, and that it is a task of \<open>H2_System\<close>.
  \<^item> \<open>H2_Conn\<close> (\<open>http2/mod.rs\<close>): the handlers of the connection task and its loop. \<open>H2_Conn_Inv\<close> and
    \<open>H2_Conn_Laws\<close>: its invariant and its properties, with the locale \<open>conn_law\<close> for what every
    operation of it keeps. \<open>H2_System\<close>: the connection and its streams together.

  The server:

  \<^item> \<open>Listener\<close> (\<open>listener.rs\<close>): listeners, negotiators and what they record of a connection.
  \<^item> \<open>Server\<close> (\<open>server.rs\<close>): the listeners of a server, the accept loop, the choice of a protocol,
    the counter of connections and the shutdown.

  \<^bold>\<open>How code becomes definitions.\<close> A struct is a record, an enum a datatype, a method with
  \<open>&mut self\<close> a function to its result and the new state. \<open>Result\<close> is \<open>outcome\<close>; an index out of
  range, a failed \<open>unwrap\<close> and an overflow are the outcome \<open>Panic\<close>, so that absence of panics is a
  theorem. The \<open>http\<close> crate, HPACK, the socket, the file system, the parsing of JSON and of dates are
  parameters: records of functions (\<open>http_crate\<close>, \<open>h1_crate\<close>) and readers or writers with a state. A
  user's handler is a state machine that asks for reads of its body and ends with a result. A time
  limit that passes is a reader or writer that answers with an error, or an input. A loop that may
  not end is a \<open>partial_function (option)\<close> with the value \<open>None\<close> when it does not; that it ends is
  part of the theorems. The interleaving of tasks is a step relation (\<open>H2_System\<close>, \<open>Server\<close>) or a
  list of what happens, in order (\<open>H2_Conn\<close>, \<open>H2_Stream\<close>, \<open>H2_Task\<close>).

  \<^bold>\<open>What the properties show.\<close> Round trips: buffers are lossless queues, frames, settings, heads and
  chunked bodies are read back as they were written, in whatever pieces they arrive. HTTP/1: a
  connection answers pipelined requests in order, each once, never panics and keeps its buffer well
  formed. HTTP/2: a stream answers its request with one head and exactly the bytes of its body, and
  neither loses bytes of the request's body nor window; its task takes only steps of the system of
  connection and streams, in which the connection keeps its invariant, never panics, and never
  sends more than the peer's windows allow, in every interleaving. Behaviour of each handler on each
  branch. The file server stays below its root. Defects of the code are theorems as well: each
  states what the code does, and the manifest lists it as a finding.

  \<^bold>\<open>Bounds.\<close> \<open>usize\<close> values are natural numbers where they are lengths of what is in memory, with the
  64-bit bound as an assumption where the code depends on it; \<open>i32\<close> windows carry their range.
  Fuel is used in \<open>dechunk\<close> only, as the longest chunk header that is tried (18 bytes are 16 digits
  and the line end, all a 64-bit chunk size can take); the readers and loops of the model need none.

  \<^bold>\<open>Not modelled.\<close> Sockets, the TLS handshake and the spawning of tasks; the measuring of time;
  logging; the contents of the HPACK tables; the tasks that go on reading a body after its owner
  has dropped it (their effects on an HTTP/2 stream are window events that may come at any time);
  the lookups in type-keyed extensions (globals, locals, pool), which return what was put there; the
  implementations of traits that only pass a call on, and \<open>Debug\<close> and \<open>Display\<close>; the tests.
\<close>

section \<open>Settings across the connection\<close>

text \<open>
  C29. The settings an endpoint announces are the settings its peer applies: the SETTINGS frame
  made from them is read back from the wire in whatever pieces it arrives, decoded, and applied
  to the defaults; the result is the announced settings themselves.
\<close>

theorem announced_settings_are_applied:
  assumes "settings_inv s" "36 \<le> cap"
    and "concat pieces = write_frame (settings_enc (settings_to_frame s)) @ rest"
  shows "\<exists>f sf d. fst (read_next_frame chunk_reader (with_capacity cap, pieces)) = Ok f \<and>
    dispatch f = Ok (R_Settings sf) \<and> apply_settings_frame sf settings_default = (Ok d, s)"
proof -
  let ?sf = "settings_to_frame s"
  have canon: "settings_canon ?sf" by (simp add: settings_canon_def settings_to_frame_def)
  have len: "length (payload (settings_enc ?sf)) \<le> 36" by (simp add: settings_enc_def)
  then have "sendable cap (settings_enc ?sf)"
    using assms(2) by (intro settings_codec.enc_sendable [OF canon]) simp_all
  then have "fst (read_next_frame chunk_reader (with_capacity cap, pieces)) = Ok (settings_enc ?sf)"
    using chunk_source.read_next_frame_ok [OF wire_state_inv, of cap pieces "settings_enc ?sf" rest]
      assms(2,3) by (auto simp: wire_state_unread)
  moreover have "dispatch (settings_enc ?sf) = Ok (R_Settings ?sf)"
    using settings_codec.dec_enc [OF canon] by (simp add: dispatch_def settings_enc_def)
  moreover have "frame_in_range ?sf"
    using assms(1) by (simp add: frame_in_range_def settings_to_frame_def settings_inv_def)
  moreover have "merged ?sf settings_default = s"
    by (cases s; cases "max_concurrent_streams s"; cases "max_header_list_size s")
      (simp_all add: merged_def settings_to_frame_def given_def settings_default_def)
  ultimately show ?thesis
    using apply_in_range [OF settings_default_inv, of ?sf] by auto
qed

theorem announced_settings_are_applied_witness:
  "\<exists>f sf d. fst (read_next_frame chunk_reader (with_capacity 40,
      [write_frame (settings_enc (settings_to_frame settings_default))])) = Ok f \<and>
    dispatch f = Ok (R_Settings sf) \<and>
    apply_settings_frame sf settings_default = (Ok d, settings_default)"
  using announced_settings_are_applied [OF settings_default_inv, of 40
      "[write_frame (settings_enc (settings_to_frame settings_default))]" "[]"]
  by simp

end
